(* ===== verification/Prelude.thy ===== *)
theory Prelude
  imports Main "HOL-Library.Word" "HOL-Library.Monad_Syntax" "HOL-Library.Multiset"
begin

text \<open>
  Shared material of the development: names for the machine types, checked
  array accesses, and generic lemmas on lists, options and arithmetic that the
  component theories use.

  Throughout, a C function that may fail to return normally (it runs off an
  array, overflows a signed integer, hits \<^verbatim>\<open>BUG_ON\<close> or an assertion, or loops for
  ever) is a function into an \<open>option\<close> type, and \<^const>\<open>None\<close> is that outcome.
  A theorem that such a function equals \<open>Some r\<close> therefore says that it
  returns and that none of these things happens on the way.
\<close>

unbundle bit_operations_syntax

section \<open>Machine types\<close>

type_synonym guint = "32 word"
type_synonym gpointer = "64 word"
type_synonym byte = "8 word"

abbreviation NULL :: gpointer where
  "NULL \<equiv> 0"

text \<open>Reduction of a natural number to an unsigned 32-bit value.\<close>

definition u32 :: "nat \<Rightarrow> nat" where
  "u32 n = n mod 2 ^ 32"

lemma u32_id [simp]: "n < 2 ^ 32 \<Longrightarrow> u32 n = n"
  by (simp add: u32_def)

lemma u32_0 [simp]: "u32 0 = 0"
  by (simp add: u32_def)

lemma nat_and_mask: "(m :: nat) AND (2 ^ n - 1) = m mod 2 ^ n"
  by (metis mask_eq_exp_minus_1 take_bit_eq_mask take_bit_eq_mod)

lemma u32_and_mask: "n \<le> 32 \<Longrightarrow> u32 m AND (2 ^ n - 1) = m mod 2 ^ n"
  unfolding u32_def nat_and_mask
  by (metis le_imp_power_dvd mod_mod_cancel)

section \<open>Checked array accesses\<close>

definition arr_get :: "'a list \<Rightarrow> nat \<Rightarrow> 'a option" where
  "arr_get xs i = (if i < length xs then Some (xs ! i) else None)"

definition arr_set :: "'a list \<Rightarrow> nat \<Rightarrow> 'a \<Rightarrow> 'a list option" where
  "arr_set xs i x = (if i < length xs then Some (xs[i := x]) else None)"

lemma arr_get_in [simp]: "i < length xs \<Longrightarrow> arr_get xs i = Some (xs ! i)"
  by (simp add: arr_get_def)

lemma arr_set_in [simp]: "i < length xs \<Longrightarrow> arr_set xs i x = Some (xs[i := x])"
  by (simp add: arr_set_def)

lemma arr_get_Some_iff: "arr_get xs i = Some x \<longleftrightarrow> i < length xs \<and> x = xs ! i"
  by (auto simp: arr_get_def)

lemma arr_set_Some_iff: "arr_set xs i x = Some ys \<longleftrightarrow> i < length xs \<and> ys = xs[i := x]"
  by (auto simp: arr_set_def)

section \<open>Counting list positions\<close>

text \<open>The number of positions of a list whose element satisfies \<open>P\<close>.\<close>

abbreviation count_if :: "('a \<Rightarrow> bool) \<Rightarrow> 'a list \<Rightarrow> nat" where
  "count_if P xs \<equiv> length (filter P xs)"

lemma count_if_update:
  "i < length xs \<Longrightarrow>
   int (count_if P (xs[i := x])) =
   int (count_if P xs) - (if P (xs ! i) then 1 else 0) + (if P x then 1 else 0)"
proof (induction xs arbitrary: i)
  case Nil
  then show ?case by simp
next
  case (Cons a xs)
  show ?case
  proof (cases i)
    case 0
    then show ?thesis by simp
  next
    case (Suc m)
    with Cons.prems have "m < length xs" by simp
    from Cons.IH [OF this] Suc show ?thesis by (cases "P (xs ! m)"; cases "P x") auto
  qed
qed

lemma count_if_card: "count_if P xs = card {i. i < length xs \<and> P (xs ! i)}"
  by (simp add: length_filter_conv_card)

lemma count_if_less_ex:
  "count_if P xs < length xs \<Longrightarrow> \<exists>i < length xs. \<not> P (xs ! i)"
  by (metis filter_True in_set_conv_nth less_irrefl)

lemma count_if_less:
  "i < length xs \<Longrightarrow> \<not> P (xs ! i) \<Longrightarrow> count_if P xs < length xs"
  by (metis length_filter_less nth_mem)

lemma count_if_le: "count_if P xs \<le> length xs"
  by (rule length_filter_le)

lemma count_if_mono: "(\<And>x. P x \<Longrightarrow> Q x) \<Longrightarrow> count_if P xs \<le> count_if Q xs"
  by (induction xs) auto

section \<open>Triangular probing\<close>

text \<open>
  The offsets \<open>0, 1, 3, 6, \<dots>\<close> of a probe that adds \<open>1, 2, 3, \<dots>\<close> in turn. Modulo a
  power of two the first \<open>2 ^ n\<close> of them are pairwise different, so such a probe
  visits every slot of a table of that size.
\<close>

fun tri :: "nat \<Rightarrow> nat" where
  "tri 0 = 0"
| "tri (Suc s) = tri s + Suc s"

lemma tri_double: "2 * tri s = s * (s + 1)"
  by (induction s) auto

lemma pow2_dvd_odd_cancel:
  "2 ^ k dvd (a * b :: nat) \<Longrightarrow> odd b \<Longrightarrow> 2 ^ k dvd a"
  using coprime_dvd_mult_left_iff coprime_power_left_iff coprime_right_2_iff_odd
  by (metis coprime_commute coprime_power_right_iff)

lemma tri_inj_mod:
  assumes "i < j" "j < 2 ^ n"
  shows "tri i mod 2 ^ n \<noteq> tri j mod 2 ^ n"
proof
  assume eq: "tri i mod 2 ^ n = tri j mod 2 ^ n"
  have le: "tri i \<le> tri j"
    using assms(1) by (induction j) (auto simp: less_Suc_eq)
  with eq have "2 ^ n dvd tri j - tri i"
    by (metis mod_eq_dvd_iff_nat)
  then have "2 ^ Suc n dvd 2 * (tri j - tri i)"
    by simp
  also have "2 * (tri j - tri i) = (j - i) * (j + i + 1)"
  proof -
    obtain d where d: "j = i + d" using assms(1) less_imp_add_positive by blast
    have "2 * (tri j - tri i) = 2 * tri j - 2 * tri i" by simp
    also have "\<dots> = j * (j + 1) - i * (i + 1)" by (simp only: tri_double)
    also have "\<dots> = (j - i) * (j + i + 1)" unfolding d by (simp add: algebra_simps)
    finally show ?thesis .
  qed
  finally have dv: "2 ^ Suc n dvd (j - i) * (j + i + 1)" .
  have "2 ^ Suc n dvd j - i \<or> 2 ^ Suc n dvd j + i + 1"
  proof (cases "odd (j + i + 1)")
    case True
    with dv show ?thesis using pow2_dvd_odd_cancel by blast
  next
    case False
    then have "odd (j - i)" using assms(1) by (simp; presburger)
    with dv show ?thesis using pow2_dvd_odd_cancel by (metis mult.commute)
  qed
  moreover have "0 < j - i" "j - i < 2 ^ Suc n" "j + i + 1 < 2 ^ Suc n"
    using assms by auto
  ultimately show False
    by (metis add_gr_0 dvd_imp_le linorder_not_le zero_less_one)
qed

lemma mod_add_lcancel:
  assumes "(b + x) mod m = (b + y) mod (m :: nat)"
  shows "x mod m = y mod m"
proof -
  have "int (b + x) mod int m = int (b + y) mod int m"
    using assms by (metis of_nat_mod)
  then have "(int (b + x) - int b) mod int m = (int (b + y) - int b) mod int m"
    by (rule mod_diff_cong) simp
  then show ?thesis by (simp flip: of_nat_mod)
qed

lemma tri_cover:
  assumes "k < 2 ^ n"
  shows "\<exists>s < 2 ^ n. (b + tri s) mod 2 ^ n = k"
proof -
  let ?f = "\<lambda>s. (b + tri s) mod 2 ^ n"
  have "inj_on ?f {..<2 ^ n}"
  proof (rule inj_onI)
    fix x y assume xy: "x \<in> {..<2 ^ n}" "y \<in> {..<2 ^ n}" "?f x = ?f y"
    then have "tri x mod 2 ^ n = tri y mod 2 ^ n"
      by (auto intro: mod_add_lcancel)
    then show "x = y"
      using tri_inj_mod xy(1,2) by (metis lessThan_iff linorder_neqE_nat)
  qed
  moreover have "?f ` {..<2 ^ n} \<subseteq> {..<2 ^ n}" by auto
  ultimately have "?f ` {..<2 ^ n} = {..<2 ^ n}"
    by (metis card_image card_subset_eq finite_lessThan)
  with assms show ?thesis by (metis (no_types, lifting) imageE lessThan_iff)
qed

lemma sorted_wrt_total:
  "sorted_wrt P xs \<Longrightarrow> x \<in> set xs \<Longrightarrow> y \<in> set xs \<Longrightarrow> x \<noteq> y \<Longrightarrow> P x y \<or> P y x"
  by (induction xs) auto

end
