(* ===== verification/GHash.thy ===== *)
theory GHash
  imports Prelude
begin

text \<open>
  The open-addressing hash table of GLib
  (\<^verbatim>\<open>src/consolekit2_recursion_bug/ghash.c\<close>).

  \<^item> The record \<open>ghash\<close> is \<^verbatim>\<open>struct _GHashTable\<close>. The three arrays are lists; the
    source shares one array between keys and values as long as every value is its
    own key, which is \<open>ht_values = None\<close>.
  \<^item> The hash and equality functions are the user's and are fields of the record.
    A destroy notifier is present or absent; the calls made to it are returned, in
    order, as a list of \<open>notification\<close>s. Notifiers and visitor callbacks that
    themselves change the table they are called from are not modelled.
  \<^item> \<^verbatim>\<open>gint\<close> counters are \<^typ>\<open>int\<close>, table sizes and indices \<^typ>\<open>nat\<close>, and hash values
    are 32-bit words. An operation is \<^const>\<open>None\<close> if it does not return or runs into
    undefined behaviour (an access outside an array, a shift out of range).
\<close>

section \<open>State\<close>

datatype notification = Key_Destroy gpointer | Value_Destroy gpointer

record ghash =
  ht_size :: nat
  ht_mod :: nat
  ht_mask :: nat
  ht_nnodes :: int
  ht_noccupied :: int
  ht_keys :: "gpointer list"
  ht_hashes :: "guint list"
  ht_values :: "gpointer list option"
  ht_hash_func :: "gpointer \<Rightarrow> guint"
  ht_key_equal_func :: "(gpointer \<Rightarrow> gpointer \<Rightarrow> bool) option"
  ht_ref_count :: int
  ht_version :: int
  ht_key_destroy_func :: bool
  ht_value_destroy_func :: bool

abbreviation (input) HASH_TABLE_MIN_SHIFT :: nat where
  "HASH_TABLE_MIN_SHIFT \<equiv> 3"

definition UNUSED_HASH_VALUE :: guint where
  "UNUSED_HASH_VALUE = 0"

definition TOMBSTONE_HASH_VALUE :: guint where
  "TOMBSTONE_HASH_VALUE = 1"

definition HASH_IS_UNUSED :: "guint \<Rightarrow> bool" where
  "HASH_IS_UNUSED h \<longleftrightarrow> h = UNUSED_HASH_VALUE"

definition HASH_IS_TOMBSTONE :: "guint \<Rightarrow> bool" where
  "HASH_IS_TOMBSTONE h \<longleftrightarrow> h = TOMBSTONE_HASH_VALUE"

definition HASH_IS_REAL :: "guint \<Rightarrow> bool" where
  "HASH_IS_REAL h \<longleftrightarrow> 2 \<le> h"

text \<open>The array that \<^verbatim>\<open>hash_table->values\<close> points to.\<close>

definition values_of :: "ghash \<Rightarrow> gpointer list" where
  "values_of t = (case ht_values t of None \<Rightarrow> ht_keys t | Some vs \<Rightarrow> vs)"

text \<open>A write through \<^verbatim>\<open>hash_table->values\<close>: it hits the key array when they are one.\<close>

definition set_value :: "ghash \<Rightarrow> nat \<Rightarrow> gpointer \<Rightarrow> ghash option" where
  "set_value t i v =
     (case ht_values t of
        None \<Rightarrow> do { ks \<leftarrow> arr_set (ht_keys t) i v; Some (t\<lparr>ht_keys := ks\<rparr>) }
      | Some vs \<Rightarrow> do { vs' \<leftarrow> arr_set vs i v; Some (t\<lparr>ht_values := Some vs'\<rparr>) })"

section \<open>Table sizes\<close>

definition prime_mod :: "nat list" where
  "prime_mod =
     [1, 2, 3, 7, 13, 31, 61, 127, 251, 509, 1021, 2039, 4093, 8191, 16381, 32749,
      65521, 131071, 262139, 524287, 1048573, 2097143, 4194301, 8388593, 16777213,
      33554393, 67108859, 134217689, 268435399, 536870909, 1073741789, 2147483647]"

text \<open>The loop that builds the mask, one bit per round.\<close>

fun mask_loop :: "nat \<Rightarrow> nat \<Rightarrow> nat" where
  "mask_loop 0 m = m"
| "mask_loop (Suc n) m = mask_loop n (u32 (push_bit 1 m) OR 1)"

text \<open>
  \<^verbatim>\<open>1 << shift\<close> is a value of type \<^verbatim>\<open>gint\<close>, so a shift of 31 or more is not defined.
\<close>

definition g_hash_table_set_shift :: "ghash \<Rightarrow> nat \<Rightarrow> ghash option" where
  "g_hash_table_set_shift t shift =
     (if shift < 31
      then Some (t\<lparr>ht_size := 2 ^ shift, ht_mod := prime_mod ! shift,
                   ht_mask := mask_loop shift 0\<rparr>)
      else None)"

text \<open>The shift of a negative number is arithmetic: the loop then never ends.\<close>

partial_function (option) closest_shift_loop :: "int \<Rightarrow> nat \<Rightarrow> nat option" where
  "closest_shift_loop n i =
     (if n \<noteq> 0 then closest_shift_loop (n div 2) (Suc i) else Some i)"

definition g_hash_table_find_closest_shift :: "int \<Rightarrow> nat option" where
  "g_hash_table_find_closest_shift n = closest_shift_loop n 0"

definition g_hash_table_set_shift_from_size :: "ghash \<Rightarrow> int \<Rightarrow> ghash option" where
  "g_hash_table_set_shift_from_size t n =
     do { shift \<leftarrow> g_hash_table_find_closest_shift n;
          g_hash_table_set_shift t (max shift HASH_TABLE_MIN_SHIFT) }"

section \<open>Lookup\<close>

definition key_matches :: "ghash \<Rightarrow> gpointer \<Rightarrow> gpointer \<Rightarrow> bool" where
  "key_matches t node_key key =
     (case ht_key_equal_func t of
        Some eq \<Rightarrow> eq node_key key
      | None \<Rightarrow> node_key = key)"

definition real_hash :: "guint \<Rightarrow> guint" where
  "real_hash h = (if HASH_IS_REAL h then h else 2)"

text \<open>One step of a probe: \<^verbatim>\<open>index += step; index &= mask\<close>.\<close>

definition advance :: "nat \<Rightarrow> nat \<Rightarrow> nat \<Rightarrow> nat" where
  "advance msk index step = u32 (index + step) AND msk"

partial_function (option) lookup_loop ::
  "ghash \<Rightarrow> gpointer \<Rightarrow> guint \<Rightarrow> nat \<Rightarrow> nat \<Rightarrow> nat option \<Rightarrow> nat option" where
  "lookup_loop t key hash_value node_index step first_tombstone =
     do {
       node_hash \<leftarrow> arr_get (ht_hashes t) node_index;
       if HASH_IS_UNUSED node_hash
       then Some (case first_tombstone of Some i \<Rightarrow> i | None \<Rightarrow> node_index)
       else if node_hash = hash_value then do {
         node_key \<leftarrow> arr_get (ht_keys t) node_index;
         if key_matches t node_key key then Some node_index
         else lookup_loop t key hash_value
                (advance (ht_mask t) node_index (u32 (Suc step))) (u32 (Suc step))
                first_tombstone
       }
       else lookup_loop t key hash_value
              (advance (ht_mask t) node_index (u32 (Suc step))) (u32 (Suc step))
              (if HASH_IS_TOMBSTONE node_hash \<and> first_tombstone = None
               then Some node_index else first_tombstone)
     }"

definition g_hash_table_lookup_node :: "ghash \<Rightarrow> gpointer \<Rightarrow> (nat \<times> guint) option" where
  "g_hash_table_lookup_node t key =
     (if ht_ref_count t > 0 then
        let hash_value = real_hash (ht_hash_func t key) in
        do { node_index \<leftarrow> lookup_loop t key hash_value
                             (unat hash_value mod ht_mod t) 0 None;
             Some (node_index, hash_value) }
      else None)"

section \<open>Removing nodes\<close>

definition notify_calls :: "ghash \<Rightarrow> gpointer \<Rightarrow> gpointer \<Rightarrow> notification list" where
  "notify_calls t key value =
     (if ht_key_destroy_func t then [Key_Destroy key] else []) @
     (if ht_value_destroy_func t then [Value_Destroy value] else [])"

definition g_hash_table_remove_node ::
  "ghash \<Rightarrow> nat \<Rightarrow> bool \<Rightarrow> (ghash \<times> notification list) option" where
  "g_hash_table_remove_node t i notify =
     do {
       key \<leftarrow> arr_get (ht_keys t) i;
       value \<leftarrow> arr_get (values_of t) i;
       hs \<leftarrow> arr_set (ht_hashes t) i TOMBSTONE_HASH_VALUE;
       ks \<leftarrow> arr_set (ht_keys t) i NULL;
       t' \<leftarrow> set_value (t\<lparr>ht_hashes := hs, ht_keys := ks\<rparr>) i NULL;
       Some (t'\<lparr>ht_nnodes := ht_nnodes t' - 1\<rparr>,
             if notify then notify_calls t key value else [])
     }"

text \<open>The calls made while the old storage is walked from slot 0 upwards.\<close>

definition walk_notify :: "ghash \<Rightarrow> notification list" where
  "walk_notify t =
     concat (map (\<lambda>i. if HASH_IS_REAL (ht_hashes t ! i)
                      then notify_calls t (ht_keys t ! i) (values_of t ! i) else [])
                 [0..<ht_size t])"

definition g_hash_table_remove_all_nodes ::
  "ghash \<Rightarrow> bool \<Rightarrow> bool \<Rightarrow> (ghash \<times> notification list) option" where
  "g_hash_table_remove_all_nodes t notify destruction =
     (if ht_nnodes t = 0 then Some (t, [])
      else
        let t1 = t\<lparr>ht_nnodes := 0, ht_noccupied := 0\<rparr> in
        if \<not> notify \<or> (\<not> ht_key_destroy_func t \<and> \<not> ht_value_destroy_func t)
        then
          if \<not> destruction
          then Some (t1\<lparr>ht_hashes := replicate (ht_size t) UNUSED_HASH_VALUE,
                        ht_keys := replicate (ht_size t) NULL,
                        ht_values := map_option (\<lambda>_. replicate (ht_size t) NULL)
                                       (ht_values t)\<rparr>, [])
          else Some (t1, [])
        else
          do {
            t2 \<leftarrow> g_hash_table_set_shift t1 HASH_TABLE_MIN_SHIFT;
            Some (if \<not> destruction
                  then t2\<lparr>ht_keys := replicate (ht_size t2) NULL, ht_values := None,
                          ht_hashes := replicate (ht_size t2) UNUSED_HASH_VALUE\<rparr>
                  else t2\<lparr>ht_keys := [], ht_values := None, ht_hashes := []\<rparr>,
                  walk_notify t)
          })"

section \<open>Resizing\<close>

partial_function (option) free_slot_loop ::
  "guint list \<Rightarrow> nat \<Rightarrow> nat \<Rightarrow> nat \<Rightarrow> nat option" where
  "free_slot_loop new_hashes msk hash_val step =
     do {
       h \<leftarrow> arr_get new_hashes hash_val;
       if HASH_IS_UNUSED h then Some hash_val
       else free_slot_loop new_hashes msk
              (advance msk hash_val (u32 (Suc step))) (u32 (Suc step))
     }"

text \<open>
  The copying loop over the old slots \<open>i, \<dots>, old_size - 1\<close>; \<open>n\<close> counts the
  slots still to be visited. The new arrays are passed along; the value array
  is absent while it is shared with the key array.
\<close>

fun resize_loop ::
  "ghash \<Rightarrow> nat \<Rightarrow> nat \<Rightarrow> guint list \<Rightarrow> gpointer list \<Rightarrow> gpointer list option
     \<Rightarrow> (guint list \<times> gpointer list \<times> gpointer list option) option" where
  "resize_loop t 0 i hs ks vs = Some (hs, ks, vs)"
| "resize_loop t (Suc n) i hs ks vs =
     do {
       node_hash \<leftarrow> arr_get (ht_hashes t) i;
       if \<not> HASH_IS_REAL node_hash then resize_loop t n (Suc i) hs ks vs
       else do {
         hash_val \<leftarrow> free_slot_loop hs (ht_mask t) (unat node_hash mod ht_mod t) 0;
         key \<leftarrow> arr_get (ht_keys t) i;
         value \<leftarrow> arr_get (values_of t) i;
         hs' \<leftarrow> arr_set hs hash_val node_hash;
         ks' \<leftarrow> arr_set ks hash_val key;
         case vs of
           None \<Rightarrow> do { ks'' \<leftarrow> arr_set ks' hash_val value;
                        resize_loop t n (Suc i) hs' ks'' None }
         | Some w \<Rightarrow> do { w' \<leftarrow> arr_set w hash_val value;
                          resize_loop t n (Suc i) hs' ks' (Some w') }
       }
     }"

definition g_hash_table_resize :: "ghash \<Rightarrow> ghash option" where
  "g_hash_table_resize t =
     do {
       t1 \<leftarrow> g_hash_table_set_shift_from_size t (ht_nnodes t * 2);
       (hs, ks, vs) \<leftarrow> resize_loop t1 (ht_size t) 0
                         (replicate (ht_size t1) UNUSED_HASH_VALUE)
                         (replicate (ht_size t1) NULL)
                         (map_option (\<lambda>_. replicate (ht_size t1) NULL) (ht_values t));
       Some (t1\<lparr>ht_keys := ks, ht_values := vs, ht_hashes := hs,
                ht_noccupied := ht_nnodes t1\<rparr>)
     }"

text \<open>\<^verbatim>\<open>noccupied / 16\<close> is the division of C; the count is never negative here.\<close>

definition g_hash_table_maybe_resize :: "ghash \<Rightarrow> ghash option" where
  "g_hash_table_maybe_resize t =
     (let noccupied = ht_noccupied t; size = int (ht_size t) in
      if (size > ht_nnodes t * 4 \<and> size > 2 ^ HASH_TABLE_MIN_SHIFT)
         \<or> size \<le> noccupied + noccupied div 16
      then g_hash_table_resize t else Some t)"


section \<open>Construction, references and destruction\<close>

definition g_direct_hash :: "gpointer \<Rightarrow> guint" where
  "g_direct_hash v = ucast v"

definition g_direct_equal :: "gpointer \<Rightarrow> gpointer \<Rightarrow> bool" where
  "g_direct_equal v1 v2 \<longleftrightarrow> v1 = v2"

text \<open>The fields that the constructor fills in do not depend on what \<^verbatim>\<open>g_slice_new\<close> left there.\<close>

definition g_hash_table_new_full ::
  "(gpointer \<Rightarrow> guint) option \<Rightarrow> (gpointer \<Rightarrow> gpointer \<Rightarrow> bool) option \<Rightarrow> bool \<Rightarrow> bool
     \<Rightarrow> ghash option" where
  "g_hash_table_new_full hash_func key_equal_func key_destroy_func value_destroy_func =
     do {
       t \<leftarrow> g_hash_table_set_shift
             \<lparr>ht_size = 0, ht_mod = 0, ht_mask = 0, ht_nnodes = 0, ht_noccupied = 0,
              ht_keys = [], ht_hashes = [], ht_values = None,
              ht_hash_func = (case hash_func of Some f \<Rightarrow> f | None \<Rightarrow> g_direct_hash),
              ht_key_equal_func = key_equal_func, ht_ref_count = 1, ht_version = 0,
              ht_key_destroy_func = key_destroy_func,
              ht_value_destroy_func = value_destroy_func\<rparr> HASH_TABLE_MIN_SHIFT;
       Some (t\<lparr>ht_keys := replicate (ht_size t) NULL, ht_values := None,
               ht_hashes := replicate (ht_size t) UNUSED_HASH_VALUE\<rparr>)
     }"

definition g_hash_table_new ::
  "(gpointer \<Rightarrow> guint) option \<Rightarrow> (gpointer \<Rightarrow> gpointer \<Rightarrow> bool) option \<Rightarrow> ghash option" where
  "g_hash_table_new hash_func key_equal_func =
     g_hash_table_new_full hash_func key_equal_func False False"

definition g_hash_table_ref :: "ghash \<Rightarrow> ghash" where
  "g_hash_table_ref t = t\<lparr>ht_ref_count := ht_ref_count t + 1\<rparr>"

text \<open>The table that is left, if any, and the notifications: freed tables are \<^const>\<open>None\<close>.\<close>

definition g_hash_table_unref :: "ghash \<Rightarrow> (ghash option \<times> notification list) option" where
  "g_hash_table_unref t =
     (let t1 = t\<lparr>ht_ref_count := ht_ref_count t - 1\<rparr> in
      if ht_ref_count t1 = 0
      then do { (t2, ev) \<leftarrow> g_hash_table_remove_all_nodes t1 True True; Some (None, ev) }
      else Some (Some t1, []))"

section \<open>Lookup and insertion\<close>

definition g_hash_table_lookup :: "ghash \<Rightarrow> gpointer \<Rightarrow> gpointer option" where
  "g_hash_table_lookup t key =
     do {
       (node_index, node_hash) \<leftarrow> g_hash_table_lookup_node t key;
       h \<leftarrow> arr_get (ht_hashes t) node_index;
       if HASH_IS_REAL h then arr_get (values_of t) node_index else Some NULL
     }"

text \<open>The inner option is the \<^verbatim>\<open>gboolean\<close> result with the two stored pointers.\<close>

definition g_hash_table_lookup_extended ::
  "ghash \<Rightarrow> gpointer \<Rightarrow> (gpointer \<times> gpointer) option option" where
  "g_hash_table_lookup_extended t lookup_key =
     do {
       (node_index, node_hash) \<leftarrow> g_hash_table_lookup_node t lookup_key;
       h \<leftarrow> arr_get (ht_hashes t) node_index;
       if \<not> HASH_IS_REAL h then Some None
       else do {
         orig_key \<leftarrow> arr_get (ht_keys t) node_index;
         value \<leftarrow> arr_get (values_of t) node_index;
         Some (Some (orig_key, value))
       }
     }"

definition g_hash_table_contains :: "ghash \<Rightarrow> gpointer \<Rightarrow> bool option" where
  "g_hash_table_contains t key =
     do {
       (node_index, node_hash) \<leftarrow> g_hash_table_lookup_node t key;
       h \<leftarrow> arr_get (ht_hashes t) node_index;
       Some (HASH_IS_REAL h)
     }"

text \<open>Step two of the insertion: \<^verbatim>\<open>g_memdup\<close> splits the shared array.\<close>

definition split_values :: "ghash \<Rightarrow> nat \<Rightarrow> gpointer \<Rightarrow> ghash" where
  "split_values t node_index new_value =
     (if ht_values t = None \<and> ht_keys t ! node_index \<noteq> new_value
      then t\<lparr>ht_values := Some (ht_keys t)\<rparr> else t)"

definition g_hash_table_insert_node ::
  "ghash \<Rightarrow> nat \<Rightarrow> guint \<Rightarrow> gpointer \<Rightarrow> gpointer \<Rightarrow> bool \<Rightarrow> bool
     \<Rightarrow> (bool \<times> ghash \<times> notification list) option" where
  "g_hash_table_insert_node t node_index key_hash new_key new_value keep_new_key reusing_key =
     do {
       old_hash \<leftarrow> arr_get (ht_hashes t) node_index;
       old_key \<leftarrow> arr_get (ht_keys t) node_index;
       value_to_free \<leftarrow> arr_get (values_of t) node_index;
       if HASH_IS_REAL old_hash then
         let t1 = (if keep_new_key then t\<lparr>ht_keys := (ht_keys t)[node_index := new_key]\<rparr>
                   else t);
             key_to_free = (if keep_new_key then old_key else new_key)
         in do {
           t2 \<leftarrow> set_value (split_values t1 node_index new_value) node_index new_value;
           Some (False, t2,
                 (if ht_key_destroy_func t \<and> \<not> reusing_key
                  then [Key_Destroy key_to_free] else []) @
                 (if ht_value_destroy_func t then [Value_Destroy value_to_free] else []))
         }
       else
         let t1 = t\<lparr>ht_hashes := (ht_hashes t)[node_index := key_hash],
                    ht_keys := (ht_keys t)[node_index := new_key]\<rparr>
         in do {
           t2 \<leftarrow> set_value (split_values t1 node_index new_value) node_index new_value;
           t3 \<leftarrow> (let t2' = t2\<lparr>ht_nnodes := ht_nnodes t2 + 1\<rparr> in
                  if HASH_IS_UNUSED old_hash
                  then g_hash_table_maybe_resize
                         (t2'\<lparr>ht_noccupied := ht_noccupied t2' + 1\<rparr>)
                  else Some t2');
           Some (True, t3\<lparr>ht_version := ht_version t3 + 1\<rparr>, [])
         }
     }"

definition g_hash_table_insert_internal ::
  "ghash \<Rightarrow> gpointer \<Rightarrow> gpointer \<Rightarrow> bool \<Rightarrow> (bool \<times> ghash \<times> notification list) option" where
  "g_hash_table_insert_internal t key value keep_new_key =
     do {
       (node_index, key_hash) \<leftarrow> g_hash_table_lookup_node t key;
       g_hash_table_insert_node t node_index key_hash key value keep_new_key False
     }"

definition g_hash_table_insert ::
  "ghash \<Rightarrow> gpointer \<Rightarrow> gpointer \<Rightarrow> (bool \<times> ghash \<times> notification list) option" where
  "g_hash_table_insert t key value = g_hash_table_insert_internal t key value False"

definition g_hash_table_replace ::
  "ghash \<Rightarrow> gpointer \<Rightarrow> gpointer \<Rightarrow> (bool \<times> ghash \<times> notification list) option" where
  "g_hash_table_replace t key value = g_hash_table_insert_internal t key value True"

definition g_hash_table_add ::
  "ghash \<Rightarrow> gpointer \<Rightarrow> (bool \<times> ghash \<times> notification list) option" where
  "g_hash_table_add t key = g_hash_table_insert_internal t key key True"

section \<open>Removal\<close>

definition g_hash_table_remove_internal ::
  "ghash \<Rightarrow> gpointer \<Rightarrow> bool \<Rightarrow> (bool \<times> ghash \<times> notification list) option" where
  "g_hash_table_remove_internal t key notify =
     do {
       (node_index, node_hash) \<leftarrow> g_hash_table_lookup_node t key;
       h \<leftarrow> arr_get (ht_hashes t) node_index;
       if \<not> HASH_IS_REAL h then Some (False, t, [])
       else do {
         (t1, ev) \<leftarrow> g_hash_table_remove_node t node_index notify;
         t2 \<leftarrow> g_hash_table_maybe_resize t1;
         Some (True, t2\<lparr>ht_version := ht_version t2 + 1\<rparr>, ev)
       }
     }"

definition g_hash_table_remove ::
  "ghash \<Rightarrow> gpointer \<Rightarrow> (bool \<times> ghash \<times> notification list) option" where
  "g_hash_table_remove t key = g_hash_table_remove_internal t key True"

definition g_hash_table_steal ::
  "ghash \<Rightarrow> gpointer \<Rightarrow> (bool \<times> ghash \<times> notification list) option" where
  "g_hash_table_steal t key = g_hash_table_remove_internal t key False"

definition bump_version_if_nonempty :: "ghash \<Rightarrow> ghash" where
  "bump_version_if_nonempty t =
     (if ht_nnodes t \<noteq> 0 then t\<lparr>ht_version := ht_version t + 1\<rparr> else t)"

definition g_hash_table_remove_all :: "ghash \<Rightarrow> (ghash \<times> notification list) option" where
  "g_hash_table_remove_all t =
     do {
       (t1, ev) \<leftarrow> g_hash_table_remove_all_nodes (bump_version_if_nonempty t) True False;
       t2 \<leftarrow> g_hash_table_maybe_resize t1;
       Some (t2, ev)
     }"

definition g_hash_table_steal_all :: "ghash \<Rightarrow> ghash option" where
  "g_hash_table_steal_all t =
     do {
       (t1, ev) \<leftarrow> g_hash_table_remove_all_nodes (bump_version_if_nonempty t) False False;
       g_hash_table_maybe_resize t1
     }"

definition g_hash_table_destroy :: "ghash \<Rightarrow> (ghash option \<times> notification list) option" where
  "g_hash_table_destroy t =
     do {
       (t1, ev1) \<leftarrow> g_hash_table_remove_all t;
       (r, ev2) \<leftarrow> g_hash_table_unref t1;
       Some (r, ev1 @ ev2)
     }"

end
