(* ===== verification/GHash_Props.thy ===== *)
theory GHash_Props
  imports GHash
begin

text \<open>
  Correctness of the hash table: the invariant, that every operation keeps it,
  that lookups end, and the refinement of an abstract finite map.
\<close>

section \<open>Slot states\<close>

lemmas hash_state_defs =
  HASH_IS_REAL_def HASH_IS_UNUSED_def HASH_IS_TOMBSTONE_def
  UNUSED_HASH_VALUE_def TOMBSTONE_HASH_VALUE_def

lemma real_iff_unat: "HASH_IS_REAL h \<longleftrightarrow> 2 \<le> unat h"
  by (simp add: HASH_IS_REAL_def word_le_nat_alt)

lemma unused_iff_unat: "HASH_IS_UNUSED h \<longleftrightarrow> unat h = 0"
  by (simp add: HASH_IS_UNUSED_def UNUSED_HASH_VALUE_def unat_eq_0)

lemma tombstone_iff_unat: "HASH_IS_TOMBSTONE h \<longleftrightarrow> unat h = 1"
  by (metis HASH_IS_TOMBSTONE_def TOMBSTONE_HASH_VALUE_def unat_1 word_unat_eq_iff)

lemmas state_unat = real_iff_unat unused_iff_unat tombstone_iff_unat

lemma hash_states [simp]:
  "\<not> HASH_IS_REAL UNUSED_HASH_VALUE"
  "\<not> HASH_IS_REAL TOMBSTONE_HASH_VALUE"
  "\<not> HASH_IS_UNUSED TOMBSTONE_HASH_VALUE"
  "HASH_IS_UNUSED UNUSED_HASH_VALUE"
  "HASH_IS_TOMBSTONE TOMBSTONE_HASH_VALUE"
  by (simp_all add: state_unat UNUSED_HASH_VALUE_def TOMBSTONE_HASH_VALUE_def)

lemma real_not_unused: "HASH_IS_REAL h \<Longrightarrow> \<not> HASH_IS_UNUSED h"
  by (simp add: state_unat)

lemma real_not_tombstone: "HASH_IS_REAL h \<Longrightarrow> \<not> HASH_IS_TOMBSTONE h"
  by (simp add: state_unat)

lemma not_real_cases: "\<not> HASH_IS_REAL h \<longleftrightarrow> HASH_IS_UNUSED h \<or> HASH_IS_TOMBSTONE h"
  by (auto simp: state_unat)

lemma real_hash_real [simp]: "HASH_IS_REAL (real_hash h)"
  by (simp add: real_hash_def HASH_IS_REAL_def)

section \<open>Sizes, masks and shifts\<close>

lemma mask_step: "k < 32 \<Longrightarrow> u32 (push_bit 1 (mask k)) OR 1 = mask (Suc k)"
proof -
  assume "k < 32"
  have "(2 :: nat) ^ Suc k \<le> 2 ^ 32"
    using \<open>k < 32\<close> by (intro power_increasing) auto
  then have "2 * mask k < (2 ^ 32 :: nat)"
    by (simp add: mask_eq_exp_minus_1)
  then show ?thesis
    by (simp add: push_bit_eq_mult mask_Suc_double or.commute mult.commute)
qed

lemma mask_loop_mask: "n + k \<le> 32 \<Longrightarrow> mask_loop n (mask k) = mask (n + k)"
proof (induction n arbitrary: k)
  case 0
  then show ?case by simp
next
  case (Suc n)
  then show ?case using mask_step [of k] by simp
qed

lemma mask_loop_0: "n \<le> 32 \<Longrightarrow> mask_loop n 0 = mask n"
  using mask_loop_mask [of n 0] by simp

lemma prime_mod_bound:
  assumes "s < 31"
  shows "0 < prime_mod ! s \<and> prime_mod ! s \<le> 2 ^ s"
proof -
  have "list_all (\<lambda>(s, p). 0 < p \<and> p \<le> 2 ^ s) (zip [0..<32] prime_mod)"
    by (simp add: prime_mod_def upt_rec)
  moreover have len: "length prime_mod = 32"
    by (simp add: prime_mod_def)
  ultimately have "\<forall>n < 32. case (n, prime_mod ! n) of (s, p) \<Rightarrow> 0 < p \<and> p \<le> 2 ^ s"
    by (simp add: list_all_length)
  then show ?thesis using assms by simp
qed

lemma closest_shift_loop_0 [simp]: "closest_shift_loop 0 i = Some i"
  by (subst closest_shift_loop.simps) simp

lemma closest_shift_loop_result:
  "n < 2 ^ k \<Longrightarrow>
   \<exists>s \<le> k. closest_shift_loop (int n) i = Some (i + s) \<and> n < 2 ^ s"
proof (induction k arbitrary: n i)
  case 0
  then show ?case by simp
next
  case (Suc k)
  show ?case
  proof (cases "n = 0")
    case True
    then show ?thesis by (intro exI [of _ 0]) simp
  next
    case False
    from Suc.prems have "n div 2 < 2 ^ k" by simp
    from Suc.IH [OF this, of "Suc i"] obtain s where
      s: "s \<le> k" "closest_shift_loop (int (n div 2)) (Suc i) = Some (Suc i + s)" "n div 2 < 2 ^ s"
      by blast
    then have "closest_shift_loop (int n) i = Some (i + Suc s)"
      using False by (subst closest_shift_loop.simps) (simp add: zdiv_int)
    moreover have "n < 2 ^ Suc s" using s(3) by simp
    ultimately show ?thesis using s(1) by (metis Suc_le_mono)
  qed
qed


lemma set_shift_Some:
  "s < 31 \<Longrightarrow>
   g_hash_table_set_shift t s =
     Some (t\<lparr>ht_size := 2 ^ s, ht_mod := prime_mod ! s, ht_mask := mask s\<rparr>)"
  by (simp add: g_hash_table_set_shift_def mask_loop_0)

lemma set_shift_from_size:
  assumes "n < 2 ^ 30"
  shows "\<exists>s. 3 \<le> s \<and> s < 31 \<and> n < 2 ^ s \<and>
     g_hash_table_set_shift_from_size t (int n) =
       Some (t\<lparr>ht_size := 2 ^ s, ht_mod := prime_mod ! s, ht_mask := mask s\<rparr>)"
proof -
  obtain s where s: "s \<le> 30" "closest_shift_loop (int n) 0 = Some s" "n < 2 ^ s"
    using closest_shift_loop_result [OF assms, of 0] by auto
  have "(2 :: nat) ^ s \<le> 2 ^ max s 3" by (intro power_increasing) auto
  with s(3) have "n < 2 ^ max s 3" by linarith
  with s show ?thesis
    by (intro exI [of _ "max s 3"])
      (simp add: g_hash_table_set_shift_from_size_def g_hash_table_find_closest_shift_def
         set_shift_Some)
qed

section \<open>The probe sequence\<close>

definition probe :: "nat \<Rightarrow> nat \<Rightarrow> guint \<Rightarrow> nat \<Rightarrow> nat" where
  "probe n md h s = (unat h mod md + tri s) mod 2 ^ n"

lemma probe_less [simp]: "probe n md h s < 2 ^ n"
  by (simp add: probe_def)

lemma probe_0: "0 < md \<Longrightarrow> md \<le> 2 ^ n \<Longrightarrow> probe n md h 0 = unat h mod md"
  by (simp add: probe_def) (metis mod_less mod_less_divisor order_less_le_trans)

lemma probe_Suc: "probe n md h (Suc s) = (probe n md h s + Suc s) mod 2 ^ n"
  by (simp only: probe_def tri.simps mod_add_left_eq add.assoc)

lemma probe_cover: "k < 2 ^ n \<Longrightarrow> \<exists>s < 2 ^ n. probe n md h s = k"
  using tri_cover by (simp add: probe_def)

text \<open>The index arithmetic of both probing loops is one step along the probe sequence.\<close>

lemma step_no_wrap:
  assumes "n < 31" "s < 2 ^ n"
  shows "u32 (Suc s) = Suc s"
proof -
  have "(2 :: nat) ^ n \<le> 2 ^ 31" using assms(1) by (intro power_increasing) auto
  with assms(2) show ?thesis by simp
qed

lemma advance_probe:
  assumes "n < 31" "s < 2 ^ n"
  shows "advance (mask n) (probe n md h s) (Suc s) = probe n md h (Suc s)"
  using u32_and_mask [of n "probe n md h s + Suc s"] assms
  by (simp add: advance_def probe_Suc mask_eq_exp_minus_1)

text \<open>The first unused slot of a probe sequence.\<close>

definition first_unused :: "nat \<Rightarrow> nat \<Rightarrow> guint list \<Rightarrow> guint \<Rightarrow> nat \<Rightarrow> bool" where
  "first_unused n md hs h s \<longleftrightarrow>
     s < 2 ^ n \<and> HASH_IS_UNUSED (hs ! probe n md h s) \<and>
     (\<forall>s' < s. \<not> HASH_IS_UNUSED (hs ! probe n md h s'))"

lemma first_unused_ex:
  assumes "length hs = 2 ^ n" "count_if (\<lambda>h. \<not> HASH_IS_UNUSED h) hs < 2 ^ n"
  shows "\<exists>s. first_unused n md hs h s"
proof -
  obtain i where "i < 2 ^ n" "HASH_IS_UNUSED (hs ! i)"
    using count_if_less_ex [of "\<lambda>h. \<not> HASH_IS_UNUSED h" hs] assms by auto
  then obtain s where s: "s < 2 ^ n" "HASH_IS_UNUSED (hs ! probe n md h s)"
    using probe_cover by metis
  let ?P = "\<lambda>s. HASH_IS_UNUSED (hs ! probe n md h s)"
  obtain m where m: "?P m" "\<forall>s' < m. \<not> ?P s'" "m \<le> s"
    using s(2) exists_least_iff [of ?P] by (metis linorder_not_le)
  with s(1) have "first_unused n md hs h m"
    unfolding first_unused_def by simp
  then show ?thesis ..
qed

lemma free_slot_loop_spec:
  assumes "length hs = 2 ^ n" "n < 31" "first_unused n md hs h s0" "s \<le> s0"
  shows "free_slot_loop hs (mask n) (probe n md h s) s = Some (probe n md h s0)"
  using assms(4)
proof (induction "s0 - s" arbitrary: s)
  case 0
  then have "s = s0" by simp
  with assms show ?case
    by (subst free_slot_loop.simps) (simp add: first_unused_def)
next
  case (Suc d)
  then have "s < s0" by simp
  with assms(3) have lt: "s < 2 ^ n" and used: "\<not> HASH_IS_UNUSED (hs ! probe n md h s)"
    by (auto simp: first_unused_def)
  have "free_slot_loop hs (mask n) (probe n md h (Suc s)) (Suc s) = Some (probe n md h s0)"
    using Suc by simp
  with assms(1) used show ?case
    by (subst free_slot_loop.simps) (simp add: advance_probe [OF assms(2) lt] step_no_wrap [OF assms(2) lt])
qed

section \<open>Well-formed slot arrays\<close>

text \<open>
  A real slot holds the hash of its key, and no unused slot precedes it on its
  probe sequence; two real slots never hold equal keys.
\<close>

definition on_probe :: "nat \<Rightarrow> nat \<Rightarrow> guint list \<Rightarrow> guint \<Rightarrow> nat \<Rightarrow> bool" where
  "on_probe n md hs h i \<longleftrightarrow>
     (\<exists>s. probe n md h s = i \<and> (\<forall>s' < s. \<not> HASH_IS_UNUSED (hs ! probe n md h s')))"

definition tbl_ok ::
  "(gpointer \<Rightarrow> guint) \<Rightarrow> (gpointer \<Rightarrow> gpointer \<Rightarrow> bool) \<Rightarrow> nat \<Rightarrow> nat
     \<Rightarrow> guint list \<Rightarrow> gpointer list \<Rightarrow> bool" where
  "tbl_ok hf eq n md hs ks \<longleftrightarrow>
     length hs = 2 ^ n \<and> length ks = 2 ^ n \<and>
     (\<forall>i < 2 ^ n. HASH_IS_REAL (hs ! i) \<longrightarrow>
        hs ! i = real_hash (hf (ks ! i)) \<and> on_probe n md hs (hs ! i) i) \<and>
     (\<forall>i < 2 ^ n. \<forall>j < 2 ^ n. HASH_IS_REAL (hs ! i) \<longrightarrow> HASH_IS_REAL (hs ! j) \<longrightarrow>
        eq (ks ! i) (ks ! j) \<longrightarrow> i = j)"

lemma tbl_okD:
  assumes "tbl_ok hf eq n md hs ks"
  shows "length hs = 2 ^ n" "length ks = 2 ^ n"
    and "i < 2 ^ n \<Longrightarrow> HASH_IS_REAL (hs ! i) \<Longrightarrow> hs ! i = real_hash (hf (ks ! i))"
    and "i < 2 ^ n \<Longrightarrow> HASH_IS_REAL (hs ! i) \<Longrightarrow> on_probe n md hs (hs ! i) i"
    and "i < 2 ^ n \<Longrightarrow> j < 2 ^ n \<Longrightarrow> HASH_IS_REAL (hs ! i) \<Longrightarrow> HASH_IS_REAL (hs ! j) \<Longrightarrow>
         eq (ks ! i) (ks ! j) \<Longrightarrow> i = j"
  using assms unfolding tbl_ok_def by blast+

lemma on_probe_mono:
  assumes "on_probe n md hs h i" "length hs = 2 ^ n"
    and "\<not> HASH_IS_UNUSED x"
  shows "on_probe n md (hs[j := x]) h i"
  using assms unfolding on_probe_def
  by (metis nth_list_update nth_list_update_neq list_update_beyond linorder_not_le)

lemma tbl_ok_empty: "tbl_ok hf eq n md (replicate (2 ^ n) UNUSED_HASH_VALUE) (replicate (2 ^ n) NULL)"
  by (simp add: tbl_ok_def)

text \<open>Filling a slot that is not in use: what insertion and resizing do.\<close>

lemma tbl_ok_insert:
  assumes ok: "tbl_ok hf eq n md hs ks"
    and i: "i < 2 ^ n" "\<not> HASH_IS_REAL (hs ! i)"
    and pr: "on_probe n md hs (real_hash (hf k)) i"
    and fresh: "\<forall>j < 2 ^ n. HASH_IS_REAL (hs ! j) \<longrightarrow> \<not> eq (ks ! j) k \<and> \<not> eq k (ks ! j)"
  shows "tbl_ok hf eq n md (hs[i := real_hash (hf k)]) (ks[i := k])"
proof -
  let ?hs = "hs[i := real_hash (hf k)]" and ?ks = "ks[i := k]"
  note len = tbl_okD(1,2) [OF ok]
  have nu: "\<not> HASH_IS_UNUSED (real_hash (hf k))" by (simp add: real_not_unused)
  have "?hs ! j = real_hash (hf (?ks ! j)) \<and> on_probe n md ?hs (?hs ! j) j"
    if "j < 2 ^ n" "HASH_IS_REAL (?hs ! j)" for j
  proof (cases "j = i")
    case True
    with i len pr nu show ?thesis by (simp add: on_probe_mono)
  next
    case False
    with that have "HASH_IS_REAL (hs ! j)" by simp
    with that False tbl_okD(3,4) [OF ok] len nu show ?thesis
      by (simp add: on_probe_mono)
  qed
  moreover have "j = l"
    if "j < 2 ^ n" "l < 2 ^ n" "HASH_IS_REAL (?hs ! j)" "HASH_IS_REAL (?hs ! l)"
       "eq (?ks ! j) (?ks ! l)" for j l
    using that i len fresh tbl_okD(5) [OF ok, of j l]
    by (cases "j = i"; cases "l = i") auto
  ultimately show ?thesis
    using len unfolding tbl_ok_def by auto
qed

lemma tbl_ok_remove:
  assumes ok: "tbl_ok hf eq n md hs ks" and i: "i < 2 ^ n"
  shows "tbl_ok hf eq n md (hs[i := TOMBSTONE_HASH_VALUE]) (ks[i := k])"
proof -
  let ?hs = "hs[i := TOMBSTONE_HASH_VALUE]"
  note len = tbl_okD(1,2) [OF ok]
  have real: "j \<noteq> i \<and> HASH_IS_REAL (hs ! j)" if "HASH_IS_REAL (?hs ! j)" for j
    using that i len by (metis hash_states(2) nth_list_update_eq nth_list_update_neq)
  have "?hs ! j = real_hash (hf (ks[i := k] ! j)) \<and> on_probe n md ?hs (?hs ! j) j"
    if "j < 2 ^ n" "HASH_IS_REAL (?hs ! j)" for j
    using that real [OF that(2)] tbl_okD(3,4) [OF ok] len
    by (simp add: on_probe_mono)
  moreover have "j = l"
    if "j < 2 ^ n" "l < 2 ^ n" "HASH_IS_REAL (?hs ! j)" "HASH_IS_REAL (?hs ! l)"
       "eq (ks[i := k] ! j) (ks[i := k] ! l)" for j l
    using that real tbl_okD(5) [OF ok, of j l] by (metis nth_list_update_neq)
  ultimately show ?thesis
    using len unfolding tbl_ok_def by auto
qed

section \<open>The lookup loop\<close>

lemma lookup_loop_spec:
  fixes t n h key
  defines "p \<equiv> probe n (ht_mod t) h"
  defines "hit \<equiv> \<lambda>i. ht_hashes t ! i = h \<and> key_matches t (ht_keys t ! i) key"
  assumes len: "length (ht_hashes t) = 2 ^ n" "length (ht_keys t) = 2 ^ n"
    and msk: "ht_mask t = mask n" and n: "n < 31"
    and fu: "first_unused n (ht_mod t) (ht_hashes t) h s0"
    and real: "HASH_IS_REAL h"
    and s: "s \<le> s0"
    and tomb: "\<And>i. tomb = Some i \<Longrightarrow> (\<exists>s' < s. p s' = i) \<and> HASH_IS_TOMBSTONE (ht_hashes t ! i)"
  shows "\<exists>r. lookup_loop t key h (p s) s tomb = Some r \<and>
     ((\<exists>s1. s \<le> s1 \<and> s1 < s0 \<and> r = p s1 \<and> hit r) \<or>
      (\<forall>s1. s \<le> s1 \<and> s1 < s0 \<longrightarrow> \<not> hit (p s1)) \<and> \<not> HASH_IS_REAL (ht_hashes t ! r) \<and>
      (\<exists>s1 \<le> s0. r = p s1))"
  using s tomb
proof (induction "s0 - s" arbitrary: s tomb)
  case 0
  then have "s = s0" by simp
  with fu have un: "HASH_IS_UNUSED (ht_hashes t ! p s)"
    by (simp add: first_unused_def p_def)
  have pl: "p s < 2 ^ n" by (simp add: p_def)
  have "lookup_loop t key h (p s) s tomb = Some (case tomb of Some i \<Rightarrow> i | None \<Rightarrow> p s)"
    using un pl len by (subst lookup_loop.simps) simp
  moreover have "\<not> HASH_IS_REAL (ht_hashes t ! (case tomb of Some i \<Rightarrow> i | None \<Rightarrow> p s))"
    using un 0(3) by (cases tomb) (auto simp: not_real_cases)
  moreover have "\<exists>s1 \<le> s0. (case tomb of Some i \<Rightarrow> i | None \<Rightarrow> p s) = p s1"
    using 0(3) \<open>s = s0\<close> by (cases tomb) (auto intro: less_imp_le)
  ultimately show ?case using \<open>s = s0\<close> by auto
next
  case (Suc d)
  then have less: "s < s0" by simp
  with fu have lt: "s < 2 ^ n" and used: "\<not> HASH_IS_UNUSED (ht_hashes t ! p s)"
    by (auto simp: first_unused_def p_def)
  have pl: "p s < 2 ^ n" by (simp add: p_def)
  show ?case
  proof (cases "hit (p s)")
    case True
    then have "lookup_loop t key h (p s) s tomb = Some (p s)"
      using used pl len by (subst lookup_loop.simps) (simp add: hit_def)
    with True less show ?thesis by auto
  next
    case False
    define tomb' where "tomb' =
      (if HASH_IS_TOMBSTONE (ht_hashes t ! p s) \<and> tomb = None then Some (p s) else tomb)"
    have tm: "\<And>i. tomb' = Some i \<Longrightarrow>
        (\<exists>s' < Suc s. p s' = i) \<and> HASH_IS_TOMBSTONE (ht_hashes t ! i)"
      using Suc.prems(2) unfolding tomb'_def by (auto split: if_splits intro: less_SucI)
    have step: "lookup_loop t key h (p s) s tomb = lookup_loop t key h (p (Suc s)) (Suc s) tomb'"
      using used pl len False real n lt
      by (subst lookup_loop.simps)
        (simp add: hit_def p_def tomb'_def advance_probe step_no_wrap msk real_not_tombstone)
    have d: "d = s0 - Suc s" using Suc.hyps(2) by simp
    from Suc.hyps(1) [OF d Suc_leI [OF less] tm]
    obtain r where r: "lookup_loop t key h (p (Suc s)) (Suc s) tomb' = Some r"
      "(\<exists>s1. Suc s \<le> s1 \<and> s1 < s0 \<and> r = p s1 \<and> hit r) \<or>
       (\<forall>s1. Suc s \<le> s1 \<and> s1 < s0 \<longrightarrow> \<not> hit (p s1)) \<and> \<not> HASH_IS_REAL (ht_hashes t ! r) \<and>
       (\<exists>s1 \<le> s0. r = p s1)"
      by blast
    have "(\<forall>s1. Suc s \<le> s1 \<and> s1 < s0 \<longrightarrow> \<not> hit (p s1)) \<Longrightarrow>
          (\<forall>s1. s \<le> s1 \<and> s1 < s0 \<longrightarrow> \<not> hit (p s1))"
      using False by (metis Suc_leI order_le_less)
    with r step show ?thesis by (metis Suc_leD)
  qed
qed

section \<open>The invariant of a table and its abstract map\<close>

definition ht_shape :: "ghash \<Rightarrow> nat \<Rightarrow> bool" where
  "ht_shape t n \<longleftrightarrow>
     3 \<le> n \<and> n < 31 \<and> ht_size t = 2 ^ n \<and> ht_mod t = prime_mod ! n \<and> ht_mask t = mask n \<and>
     tbl_ok (ht_hash_func t) (key_matches t) n (ht_mod t) (ht_hashes t) (ht_keys t) \<and>
     length (values_of t) = 2 ^ n \<and>
     ht_nnodes t = int (count_if HASH_IS_REAL (ht_hashes t)) \<and>
     ht_noccupied t = int (count_if (\<lambda>h. \<not> HASH_IS_UNUSED h) (ht_hashes t))"

definition ht_inv :: "ghash \<Rightarrow> bool" where
  "ht_inv t \<longleftrightarrow>
     (\<exists>n. ht_shape t n) \<and> ht_noccupied t < int (ht_size t) \<and>
     ht_nnodes t < 2 ^ 29 \<and> 0 < ht_ref_count t"

text \<open>
  What the table relies on in the functions it is given: equality of keys is an
  equivalence, and equal keys have equal hashes.
\<close>

definition key_funcs_ok :: "ghash \<Rightarrow> bool" where
  "key_funcs_ok t \<longleftrightarrow>
     equivp (key_matches t) \<and>
     (\<forall>a b. key_matches t a b \<longrightarrow> ht_hash_func t a = ht_hash_func t b)"

definition holds :: "ghash \<Rightarrow> gpointer \<Rightarrow> nat \<Rightarrow> bool" where
  "holds t k i \<longleftrightarrow>
     i < ht_size t \<and> HASH_IS_REAL (ht_hashes t ! i) \<and> key_matches t (ht_keys t ! i) k"

definition ht_slot :: "ghash \<Rightarrow> gpointer \<Rightarrow> nat option" where
  "ht_slot t k =
     find (\<lambda>i. HASH_IS_REAL (ht_hashes t ! i) \<and> key_matches t (ht_keys t ! i) k)
       [0..<ht_size t]"

text \<open>The map that a table stands for.\<close>

definition ht_map :: "ghash \<Rightarrow> gpointer \<Rightarrow> gpointer option" where
  "ht_map t k = map_option (\<lambda>i. values_of t ! i) (ht_slot t k)"

lemma ht_shapeD:
  assumes "ht_shape t n"
  shows "3 \<le> n" "n < 31" "ht_size t = 2 ^ n" "ht_mod t = prime_mod ! n" "ht_mask t = mask n"
    "tbl_ok (ht_hash_func t) (key_matches t) n (ht_mod t) (ht_hashes t) (ht_keys t)"
    "length (values_of t) = 2 ^ n" "length (ht_hashes t) = 2 ^ n" "length (ht_keys t) = 2 ^ n"
    "0 < ht_mod t" "ht_mod t \<le> 2 ^ n"
  using assms prime_mod_bound [of n] tbl_okD(1,2) unfolding ht_shape_def by (blast | simp)+

lemma key_funcs_okD:
  assumes "key_funcs_ok t"
  shows "key_matches t a a"
    and "key_matches t a b \<Longrightarrow> key_matches t b a"
    and "key_matches t a b \<Longrightarrow> key_matches t b c \<Longrightarrow> key_matches t a c"
    and "key_matches t a b \<Longrightarrow> ht_hash_func t a = ht_hash_func t b"
  using assms unfolding key_funcs_ok_def
  by (blast dest: equivp_reflp equivp_symp equivp_transp)+

lemma holds_unique:
  assumes "ht_shape t n" "key_funcs_ok t" "holds t k i" "holds t k j"
  shows "i = j"
proof -
  have "key_matches t (ht_keys t ! i) (ht_keys t ! j)"
    using assms(3,4) key_funcs_okD(2,3) [OF assms(2)] unfolding holds_def by blast
  with assms(3,4) show ?thesis
    using tbl_okD(5) [OF ht_shapeD(6) [OF assms(1)], of i j] ht_shapeD(3) [OF assms(1)]
    unfolding holds_def by simp
qed

lemma ht_slot_None_iff: "ht_slot t k = None \<longleftrightarrow> (\<forall>i. \<not> holds t k i)"
  by (auto simp: ht_slot_def find_None_iff holds_def)

lemma ht_slot_SomeD: "ht_slot t k = Some i \<Longrightarrow> holds t k i"
  by (auto simp: ht_slot_def find_Some_iff holds_def)

lemma ht_slot_holds:
  assumes "ht_shape t n" "key_funcs_ok t" "holds t k i"
  shows "ht_slot t k = Some i"
  using assms ht_slot_None_iff ht_slot_SomeD holds_unique by (metis option.exhaust)

lemma ht_map_holds:
  assumes "ht_shape t n" "key_funcs_ok t" "holds t k i"
  shows "ht_map t k = Some (values_of t ! i)"
  using ht_slot_holds [OF assms] by (simp add: ht_map_def)

lemma ht_map_None_iff: "ht_map t k = None \<longleftrightarrow> (\<forall>i. \<not> holds t k i)"
  by (simp add: ht_map_def ht_slot_None_iff)

lemma ht_map_SomeD: "ht_map t k = Some v \<Longrightarrow> \<exists>i. holds t k i \<and> values_of t ! i = v"
  by (auto simp: ht_map_def dest: ht_slot_SomeD)

section \<open>Lookup finds exactly what is stored\<close>

lemma lookup_node_spec:
  assumes sh: "ht_shape t n" and occ: "ht_noccupied t < int (ht_size t)"
    and kf: "key_funcs_ok t" and rc: "0 < ht_ref_count t"
  shows "\<exists>i. g_hash_table_lookup_node t key = Some (i, real_hash (ht_hash_func t key)) \<and>
     i < 2 ^ n \<and>
     (holds t key i \<or>
      \<not> HASH_IS_REAL (ht_hashes t ! i) \<and> (\<forall>j. \<not> holds t key j) \<and>
      on_probe n (ht_mod t) (ht_hashes t) (real_hash (ht_hash_func t key)) i)"
proof -
  let ?h = "real_hash (ht_hash_func t key)"
  let ?p = "probe n (ht_mod t) ?h"
  note d = ht_shapeD [OF sh]
  have "count_if (\<lambda>h. \<not> HASH_IS_UNUSED h) (ht_hashes t) < 2 ^ n"
    using occ d(3) sh by (simp add: ht_shape_def)
  then obtain s0 where fu: "first_unused n (ht_mod t) (ht_hashes t) ?h s0"
    using first_unused_ex d(8) by blast
  have p0: "?p 0 = unat ?h mod ht_mod t" using probe_0 d(10,11) by blast
  have "\<exists>r. lookup_loop t key ?h (?p 0) 0 None = Some r \<and>
     ((\<exists>s1. 0 \<le> s1 \<and> s1 < s0 \<and> r = ?p s1 \<and>
         (ht_hashes t ! r = ?h \<and> key_matches t (ht_keys t ! r) key)) \<or>
      (\<forall>s1. 0 \<le> s1 \<and> s1 < s0 \<longrightarrow>
         \<not> (ht_hashes t ! ?p s1 = ?h \<and> key_matches t (ht_keys t ! ?p s1) key)) \<and>
      \<not> HASH_IS_REAL (ht_hashes t ! r) \<and> (\<exists>s1 \<le> s0. r = ?p s1))"
    by (rule lookup_loop_spec [OF d(8,9,5,2) fu real_hash_real le0]) simp
  then obtain r where r: "lookup_loop t key ?h (?p 0) 0 None = Some r"
    and alt: "(\<exists>s1 < s0. r = ?p s1 \<and> ht_hashes t ! r = ?h \<and> key_matches t (ht_keys t ! r) key) \<or>
     (\<forall>s1 < s0. \<not> (ht_hashes t ! ?p s1 = ?h \<and> key_matches t (ht_keys t ! ?p s1) key)) \<and>
      \<not> HASH_IS_REAL (ht_hashes t ! r) \<and> (\<exists>s1 \<le> s0. r = ?p s1)"
    by blast
  have "g_hash_table_lookup_node t key = Some (r, ?h)"
    using r rc p0 by (simp add: g_hash_table_lookup_node_def Let_def)
  moreover have "r < 2 ^ n" using alt by auto
  moreover have "holds t key r \<or>
      \<not> HASH_IS_REAL (ht_hashes t ! r) \<and> (\<forall>j. \<not> holds t key j) \<and>
      on_probe n (ht_mod t) (ht_hashes t) ?h r"
    using alt
  proof
    assume "\<exists>s1 < s0. r = ?p s1 \<and> ht_hashes t ! r = ?h \<and> key_matches t (ht_keys t ! r) key"
    then show ?thesis using \<open>r < 2 ^ n\<close> d(3) by (auto simp: holds_def)
  next
    assume no: "(\<forall>s1 < s0. \<not> (ht_hashes t ! ?p s1 = ?h \<and> key_matches t (ht_keys t ! ?p s1) key)) \<and>
      \<not> HASH_IS_REAL (ht_hashes t ! r) \<and> (\<exists>s1 \<le> s0. r = ?p s1)"
    have "\<not> holds t key j" for j
    proof
      assume hj: "holds t key j"
      then have j: "j < 2 ^ n" "HASH_IS_REAL (ht_hashes t ! j)" "key_matches t (ht_keys t ! j) key"
        using d(3) by (auto simp: holds_def)
      then have hh: "ht_hashes t ! j = ?h"
        using tbl_okD(3) [OF d(6) j(1,2)] key_funcs_okD(4) [OF kf j(3)] by simp
      with tbl_okD(4) [OF d(6) j(1,2)] obtain s where
        s: "?p s = j" "\<forall>s' < s. \<not> HASH_IS_UNUSED (ht_hashes t ! ?p s')"
        unfolding on_probe_def by auto
      have "s < s0"
        using s j(2) fu real_not_unused unfolding first_unused_def
        by (metis linorder_neqE_nat)
      with no s(1) hh j(3) show False by blast
    qed
    moreover have "on_probe n (ht_mod t) (ht_hashes t) ?h r"
      using no fu unfolding on_probe_def first_unused_def by (metis order_less_le_trans)
    ultimately show ?thesis using no by blast
  qed
  ultimately show ?thesis by blast
qed

end
