(* ===== verification/GHash_Resize.thy ===== *)
theory GHash_Resize
  imports GHash_Props
begin

text \<open>
  Resizing: the copying loop ends, keeps every entry and leaves a well-formed
  table that is less than half full.
\<close>

section \<open>Entries\<close>

definition ht_entries :: "ghash \<Rightarrow> (gpointer \<times> gpointer) set" where
  "ht_entries t =
     {(ht_keys t ! i, values_of t ! i) | i. i < ht_size t \<and> HASH_IS_REAL (ht_hashes t ! i)}"

lemma ht_map_entries:
  assumes "ht_shape t n" "key_funcs_ok t"
  shows "ht_map t k = Some v \<longleftrightarrow> (\<exists>k'. (k', v) \<in> ht_entries t \<and> key_matches t k' k)"
proof
  assume "ht_map t k = Some v"
  then obtain i where "holds t k i" "values_of t ! i = v"
    by (blast dest: ht_map_SomeD)
  then have "(ht_keys t ! i, v) \<in> ht_entries t" "key_matches t (ht_keys t ! i) k"
    unfolding ht_entries_def holds_def by blast+
  then show "\<exists>k'. (k', v) \<in> ht_entries t \<and> key_matches t k' k" by blast
next
  assume "\<exists>k'. (k', v) \<in> ht_entries t \<and> key_matches t k' k"
  then obtain i where "holds t k i" "values_of t ! i = v"
    by (auto simp: ht_entries_def holds_def)
  then show "ht_map t k = Some v" using ht_map_holds [OF assms] by auto
qed

lemma ht_map_eqI:
  assumes "ht_shape t n" "key_funcs_ok t" "ht_shape t' n'" "key_funcs_ok t'"
    and "ht_entries t' = ht_entries t" "key_matches t' = key_matches t"
  shows "ht_map t' k = ht_map t k"
  using ht_map_entries [OF assms(1,2)] ht_map_entries [OF assms(3,4)] assms(5,6)
  by (metis option.exhaust)

text \<open>The part of a table that no operation on its contents changes.\<close>

definition same_config :: "ghash \<Rightarrow> ghash \<Rightarrow> bool" where
  "same_config t t' \<longleftrightarrow>
     ht_hash_func t' = ht_hash_func t \<and> ht_key_equal_func t' = ht_key_equal_func t \<and>
     ht_ref_count t' = ht_ref_count t \<and>
     ht_key_destroy_func t' = ht_key_destroy_func t \<and>
     ht_value_destroy_func t' = ht_value_destroy_func t"

lemma same_config_refl [simp]: "same_config t t"
  by (simp add: same_config_def)

lemma same_config_trans: "same_config a b \<Longrightarrow> same_config b c \<Longrightarrow> same_config a c"
  by (simp add: same_config_def)

lemma same_config_matches: "same_config t t' \<Longrightarrow> key_matches t' = key_matches t"
  by (simp add: same_config_def key_matches_def fun_eq_iff)

lemma same_config_key_funcs: "same_config t t' \<Longrightarrow> key_funcs_ok t \<Longrightarrow> key_funcs_ok t'"
  by (frule same_config_matches) (simp add: key_funcs_ok_def same_config_def)

section \<open>The copying loop\<close>

abbreviation eff_values :: "gpointer list \<Rightarrow> gpointer list option \<Rightarrow> gpointer list" where
  "eff_values ks vs \<equiv> (case vs of None \<Rightarrow> ks | Some w \<Rightarrow> w)"

text \<open>The new arrays hold exactly the real entries among the first \<open>i\<close> old slots.\<close>

definition copied ::
  "ghash \<Rightarrow> nat \<Rightarrow> nat \<Rightarrow> guint list \<Rightarrow> gpointer list \<Rightarrow> gpointer list option \<Rightarrow> bool" where
  "copied t N i hs ks vs \<longleftrightarrow>
     tbl_ok (ht_hash_func t) (key_matches t) N (ht_mod t) hs ks \<and>
     length (eff_values ks vs) = 2 ^ N \<and> (vs = None \<longleftrightarrow> ht_values t = None) \<and>
     (\<forall>j < 2 ^ N. \<not> HASH_IS_REAL (hs ! j) \<longrightarrow> HASH_IS_UNUSED (hs ! j)) \<and>
     count_if HASH_IS_REAL hs = count_if HASH_IS_REAL (take i (ht_hashes t)) \<and>
     {(ks ! j, eff_values ks vs ! j) | j. j < 2 ^ N \<and> HASH_IS_REAL (hs ! j)} =
     {(ht_keys t ! j, values_of t ! j) | j. j < i \<and> HASH_IS_REAL (ht_hashes t ! j)}"

lemma copiedD:
  assumes "copied t N i hs ks vs"
  shows "tbl_ok (ht_hash_func t) (key_matches t) N (ht_mod t) hs ks"
    "length (eff_values ks vs) = 2 ^ N" "vs = None \<longleftrightarrow> ht_values t = None"
    "length hs = 2 ^ N" "length ks = 2 ^ N"
proof -
  show ok: "tbl_ok (ht_hash_func t) (key_matches t) N (ht_mod t) hs ks"
    and "length (eff_values ks vs) = 2 ^ N" and "vs = None \<longleftrightarrow> ht_values t = None"
    using assms unfolding copied_def by simp_all
  show "length hs = 2 ^ N" "length ks = 2 ^ N" using tbl_okD(1,2) [OF ok] .
qed

lemma copied_occupied:
  assumes "copied t N i hs ks vs"
  shows "count_if (\<lambda>h. \<not> HASH_IS_UNUSED h) hs = count_if HASH_IS_REAL (take i (ht_hashes t))"
proof -
  have len: "length hs = 2 ^ N"
    and un: "\<forall>j < 2 ^ N. \<not> HASH_IS_REAL (hs ! j) \<longrightarrow> HASH_IS_UNUSED (hs ! j)"
    using assms unfolding copied_def tbl_ok_def by blast+
  have "\<forall>h \<in> set hs. (\<not> HASH_IS_UNUSED h) = HASH_IS_REAL h"
    using un real_not_unused len by (auto simp: in_set_conv_nth)
  then have "filter (\<lambda>h. \<not> HASH_IS_UNUSED h) hs = filter HASH_IS_REAL hs"
    by (intro filter_cong) auto
  with assms show ?thesis by (simp add: copied_def)
qed

lemma count_if_take_Suc:
  "i < length xs \<Longrightarrow>
   count_if P (take (Suc i) xs) = count_if P (take i xs) + (if P (xs ! i) then 1 else 0)"
  by (simp add: take_Suc_conv_app_nth)

lemma copied_skip:
  assumes "copied t N i hs ks vs" "i < length (ht_hashes t)" "\<not> HASH_IS_REAL (ht_hashes t ! i)"
  shows "copied t N (Suc i) hs ks vs"
proof -
  have "{(ht_keys t ! j, values_of t ! j) | j. j < Suc i \<and> HASH_IS_REAL (ht_hashes t ! j)} =
        {(ht_keys t ! j, values_of t ! j) | j. j < i \<and> HASH_IS_REAL (ht_hashes t ! j)}"
    using assms(3) less_Suc_eq by auto
  with assms show ?thesis by (simp add: copied_def count_if_take_Suc)
qed

lemma slot_set_insert:
  assumes "r < m" "m \<le> length hs" "length hs = length ks" "length hs = length ws"
    "\<not> P (hs ! r)" "P h"
  shows "{(ks[r := k] ! j, ws[r := w] ! j) | j. j < m \<and> P (hs[r := h] ! j)} =
         insert (k, w) {(ks ! j, ws ! j) | j. j < m \<and> P (hs ! j)}"
proof (intro equalityI subsetI)
  fix x assume "x \<in> {(ks[r := k] ! j, ws[r := w] ! j) | j. j < m \<and> P (hs[r := h] ! j)}"
  then obtain j where j: "x = (ks[r := k] ! j, ws[r := w] ! j)" "j < m" "P (hs[r := h] ! j)"
    by blast
  then show "x \<in> insert (k, w) {(ks ! j, ws ! j) | j. j < m \<and> P (hs ! j)}"
    using assms by (cases "j = r") auto
next
  fix x assume "x \<in> insert (k, w) {(ks ! j, ws ! j) | j. j < m \<and> P (hs ! j)}"
  then consider "x = (k, w)" | j where "x = (ks ! j, ws ! j)" "j < m" "P (hs ! j)" by blast
  then show "x \<in> {(ks[r := k] ! j, ws[r := w] ! j) | j. j < m \<and> P (hs[r := h] ! j)}"
  proof cases
    case 1
    with assms have "x = (ks[r := k] ! r, ws[r := w] ! r) \<and> r < m \<and> P (hs[r := h] ! r)" by simp
    then show ?thesis by blast
  next
    case 2
    then have "j \<noteq> r" using assms(5) by auto
    with 2 have "x = (ks[r := k] ! j, ws[r := w] ! j) \<and> j < m \<and> P (hs[r := h] ! j)" by simp
    then show ?thesis by blast
  qed
qed

lemma first_unused_on_probe: "first_unused n md hs h s \<Longrightarrow> on_probe n md hs h (probe n md h s)"
  by (auto simp: first_unused_def on_probe_def)

text \<open>One real slot is moved: it goes to the first unused slot on its probe sequence.\<close>

lemma copied_move:
  assumes cp: "copied t N i hs ks vs"
    and old: "tbl_ok (ht_hash_func t) (key_matches t) n md (ht_hashes t) (ht_keys t)"
    and lv: "length (values_of t) = 2 ^ n"
    and i: "i < 2 ^ n" "HASH_IS_REAL (ht_hashes t ! i)"
    and fu: "first_unused N (ht_mod t) hs (ht_hashes t ! i) s"
  defines "r \<equiv> probe N (ht_mod t) (ht_hashes t ! i) s"
  shows "copied t N (Suc i) (hs[r := ht_hashes t ! i]) (ks[r := ht_keys t ! i])
           (map_option (\<lambda>w. w[r := values_of t ! i]) vs)"
proof -
  let ?k = "ht_keys t ! i" and ?v = "values_of t ! i" and ?h = "ht_hashes t ! i"
  let ?vs = "map_option (\<lambda>w. w[r := ?v]) vs"
  have ok: "tbl_ok (ht_hash_func t) (key_matches t) N (ht_mod t) hs ks"
    and ev: "length (eff_values ks vs) = 2 ^ N" and sh: "vs = None \<longleftrightarrow> ht_values t = None"
    and un: "\<forall>j < 2 ^ N. \<not> HASH_IS_REAL (hs ! j) \<longrightarrow> HASH_IS_UNUSED (hs ! j)"
    and cnt: "count_if HASH_IS_REAL hs = count_if HASH_IS_REAL (take i (ht_hashes t))"
    and ent: "{(ks ! j, eff_values ks vs ! j) | j. j < 2 ^ N \<and> HASH_IS_REAL (hs ! j)} =
     {(ht_keys t ! j, values_of t ! j) | j. j < i \<and> HASH_IS_REAL (ht_hashes t ! j)}"
    using cp unfolding copied_def by blast+
  note len = tbl_okD(1,2) [OF ok] and olen = tbl_okD(1,2) [OF old]
  have r: "r < 2 ^ N" "\<not> HASH_IS_REAL (hs ! r)" "on_probe N (ht_mod t) hs ?h r"
    using fu first_unused_on_probe real_not_unused unfolding r_def first_unused_def
    by (auto simp: on_probe_def)
  have h: "?h = real_hash (ht_hash_func t ?k)" using tbl_okD(3) [OF old i] .
  have fresh: "\<not> key_matches t (ks ! j) ?k \<and> \<not> key_matches t ?k (ks ! j)"
    if "j < 2 ^ N" "HASH_IS_REAL (hs ! j)" for j
  proof -
    have "(ks ! j, eff_values ks vs ! j) \<in>
      {(ht_keys t ! j, values_of t ! j) | j. j < i \<and> HASH_IS_REAL (ht_hashes t ! j)}"
      using that ent by blast
    then obtain l where "ks ! j = ht_keys t ! l" "l < i" "HASH_IS_REAL (ht_hashes t ! l)" by blast
    with tbl_okD(5) [OF old, of l i] tbl_okD(5) [OF old, of i l] i show ?thesis by auto
  qed
  have eff: "eff_values (ks[r := ?k]) ?vs = (eff_values ks vs)[r := ?v]"
    using sh by (cases vs) (auto simp: values_of_def)
  have "{(ks[r := ?k] ! j, eff_values (ks[r := ?k]) ?vs ! j) | j.
          j < 2 ^ N \<and> HASH_IS_REAL (hs[r := ?h] ! j)} =
        insert (?k, ?v) {(ht_keys t ! j, values_of t ! j) | j. j < i \<and> HASH_IS_REAL (ht_hashes t ! j)}"
    unfolding eff ent [symmetric] using len ev r i(2) by (intro slot_set_insert) auto
  also have "\<dots> = {(ht_keys t ! j, values_of t ! j) | j. j < Suc i \<and> HASH_IS_REAL (ht_hashes t ! j)}"
    using i(2) less_Suc_eq by auto
  finally have ent': "{(ks[r := ?k] ! j, eff_values (ks[r := ?k]) ?vs ! j) | j.
          j < 2 ^ N \<and> HASH_IS_REAL (hs[r := ?h] ! j)} = \<dots>" .
  have "int (count_if HASH_IS_REAL (hs[r := ?h])) = int (count_if HASH_IS_REAL (take (Suc i) (ht_hashes t)))"
    using count_if_update [of r hs HASH_IS_REAL ?h] count_if_take_Suc [of i "ht_hashes t" HASH_IS_REAL]
      r len olen i cnt by simp
  then have cnt': "count_if HASH_IS_REAL (hs[r := ?h]) = count_if HASH_IS_REAL (take (Suc i) (ht_hashes t))"
    by (simp only: of_nat_eq_iff)
  have "tbl_ok (ht_hash_func t) (key_matches t) N (ht_mod t) (hs[r := ?h]) (ks[r := ?k])"
    unfolding h using r h fresh by (intro tbl_ok_insert [OF ok]) auto
  moreover have "\<forall>j < 2 ^ N. \<not> HASH_IS_REAL (hs[r := ?h] ! j) \<longrightarrow> HASH_IS_UNUSED (hs[r := ?h] ! j)"
    using un i(2) len r by (metis nth_list_update_eq nth_list_update_neq)
  moreover have "length (eff_values (ks[r := ?k]) ?vs) = 2 ^ N"
    unfolding eff using ev by simp
  moreover have "?vs = None \<longleftrightarrow> ht_values t = None" using sh by simp
  ultimately show ?thesis using ent' cnt' unfolding copied_def by blast
qed

lemma resize_loop_spec:
  assumes old: "tbl_ok (ht_hash_func t) (key_matches t) n md (ht_hashes t) (ht_keys t)"
    and lv: "length (values_of t) = 2 ^ n"
    and new: "ht_mask t = mask N" "N < 31" "0 < ht_mod t" "ht_mod t \<le> 2 ^ N"
    and room: "count_if HASH_IS_REAL (ht_hashes t) < 2 ^ N"
    and cp: "copied t N i hs ks vs" and im: "i + m = 2 ^ n"
  shows "\<exists>hs' ks' vs'. resize_loop t m i hs ks vs = Some (hs', ks', vs') \<and>
     copied t N (2 ^ n) hs' ks' vs'"
  using cp im
proof (induction m arbitrary: i hs ks vs)
  case 0
  then show ?case by simp
next
  case (Suc m)
  have i: "i < 2 ^ n" and im': "Suc i + m = 2 ^ n" using Suc.prems(2) by simp_all
  note olen = tbl_okD(1,2) [OF old]
  show ?case
  proof (cases "HASH_IS_REAL (ht_hashes t ! i)")
    case False
    then have cp': "copied t N (Suc i) hs ks vs"
      using copied_skip [OF Suc.prems(1)] i olen by simp
    have "resize_loop t (Suc m) i hs ks vs = resize_loop t m (Suc i) hs ks vs"
      using False i olen by simp
    with Suc.IH [OF cp'] im' show ?thesis by simp
  next
    case True
    let ?h = "ht_hashes t ! i"
    note ok = copiedD(4,5,2) [OF Suc.prems(1)] and share = copiedD(3) [OF Suc.prems(1)]
    have "count_if HASH_IS_REAL (take i (ht_hashes t)) \<le> count_if HASH_IS_REAL (ht_hashes t)"
      by (metis append_take_drop_id filter_append le_add1 length_append)
    then have "count_if (\<lambda>h. \<not> HASH_IS_UNUSED h) hs < 2 ^ N"
      using copied_occupied [OF Suc.prems(1)] room by simp
    then obtain s where fu: "first_unused N (ht_mod t) hs ?h s"
      using first_unused_ex ok(1) by blast
    define r where "r = probe N (ht_mod t) ?h s"
    have loop: "free_slot_loop hs (ht_mask t) (unat ?h mod ht_mod t) 0 = Some r"
      using free_slot_loop_spec [OF ok(1) new(2) fu le0] probe_0 [OF new(3,4), of ?h]
      by (simp add: r_def new(1))
    let ?hs = "hs[r := ?h]" and ?ks = "ks[r := ht_keys t ! i]"
    let ?vs = "map_option (\<lambda>w. w[r := values_of t ! i]) vs"
    have "copied t N (Suc i) ?hs ?ks ?vs"
      unfolding r_def using copied_move [OF Suc.prems(1) old lv i True fu] .
    from Suc.IH [OF this im'] obtain hs' ks' vs' where
      rec: "resize_loop t m (Suc i) ?hs ?ks ?vs = Some (hs', ks', vs')"
        "copied t N (2 ^ n) hs' ks' vs'"
      by blast
    have r: "r < 2 ^ N" by (simp add: r_def)
    have "resize_loop t (Suc m) i hs ks vs = resize_loop t m (Suc i) ?hs ?ks ?vs"
    proof (cases vs)
      case None
      with share have "values_of t ! i = ht_keys t ! i" by (simp add: values_of_def)
      with None True i olen lv loop ok r show ?thesis by simp
    next
      case (Some w)
      with True i olen lv loop ok r show ?thesis by simp
    qed
    with rec show ?thesis by auto
  qed
qed

lemma copied_empty:
  "copied t N 0 (replicate (2 ^ N) UNUSED_HASH_VALUE) (replicate (2 ^ N) NULL)
     (map_option (\<lambda>_. replicate (2 ^ N) NULL) (ht_values t))"
  by (simp add: copied_def tbl_ok_empty split: option.split)

section \<open>Resizing a table\<close>

lemma resize_spec:
  assumes sh: "ht_shape t n" and small: "ht_nnodes t < 2 ^ 29"
  shows "\<exists>t' N. g_hash_table_resize t = Some t' \<and> ht_shape t' N \<and>
     ht_noccupied t' = ht_nnodes t \<and> ht_nnodes t' = ht_nnodes t \<and>
     2 * ht_nnodes t < int (ht_size t') \<and>
     same_config t t' \<and> ht_version t' = ht_version t \<and>
     (ht_values t' = None \<longleftrightarrow> ht_values t = None) \<and> ht_entries t' = ht_entries t"
proof -
  note d = ht_shapeD [OF sh]
  define c where "c = count_if HASH_IS_REAL (ht_hashes t)"
  have c: "ht_nnodes t = int c" using sh by (simp add: ht_shape_def c_def)
  have "c * 2 < 2 ^ 30" using small c by simp
  then obtain N where N: "3 \<le> N" "N < 31" "c * 2 < 2 ^ N"
    and set: "g_hash_table_set_shift_from_size t (int (c * 2)) =
       Some (t\<lparr>ht_size := 2 ^ N, ht_mod := prime_mod ! N, ht_mask := mask N\<rparr>)"
    using set_shift_from_size by blast
  define t1 where "t1 = t\<lparr>ht_size := 2 ^ N, ht_mod := prime_mod ! N, ht_mask := mask N\<rparr>"
  have km: "key_matches t1 = key_matches t" by (simp add: t1_def key_matches_def fun_eq_iff)
  have vo: "values_of t1 = values_of t"
    by (cases "ht_values t") (simp_all add: t1_def values_of_def)
  have old: "tbl_ok (ht_hash_func t1) (key_matches t1) n (ht_mod t) (ht_hashes t1) (ht_keys t1)"
    using d(6) km by (simp add: t1_def)
  have pm: "0 < ht_mod t1" "ht_mod t1 \<le> 2 ^ N"
    using prime_mod_bound [OF N(2)] by (simp_all add: t1_def)
  have "\<exists>hs ks vs. resize_loop t1 (2 ^ n) 0 (replicate (2 ^ N) UNUSED_HASH_VALUE)
       (replicate (2 ^ N) NULL) (map_option (\<lambda>_. replicate (2 ^ N) NULL) (ht_values t1)) =
       Some (hs, ks, vs) \<and> copied t1 N (2 ^ n) hs ks vs"
  proof (rule resize_loop_spec [OF old _ _ N(2) pm _ copied_empty])
    show "length (values_of t1) = 2 ^ n" using d(7) vo by simp
    show "ht_mask t1 = mask N" by (simp add: t1_def)
    show "count_if HASH_IS_REAL (ht_hashes t1) < 2 ^ N" using N(3) by (simp add: t1_def c_def)
  qed simp
  then obtain hs ks vs where
    loop: "resize_loop t1 (2 ^ n) 0 (replicate (2 ^ N) UNUSED_HASH_VALUE)
       (replicate (2 ^ N) NULL) (map_option (\<lambda>_. replicate (2 ^ N) NULL) (ht_values t1)) =
       Some (hs, ks, vs)" and cp: "copied t1 N (2 ^ n) hs ks vs"
    by blast
  define t' where "t' = t1\<lparr>ht_keys := ks, ht_values := vs, ht_hashes := hs,
    ht_noccupied := ht_nnodes t1\<rparr>"
  have res: "g_hash_table_resize t = Some t'"
    using set loop d(3) c
    by (simp add: g_hash_table_resize_def t'_def t1_def [symmetric] mult.commute)
       (simp add: t1_def)
  have vals: "values_of t' = eff_values ks vs"
    by (cases vs) (simp_all add: t'_def values_of_def)
  have km': "key_matches t' = key_matches t1" by (simp add: t'_def key_matches_def fun_eq_iff)
  have cnt: "count_if HASH_IS_REAL hs = c"
    using cp d(8) by (simp add: copied_def c_def t1_def)
  have occ: "count_if (\<lambda>h. \<not> HASH_IS_UNUSED h) hs = c"
    using copied_occupied [OF cp] d(8) by (simp add: c_def t1_def)
  have ent: "ht_entries t' = ht_entries t"
    using cp vals vo d(3) unfolding copied_def ht_entries_def by (simp add: t'_def t1_def)
  have "ht_shape t' N"
    using cp N pm cnt occ c vals km' unfolding ht_shape_def copied_def
    by (simp add: t'_def t1_def)
  moreover have "same_config t t'" by (simp add: same_config_def t'_def t1_def)
  moreover have "ht_values t' = None \<longleftrightarrow> ht_values t = None"
    using cp by (simp add: copied_def t'_def t1_def)
  moreover have "2 * ht_nnodes t < int (ht_size t')"
  proof -
    have "int (c * 2) < int (2 ^ N)" using N(3) by (simp only: of_nat_less_iff)
    then show ?thesis by (simp add: t'_def t1_def c)
  qed
  ultimately show ?thesis using res ent
    by (intro exI [of _ t'] exI [of _ N]) (simp add: t'_def t1_def)
qed

end
