(* ===== verification/Interfaces.thy ===== *)
theory Interfaces
  imports Prelude
begin

text \<open>
  The interfaces that components of the development implement, as locales: the
  operations as parameters, the laws a provider promises as assumptions, and what
  clients may conclude from them. Each is interpreted on the definitions of the
  component that provides it.
\<close>

section \<open>Associative tables\<close>

datatype ('k, 'v) table_op = Put 'k 'v | Del 'k

text \<open>A sequence of operations on a table whose operations may fail.\<close>

fun run_table ::
  "('t \<Rightarrow> 'k \<Rightarrow> 'v \<Rightarrow> 't option) \<Rightarrow> ('t \<Rightarrow> 'k \<Rightarrow> 't option) \<Rightarrow> ('k, 'v) table_op list
     \<Rightarrow> 't \<Rightarrow> 't option" where
  "run_table ins del [] t = Some t"
| "run_table ins del (Put k v # ops) t =
     do { t' \<leftarrow> ins t k v; run_table ins del ops t' }"
| "run_table ins del (Del k # ops) t =
     do { t' \<leftarrow> del t k; run_table ins del ops t' }"

text \<open>The same sequence on the map that the table stands for.\<close>

fun run_map ::
  "('k \<Rightarrow> 'k \<Rightarrow> bool) \<Rightarrow> ('k, 'v) table_op list \<Rightarrow> ('k \<Rightarrow> 'v option) \<Rightarrow> ('k \<Rightarrow> 'v option)" where
  "run_map eqv [] m = m"
| "run_map eqv (Put k v # ops) m =
     run_map eqv ops (\<lambda>k'. if eqv k k' then Some v else m k')"
| "run_map eqv (Del k # ops) m =
     run_map eqv ops (\<lambda>k'. if eqv k k' then None else m k')"

locale assoc_table =
  fixes inv :: "'t \<Rightarrow> bool"
    and eqv :: "'t \<Rightarrow> 'k \<Rightarrow> 'k \<Rightarrow> bool"
    and look :: "'t \<Rightarrow> 'k \<Rightarrow> 'v option"
    and ins :: "'t \<Rightarrow> 'k \<Rightarrow> 'v \<Rightarrow> 't option"
    and del :: "'t \<Rightarrow> 'k \<Rightarrow> 't option"
    and load :: "'t \<Rightarrow> int"
    and cap :: int
  assumes ins_law: "inv t \<Longrightarrow> load t + 1 < cap \<Longrightarrow>
      \<exists>t'. ins t k v = Some t' \<and> inv t' \<and> eqv t' = eqv t \<and> load t' \<le> load t + 1 \<and>
           look t' = (\<lambda>k'. if eqv t k k' then Some v else look t k')"
    and del_law: "inv t \<Longrightarrow>
      \<exists>t'. del t k = Some t' \<and> inv t' \<and> eqv t' = eqv t \<and> load t' \<le> load t \<and>
           look t' = (\<lambda>k'. if eqv t k k' then None else look t k')"
begin

lemma run_refines:
  assumes "inv t" "load t + int (length ops) < cap"
  shows "\<exists>t'. run_table ins del ops t = Some t' \<and> inv t' \<and> eqv t' = eqv t \<and>
     look t' = run_map (eqv t) ops (look t)"
  using assms
proof (induction ops arbitrary: t)
  case Nil
  then show ?case by simp
next
  case (Cons op ops)
  show ?case
  proof (cases op)
    case (Put k v)
    have "load t + 1 < cap" using Cons.prems(2) by simp
    from ins_law [OF Cons.prems(1) this, of k v] obtain t1 where
      t1: "ins t k v = Some t1" "inv t1" "eqv t1 = eqv t" "load t1 \<le> load t + 1"
        "look t1 = (\<lambda>k'. if eqv t k k' then Some v else look t k')"
      by blast
    have "load t1 + int (length ops) < cap" using t1(4) Cons.prems(2) by simp
    from Cons.IH [OF t1(2) this] t1 Put show ?thesis by auto
  next
    case (Del k)
    from del_law [OF Cons.prems(1), of k] obtain t1 where
      t1: "del t k = Some t1" "inv t1" "eqv t1 = eqv t" "load t1 \<le> load t"
        "look t1 = (\<lambda>k'. if eqv t k k' then None else look t k')"
      by blast
    have "load t1 + int (length ops) < cap" using t1(4) Cons.prems(2) by simp
    from Cons.IH [OF t1(2) this] t1 Del show ?thesis by auto
  qed
qed

text \<open>A client that stores a value and reads it back, with other keys in between.\<close>

lemma put_then_read:
  assumes "inv t" "load t + int (length ops) + 1 < cap" "eqv t k k'"
    and "\<forall>op \<in> set ops. case op of Put j v \<Rightarrow> \<not> eqv t j k' | Del j \<Rightarrow> \<not> eqv t j k'"
  shows "\<exists>t'. run_table ins del (Put k v # ops) t = Some t' \<and> look t' k' = Some v"
proof -
  have keep: "run_map e os m k' = m k'"
    if "\<forall>op \<in> set os. case op of Put j v \<Rightarrow> \<not> e j k' | Del j \<Rightarrow> \<not> e j k'" for e os m
    using that by (induction e os m rule: run_map.induct) auto
  have "load t + int (length (Put k v # ops)) < cap" using assms(2) by simp
  from run_refines [OF assms(1) this] obtain t' where
    t': "run_table ins del (Put k v # ops) t = Some t'"
      "look t' = run_map (eqv t) (Put k v # ops) (look t)" by blast
  have "look t' k' = Some v" using keep [of ops "eqv t"] assms(3,4) by (simp add: t'(2))
  with t'(1) show ?thesis by blast
qed

end

section \<open>Range allocators\<close>

text \<open>
  Blocks are pairs of a first address and a size.  \<^verbatim>\<open>vacant span blocks a z\<close>: the \<^verbatim>\<open>z\<close> addresses
  from \<^verbatim>\<open>a\<close> lie in the managed range and meet no allocated block.
\<close>

definition vacant :: "nat \<times> nat \<Rightarrow> ('k \<rightharpoonup> nat \<times> nat) \<Rightarrow> nat \<Rightarrow> nat \<Rightarrow> bool" where
  "vacant span blocks a z = (fst span \<le> a \<and> a + z \<le> snd span \<and>
     (\<forall>x s w. blocks x = Some (s, w) \<longrightarrow> a + z \<le> s \<or> s + w \<le> a))"

definition blocks_apart :: "nat \<times> nat \<Rightarrow> ('k \<rightharpoonup> nat \<times> nat) \<Rightarrow> bool" where
  "blocks_apart span blocks = (\<forall>x s w. blocks x = Some (s, w) \<longrightarrow>
     vacant span (blocks(x := None)) s w)"

datatype ('k, 'r) range_op = Alloc 'k 'r | Release 'k

text \<open>
  A client run: a request for an owner that already has a block, or a release by one
  that has none, is not made.
\<close>

fun run_ranges :: "('s \<Rightarrow> 'k \<rightharpoonup> nat \<times> nat) \<Rightarrow> ('k \<Rightarrow> 'r \<Rightarrow> 's \<Rightarrow> (bool \<times> 's) option) \<Rightarrow>
    ('k \<Rightarrow> 's \<Rightarrow> 's option) \<Rightarrow> ('k, 'r) range_op list \<Rightarrow> 's \<Rightarrow> 's option" where
  "run_ranges blocks alloc release [] s = Some s"
| "run_ranges blocks alloc release (Alloc k r # ops) s =
     (if blocks s k \<noteq> None then run_ranges blocks alloc release ops s
      else do { (b, s') \<leftarrow> alloc k r s; run_ranges blocks alloc release ops s' })"
| "run_ranges blocks alloc release (Release k # ops) s =
     (if blocks s k = None then run_ranges blocks alloc release ops s
      else do { s' \<leftarrow> release k s; run_ranges blocks alloc release ops s' })"

text \<open>
  A heap hands out blocks that are apart; it may refuse any request.  A range allocator
  refuses only what does not fit.
\<close>

locale block_heap =
  fixes inv :: "'s \<Rightarrow> bool"
    and blocks :: "'s \<Rightarrow> 'k \<rightharpoonup> nat \<times> nat"
    and span :: "'s \<Rightarrow> nat \<times> nat"
    and idle :: "'s \<Rightarrow> 'k \<Rightarrow> bool"
    and valid :: "'r \<Rightarrow> bool"
    and place :: "'r \<Rightarrow> nat \<Rightarrow> nat \<Rightarrow> bool"
    and alloc :: "'k \<Rightarrow> 'r \<Rightarrow> 's \<Rightarrow> (bool \<times> 's) option"
    and release :: "'k \<Rightarrow> 's \<Rightarrow> 's option"
  assumes apart_law: "inv s \<Longrightarrow> blocks_apart (span s) (blocks s)"
    and alloc_law: "inv s \<Longrightarrow> idle s k \<Longrightarrow> valid r \<Longrightarrow>
      \<exists>b s'. alloc k r s = Some (b, s') \<and> inv s' \<and> span s' = span s \<and>
        (if b then \<exists>a z. place r a z \<and> vacant (span s) (blocks s) a z \<and>
                  blocks s' = (blocks s)(k \<mapsto> (a, z)) \<and> (\<forall>j. j \<noteq> k \<longrightarrow> idle s j \<longrightarrow> idle s' j)
         else s' = s)"
    and release_law: "inv s \<Longrightarrow> blocks s k \<noteq> None \<Longrightarrow>
      \<exists>s'. release k s = Some s' \<and> inv s' \<and> span s' = span s \<and>
        blocks s' = (blocks s)(k := None) \<and> idle s' k \<and> (\<forall>j. idle s j \<longrightarrow> idle s' j)"
begin

definition owners_ok :: "'k set \<Rightarrow> 's \<Rightarrow> bool" where
  "owners_ok K s = (\<forall>k\<in>K. blocks s k \<noteq> None \<or> idle s k)"

definition op_ok :: "'k set \<Rightarrow> ('k, 'r) range_op \<Rightarrow> bool" where
  "op_ok K op = (case op of Alloc k r \<Rightarrow> k \<in> K \<and> valid r | Release k \<Rightarrow> k \<in> K)"

lemma run_keeps:
  assumes "inv s" "owners_ok K s" "\<forall>op\<in>set ops. op_ok K op"
  shows "\<exists>s'. run_ranges blocks alloc release ops s = Some s' \<and> inv s' \<and> span s' = span s \<and>
     owners_ok K s'"
  using assms
proof (induction ops arbitrary: s)
  case (Cons op ops)
  have step: "\<exists>s1. run_ranges blocks alloc release (op # ops) s =
      run_ranges blocks alloc release ops s1 \<and> inv s1 \<and> span s1 = span s \<and> owners_ok K s1"
  proof (cases op)
    case (Alloc k r)
    then have kr: "k \<in> K" "valid r" using Cons.prems(3) by (simp_all add: op_ok_def)
    show ?thesis
    proof (cases "blocks s k")
      case None
      then have "idle s k" using kr Cons.prems(2) by (auto simp: owners_ok_def)
      from alloc_law [OF Cons.prems(1) this kr(2)] obtain b s1 where
        s1: "alloc k r s = Some (b, s1)" "inv s1" "span s1 = span s"
          "if b then \<exists>a z. place r a z \<and> vacant (span s) (blocks s) a z \<and>
                  blocks s1 = (blocks s)(k \<mapsto> (a, z)) \<and> (\<forall>j. j \<noteq> k \<longrightarrow> idle s j \<longrightarrow> idle s1 j)
           else s1 = s" by blast
      have "blocks s1 j \<noteq> None \<or> idle s1 j" if "blocks s j \<noteq> None \<or> idle s j" for j
        using s1(4) that by (cases b; cases "j = k") auto
      then have "owners_ok K s1" using Cons.prems(2) by (auto simp: owners_ok_def)
      with s1 None Alloc show ?thesis by auto
    qed (use Cons.prems Alloc in auto)
  next
    case (Release k)
    show ?thesis
    proof (cases "blocks s k = None")
      case False
      from release_law [OF Cons.prems(1) this] obtain s1 where
        s1: "release k s = Some s1" "inv s1" "span s1 = span s" "blocks s1 = (blocks s)(k := None)"
          "idle s1 k" "\<forall>j. idle s j \<longrightarrow> idle s1 j" by blast
      have "blocks s1 j \<noteq> None \<or> idle s1 j" if "blocks s j \<noteq> None \<or> idle s j" for j
        using s1(4-6) that by (cases "j = k") auto
      then have "owners_ok K s1" using Cons.prems(2) by (auto simp: owners_ok_def)
      with s1 False Release show ?thesis by auto
    qed (use Cons.prems Release in auto)
  qed
  then obtain s1 where s1: "run_ranges blocks alloc release (op # ops) s =
      run_ranges blocks alloc release ops s1" "inv s1" "span s1 = span s" "owners_ok K s1" by blast
  from Cons.IH [OF s1(2,4)] Cons.prems(3) s1 show ?case by auto
qed simp

lemma run_blocks_apart:
  assumes "inv s" "owners_ok K s" "\<forall>op\<in>set ops. op_ok K op"
  shows "\<exists>s'. run_ranges blocks alloc release ops s = Some s' \<and> blocks_apart (span s) (blocks s')"
  using run_keeps [OF assms] apart_law by metis

end

locale range_allocator = block_heap +
  assumes full_law: "inv s \<Longrightarrow> idle s k \<Longrightarrow> valid r \<Longrightarrow> alloc k r s = Some (False, s') \<Longrightarrow>
      place r a z \<Longrightarrow> \<not> vacant (span s) (blocks s) a z"
begin

text \<open>
  After any run the blocks are apart; and when every block has been released, every
  request that the whole range can hold is granted, whatever happened before.
\<close>

lemma run_apart:
  assumes "inv s" "owners_ok K s" "\<forall>op\<in>set ops. op_ok K op"
  shows "\<exists>s'. run_ranges blocks alloc release ops s = Some s' \<and>
     blocks_apart (span s) (blocks s') \<and>
     (blocks s' = Map.empty \<longrightarrow> (\<forall>k\<in>K. \<forall>r a z. valid r \<longrightarrow> place r a z \<longrightarrow>
        fst (span s) \<le> a \<longrightarrow> a + z \<le> snd (span s) \<longrightarrow> (\<exists>t. alloc k r s' = Some (True, t))))"
proof -
  from run_keeps [OF assms] obtain s' where
    s': "run_ranges blocks alloc release ops s = Some s'" "inv s'" "span s' = span s"
      "owners_ok K s'" by blast
  have "\<exists>t. alloc k r s' = Some (True, t)"
    if "blocks s' = Map.empty" "k \<in> K" "valid r" "place r a z" "fst (span s) \<le> a" "a + z \<le> snd (span s)"
    for k r a z
  proof -
    have "idle s' k" using s'(4) that(1,2) by (simp add: owners_ok_def)
    moreover have "vacant (span s') (blocks s') a z" using that s'(3) by (simp add: vacant_def)
    ultimately show ?thesis using alloc_law [OF s'(2) _ that(3), of k] full_law [OF s'(2) _ that(3) _ that(4)]
      by (metis (full_types))
  qed
  with s' apart_law [OF s'(2)] show ?thesis by auto
qed

end

end
