(* ===== verification/GHash_Ops.thy ===== *)
theory GHash_Ops
  imports GHash_Resize Interfaces
begin

text \<open>
  What lookup, insertion and removal do to the abstract map of a table, and the
  interface of an associative table that they implement.
\<close>

section \<open>Resizing when needed\<close>

lemma maybe_resize_spec:
  assumes sh: "ht_shape t n" and small: "ht_nnodes t < 2 ^ 29"
  shows "\<exists>t' N. g_hash_table_maybe_resize t = Some t' \<and> ht_shape t' N \<and>
     ht_noccupied t' < int (ht_size t') \<and> ht_nnodes t' = ht_nnodes t \<and>
     same_config t t' \<and> ht_version t' = ht_version t \<and>
     (ht_values t' = None \<longleftrightarrow> ht_values t = None) \<and> ht_entries t' = ht_entries t"
proof (cases "(int (ht_size t) > ht_nnodes t * 4 \<and> int (ht_size t) > 2 ^ 3)
    \<or> int (ht_size t) \<le> ht_noccupied t + ht_noccupied t div 16")
  case True
  then have "g_hash_table_maybe_resize t = g_hash_table_resize t"
    by (simp only: g_hash_table_maybe_resize_def Let_def if_True)
  moreover have "0 \<le> ht_nnodes t" using sh by (simp add: ht_shape_def)
  ultimately show ?thesis using resize_spec [OF sh small]
    by (metis (no_types, lifting) mult_2 add_increasing order_refl order_le_less_trans)
next
  case False
  then have "g_hash_table_maybe_resize t = Some t"
    by (simp only: g_hash_table_maybe_resize_def Let_def if_False)
  moreover have "0 \<le> ht_noccupied t" using sh by (simp add: ht_shape_def)
  then have "ht_noccupied t < int (ht_size t)" using False by linarith
  ultimately show ?thesis using sh by auto
qed

section \<open>Changing the version\<close>

lemma values_of_version [simp]: "values_of (t\<lparr>ht_version := x\<rparr>) = values_of t"
  by (cases "ht_values t") (simp_all add: values_of_def)

lemma key_matches_version [simp]: "key_matches (t\<lparr>ht_version := x\<rparr>) = key_matches t"
  by (simp add: key_matches_def fun_eq_iff)

lemma version_simps [simp]:
  "ht_shape (t\<lparr>ht_version := x\<rparr>) n = ht_shape t n"
  "ht_entries (t\<lparr>ht_version := x\<rparr>) = ht_entries t"
  "same_config s (t\<lparr>ht_version := x\<rparr>) = same_config s t"
  "same_config (t\<lparr>ht_version := x\<rparr>) s = same_config t s"
  "key_funcs_ok (t\<lparr>ht_version := x\<rparr>) = key_funcs_ok t"
  by (simp_all add: ht_shape_def ht_entries_def same_config_def key_funcs_ok_def)

section \<open>Changing one slot\<close>

lemma slot_set_rewrite:
  assumes "r < m" "m \<le> length ks" "m \<le> length ws" "P (hs ! r)"
  shows "{(ks[r := k] ! j, ws[r := w] ! j) | j. j < m \<and> P (hs ! j)} =
         insert (k, w) {(ks ! j, ws ! j) | j. j < m \<and> j \<noteq> r \<and> P (hs ! j)}"
proof (intro equalityI subsetI)
  fix x assume "x \<in> {(ks[r := k] ! j, ws[r := w] ! j) | j. j < m \<and> P (hs ! j)}"
  then obtain j where "x = (ks[r := k] ! j, ws[r := w] ! j)" "j < m" "P (hs ! j)" by blast
  then show "x \<in> insert (k, w) {(ks ! j, ws ! j) | j. j < m \<and> j \<noteq> r \<and> P (hs ! j)}"
    using assms by (cases "j = r") auto
next
  fix x assume "x \<in> insert (k, w) {(ks ! j, ws ! j) | j. j < m \<and> j \<noteq> r \<and> P (hs ! j)}"
  then consider "x = (k, w)" | j where "x = (ks ! j, ws ! j)" "j < m" "j \<noteq> r" "P (hs ! j)"
    by blast
  then show "x \<in> {(ks[r := k] ! j, ws[r := w] ! j) | j. j < m \<and> P (hs ! j)}"
  proof cases
    case 1
    with assms have "x = (ks[r := k] ! r, ws[r := w] ! r) \<and> r < m \<and> P (hs ! r)" by simp
    then show ?thesis by blast
  next
    case 2
    then have "x = (ks[r := k] ! j, ws[r := w] ! j) \<and> j < m \<and> P (hs ! j)" by simp
    then show ?thesis by blast
  qed
qed

lemma slot_set_delete:
  assumes "r < length hs" "\<not> P h"
  shows "{(ks[r := k] ! j, ws[r := w] ! j) | j. j < m \<and> P (hs[r := h] ! j)} =
         {(ks ! j, ws ! j) | j. j < m \<and> j \<noteq> r \<and> P (hs ! j)}"
  using assms by (metis (lifting) nth_list_update_eq nth_list_update_neq)

lemma entries_without:
  assumes "ht_shape t n" "key_funcs_ok t" "holds t k i"
  shows "{(ht_keys t ! j, values_of t ! j) | j. j < ht_size t \<and> j \<noteq> i \<and> HASH_IS_REAL (ht_hashes t ! j)} =
         {e \<in> ht_entries t. \<not> key_matches t (fst e) k}"
proof -
  have "j \<noteq> i \<longleftrightarrow> \<not> key_matches t (ht_keys t ! j) k"
    if "j < ht_size t" "HASH_IS_REAL (ht_hashes t ! j)" for j
    using that assms(3) holds_unique [OF assms, of j] unfolding holds_def by blast
  then show ?thesis unfolding ht_entries_def by (auto; blast)
qed

text \<open>How the map follows from the entries.\<close>

lemma ht_map_after_insert:
  assumes "ht_shape t n" "key_funcs_ok t" "ht_shape t' n'" "same_config t t'"
    and ent: "ht_entries t' = insert (kk, v) {e \<in> ht_entries t. \<not> key_matches t (fst e) k}"
    and kk: "key_matches t kk k"
  shows "ht_map t' k' = (if key_matches t k k' then Some v else ht_map t k')"
proof -
  note km = same_config_matches [OF assms(4)]
  note m' = ht_map_entries [OF assms(3) same_config_key_funcs [OF assms(4,2)], unfolded km]
  note m = ht_map_entries [OF assms(1,2)]
  note eqv = key_funcs_okD(1,2,3) [OF assms(2)]
  show ?thesis
  proof (cases "key_matches t k k'")
    case True
    then have "key_matches t kk k'" using kk eqv(3) by blast
    then show ?thesis using True m' [of k' v] ent by auto
  next
    case False
    then have nk: "\<not> key_matches t kk k'" using kk eqv(2,3) by blast
    have "ht_map t' k' = Some w \<longleftrightarrow> ht_map t k' = Some w" for w
    proof
      assume "ht_map t' k' = Some w"
      with m' [of k' w] ent nk show "ht_map t k' = Some w" using m [of k' w] by auto
    next
      assume "ht_map t k' = Some w"
      then obtain k0 where k0: "(k0, w) \<in> ht_entries t" "key_matches t k0 k'" using m by blast
      then have "\<not> key_matches t k0 k" using False eqv(2,3) by blast
      with k0 have "(k0, w) \<in> ht_entries t'" using ent by auto
      with k0(2) show "ht_map t' k' = Some w" using m' by blast
    qed
    then show ?thesis using False by (metis option.exhaust)
  qed
qed

lemma ht_map_after_remove:
  assumes "ht_shape t n" "key_funcs_ok t" "ht_shape t' n'" "same_config t t'"
    and ent: "ht_entries t' = {e \<in> ht_entries t. \<not> key_matches t (fst e) k}"
  shows "ht_map t' k' = (if key_matches t k k' then None else ht_map t k')"
proof -
  note km = same_config_matches [OF assms(4)]
  note m' = ht_map_entries [OF assms(3) same_config_key_funcs [OF assms(4,2)], unfolded km]
  note m = ht_map_entries [OF assms(1,2)]
  note eqv = key_funcs_okD(1,2,3) [OF assms(2)]
  have "ht_map t' k' = Some w \<longleftrightarrow> \<not> key_matches t k k' \<and> ht_map t k' = Some w" for w
  proof -
    have "(\<exists>k0. (k0, w) \<in> ht_entries t' \<and> key_matches t k0 k') \<longleftrightarrow>
          (\<exists>k0. (k0, w) \<in> ht_entries t \<and> \<not> key_matches t k0 k \<and> key_matches t k0 k')"
      using ent by auto
    also have "\<dots> \<longleftrightarrow> \<not> key_matches t k k' \<and> (\<exists>k0. (k0, w) \<in> ht_entries t \<and> key_matches t k0 k')"
      using eqv by blast
    finally show ?thesis by (simp only: m m')
  qed
  then show ?thesis by (metis option.exhaust)
qed

lemma tbl_ok_rekey:
  assumes ok: "tbl_ok hf eq n md hs ks" and i: "i < 2 ^ n" "HASH_IS_REAL (hs ! i)"
    and eqv: "equivp eq" and compat: "\<forall>a b. eq a b \<longrightarrow> hf a = hf b"
    and k: "eq (ks ! i) k"
  shows "tbl_ok hf eq n md hs (ks[i := k])"
proof -
  note len = tbl_okD(1,2) [OF ok]
  have same: "eq (ks ! j) (ks[i := k] ! j)" if "j < 2 ^ n" for j
    using that len k eqv by (cases "j = i") (auto dest: equivp_reflp)
  have "hs ! j = real_hash (hf (ks[i := k] ! j)) \<and> on_probe n md hs (hs ! j) j"
    if "j < 2 ^ n" "HASH_IS_REAL (hs ! j)" for j
  proof -
    have "hf (ks[i := k] ! j) = hf (ks ! j)" using same [OF that(1)] compat by metis
    then show ?thesis using tbl_okD(3,4) [OF ok that] by simp
  qed
  moreover have "j = l"
    if "j < 2 ^ n" "l < 2 ^ n" "HASH_IS_REAL (hs ! j)" "HASH_IS_REAL (hs ! l)"
       "eq (ks[i := k] ! j) (ks[i := k] ! l)" for j l
  proof -
    have "eq (ks ! j) (ks ! l)"
      using that(5) same [OF that(1)] same [OF that(2)] eqv
      by (meson equivp_symp equivp_transp)
    then show ?thesis using tbl_okD(5) [OF ok] that by blast
  qed
  ultimately show ?thesis using len unfolding tbl_ok_def by auto
qed

section \<open>The slot operations\<close>

lemma put_value_spec:
  assumes "i < length (ht_keys t)" "length (values_of t) = length (ht_keys t)"
  shows "\<exists>X. set_value (split_values t i v) i v = Some (t\<lparr>ht_values := X\<rparr>) \<and>
     values_of (t\<lparr>ht_values := X\<rparr>) = (values_of t)[i := v] \<and>
     (X = None \<longleftrightarrow> ht_values t = None \<and> ht_keys t ! i = v)"
proof (cases "ht_values t")
  case (Some vs)
  then show ?thesis using assms
    by (intro exI [of _ "Some (vs[i := v])"])
      (simp add: set_value_def split_values_def values_of_def)
next
  case None
  show ?thesis
  proof (cases "ht_keys t ! i = v")
    case True
    then have "(ht_keys t)[i := v] = ht_keys t" by (simp add: list_update_id flip: True)
    with None True assms show ?thesis
      by (intro exI [of _ None]) (simp add: set_value_def split_values_def values_of_def)
  next
    case False
    with None assms show ?thesis
      by (intro exI [of _ "Some ((ht_keys t)[i := v])"])
        (simp add: set_value_def split_values_def values_of_def)
  qed
qed

lemma remove_node_eq:
  assumes "i < length (ht_keys t)" "length (values_of t) = length (ht_keys t)"
    "length (ht_hashes t) = length (ht_keys t)"
  shows "g_hash_table_remove_node t i notify =
     Some (t\<lparr>ht_hashes := (ht_hashes t)[i := TOMBSTONE_HASH_VALUE],
             ht_keys := (ht_keys t)[i := NULL],
             ht_values := map_option (\<lambda>vs. vs[i := NULL]) (ht_values t),
             ht_nnodes := ht_nnodes t - 1\<rparr>,
           if notify then notify_calls t (ht_keys t ! i) (values_of t ! i) else [])"
  using assms
  by (cases "ht_values t")
    (simp_all add: g_hash_table_remove_node_def set_value_def values_of_def)

text \<open>Removing the slot that holds \<open>k\<close>.\<close>

lemma remove_node_spec:
  assumes sh: "ht_shape t n" and kf: "key_funcs_ok t" and h: "holds t k i"
  shows "\<exists>t'. g_hash_table_remove_node t i notify =
       Some (t', if notify then notify_calls t (ht_keys t ! i) (values_of t ! i) else []) \<and>
     ht_shape t' n \<and> ht_noccupied t' = ht_noccupied t \<and> ht_size t' = ht_size t \<and>
     ht_nnodes t' = ht_nnodes t - 1 \<and> same_config t t' \<and> ht_version t' = ht_version t \<and>
     (ht_values t' = None \<longleftrightarrow> ht_values t = None) \<and>
     (\<forall>j. j \<noteq> i \<longrightarrow> ht_hashes t' ! j = ht_hashes t ! j \<and> ht_keys t' ! j = ht_keys t ! j \<and>
        values_of t' ! j = values_of t ! j) \<and> \<not> HASH_IS_REAL (ht_hashes t' ! i) \<and>
     ht_entries t' = {e \<in> ht_entries t. \<not> key_matches t (fst e) k}"
proof -
  note d = ht_shapeD [OF sh]
  have i: "i < 2 ^ n" "HASH_IS_REAL (ht_hashes t ! i)" using h d(3) by (auto simp: holds_def)
  define t' where "t' = t\<lparr>ht_hashes := (ht_hashes t)[i := TOMBSTONE_HASH_VALUE],
             ht_keys := (ht_keys t)[i := NULL],
             ht_values := map_option (\<lambda>vs. vs[i := NULL]) (ht_values t),
             ht_nnodes := ht_nnodes t - 1\<rparr>"
  have rm: "g_hash_table_remove_node t i notify =
       Some (t', if notify then notify_calls t (ht_keys t ! i) (values_of t ! i) else [])"
    unfolding t'_def using d i by (intro remove_node_eq) simp_all
  have vo: "values_of t' = (values_of t)[i := NULL]"
    by (cases "ht_values t") (simp_all add: t'_def values_of_def)
  have km: "key_matches t' = key_matches t" by (simp add: t'_def key_matches_def fun_eq_iff)
  have c1: "int (count_if HASH_IS_REAL (ht_hashes t')) = int (count_if HASH_IS_REAL (ht_hashes t)) - 1"
    using i d(8) count_if_update [of i "ht_hashes t" HASH_IS_REAL TOMBSTONE_HASH_VALUE]
    by (simp add: t'_def)
  have c2: "int (count_if (\<lambda>h. \<not> HASH_IS_UNUSED h) (ht_hashes t')) =
            int (count_if (\<lambda>h. \<not> HASH_IS_UNUSED h) (ht_hashes t))"
    using i d(8) real_not_unused
      count_if_update [of i "ht_hashes t" "\<lambda>h. \<not> HASH_IS_UNUSED h" TOMBSTONE_HASH_VALUE]
    by (simp add: t'_def)
  have "ht_shape t' n"
    using sh km vo c1 c2 tbl_ok_remove [OF d(6) i(1)] unfolding ht_shape_def
    by (simp add: t'_def)
  moreover have "ht_entries t' = {e \<in> ht_entries t. \<not> key_matches t (fst e) k}"
    unfolding entries_without [OF sh kf h, symmetric]
    unfolding ht_entries_def vo using i d(8)
    by (simp add: t'_def slot_set_delete)
  moreover have "\<not> HASH_IS_REAL (ht_hashes t' ! i)" using i d(8) by (simp add: t'_def)
  moreover have "same_config t t'" by (simp add: same_config_def t'_def)
  ultimately show ?thesis using rm vo
    by (intro exI [of _ t']) (auto simp: t'_def)
qed

text \<open>Writing over the slot that holds an equal key: no node is added.\<close>

lemma insert_node_existing:
  assumes sh: "ht_shape t n" and kf: "key_funcs_ok t" and h: "holds t k i"
  shows "\<exists>t'. g_hash_table_insert_node t i kh k v keep reusing =
       Some (False, t',
         (if ht_key_destroy_func t \<and> \<not> reusing
          then [Key_Destroy (if keep then ht_keys t ! i else k)] else []) @
         (if ht_value_destroy_func t then [Value_Destroy (values_of t ! i)] else [])) \<and>
     ht_shape t' n \<and> ht_noccupied t' = ht_noccupied t \<and> ht_size t' = ht_size t \<and>
     ht_nnodes t' = ht_nnodes t \<and> same_config t t' \<and> ht_version t' = ht_version t \<and>
     (ht_values t' = None \<longleftrightarrow>
        ht_values t = None \<and> (if keep then k else ht_keys t ! i) = v) \<and>
     ht_entries t' = insert (if keep then k else ht_keys t ! i, v)
                       {e \<in> ht_entries t. \<not> key_matches t (fst e) k}"
proof -
  note d = ht_shapeD [OF sh]
  have i: "i < 2 ^ n" "HASH_IS_REAL (ht_hashes t ! i)" "key_matches t (ht_keys t ! i) k"
    using h d(3) by (auto simp: holds_def)
  let ?k = "if keep then k else ht_keys t ! i"
  have mk: "key_matches t (ht_keys t ! i) ?k" using i(3) key_funcs_okD(1) [OF kf] by simp
  define t1 where "t1 = t\<lparr>ht_keys := (ht_keys t)[i := ?k]\<rparr>"
  have t1: "(if keep then t\<lparr>ht_keys := (ht_keys t)[i := k]\<rparr> else t) = t1"
    by (simp add: t1_def)
  have v1: "length (values_of t1) = 2 ^ n" "(values_of t1)[i := v] = (values_of t)[i := v]"
    using d(7,9) by (cases "ht_values t"; simp add: t1_def values_of_def)+
  obtain X where X: "set_value (split_values t1 i v) i v = Some (t1\<lparr>ht_values := X\<rparr>)"
     "values_of (t1\<lparr>ht_values := X\<rparr>) = (values_of t)[i := v]"
     "X = None \<longleftrightarrow> ht_values t = None \<and> ?k = v"
    using put_value_spec [of i t1 v] i(1) d(9) v1 by (auto simp: t1_def)
  define t' where "t' = t1\<lparr>ht_values := X\<rparr>"
  have res: "g_hash_table_insert_node t i kh k v keep reusing =
       Some (False, t',
         (if ht_key_destroy_func t \<and> \<not> reusing
          then [Key_Destroy (if keep then ht_keys t ! i else k)] else []) @
         (if ht_value_destroy_func t then [Value_Destroy (values_of t ! i)] else []))"
    using i d t1 X(1) unfolding g_hash_table_insert_node_def Let_def
    by (simp only: arr_get_in bind.simps(2) if_True) (simp add: t'_def)
  have km: "key_matches t' = key_matches t"
    by (simp add: t'_def t1_def key_matches_def fun_eq_iff)
  have "tbl_ok (ht_hash_func t) (key_matches t) n (ht_mod t) (ht_hashes t) ((ht_keys t)[i := ?k])"
    using kf mk by (intro tbl_ok_rekey [OF d(6) i(1,2)]) (auto simp: key_funcs_ok_def)
  then have "ht_shape t' n"
    using sh km X(2) unfolding ht_shape_def t'_def [symmetric]
    by (simp add: t'_def t1_def)
  moreover have "ht_entries t' = insert (?k, v) {e \<in> ht_entries t. \<not> key_matches t (fst e) k}"
    unfolding entries_without [OF sh kf h, symmetric]
    unfolding ht_entries_def X(2) [folded t'_def]
    using i d by (simp add: t'_def t1_def slot_set_rewrite)
  moreover have "same_config t t'" by (simp add: same_config_def t'_def t1_def)
  ultimately show ?thesis using res X(3)
    by (intro exI [of _ t']) (simp add: t'_def t1_def)
qed

text \<open>Filling a free slot: a node is added, and the table grows when it has to.\<close>

lemma insert_node_new:
  assumes sh: "ht_shape t n" and occ: "ht_noccupied t < int (ht_size t)"
    and room: "ht_nnodes t + 1 < 2 ^ 29"
    and kf: "key_funcs_ok t"
    and i: "i < 2 ^ n" "\<not> HASH_IS_REAL (ht_hashes t ! i)"
    and none: "\<forall>j. \<not> holds t k j"
    and pr: "on_probe n (ht_mod t) (ht_hashes t) (real_hash (ht_hash_func t k)) i"
  shows "\<exists>t' N. g_hash_table_insert_node t i (real_hash (ht_hash_func t k)) k v keep reusing =
       Some (True, t', []) \<and>
     ht_shape t' N \<and> ht_noccupied t' < int (ht_size t') \<and>
     ht_nnodes t' = ht_nnodes t + 1 \<and> same_config t t' \<and> ht_version t' = ht_version t + 1 \<and>
     (ht_values t' = None \<longleftrightarrow> ht_values t = None \<and> k = v) \<and>
     ht_entries t' = insert (k, v) {e \<in> ht_entries t. \<not> key_matches t (fst e) k}"
proof -
  note d = ht_shapeD [OF sh]
  let ?h = "real_hash (ht_hash_func t k)"
  define t1 where "t1 = t\<lparr>ht_hashes := (ht_hashes t)[i := ?h], ht_keys := (ht_keys t)[i := k]\<rparr>"
  have v1: "length (values_of t1) = 2 ^ n" "(values_of t1)[i := v] = (values_of t)[i := v]"
    using d(7,9) by (cases "ht_values t"; simp add: t1_def values_of_def)+
  obtain X where X: "set_value (split_values t1 i v) i v = Some (t1\<lparr>ht_values := X\<rparr>)"
     "values_of (t1\<lparr>ht_values := X\<rparr>) = (values_of t)[i := v]"
     "X = None \<longleftrightarrow> ht_values t = None \<and> k = v"
    using put_value_spec [of i t1 v] i(1) d(9) v1 by (auto simp: t1_def)
  define t2 where "t2 = t1\<lparr>ht_values := X, ht_nnodes := ht_nnodes t + 1,
    ht_noccupied := ht_noccupied t + (if HASH_IS_UNUSED (ht_hashes t ! i) then 1 else 0)\<rparr>"
  have vo: "values_of t2 = (values_of t)[i := v]"
    using X(2) by (cases X) (simp_all add: t2_def values_of_def)
  have km: "key_matches t2 = key_matches t"
    by (simp add: t2_def t1_def key_matches_def fun_eq_iff)
  have c1: "int (count_if HASH_IS_REAL (ht_hashes t2)) = int (count_if HASH_IS_REAL (ht_hashes t)) + 1"
    using i d(8) count_if_update [of i "ht_hashes t" HASH_IS_REAL ?h]
    by (simp add: t2_def t1_def)
  have c2: "int (count_if (\<lambda>h. \<not> HASH_IS_UNUSED h) (ht_hashes t2)) =
            int (count_if (\<lambda>h. \<not> HASH_IS_UNUSED h) (ht_hashes t)) +
            (if HASH_IS_UNUSED (ht_hashes t ! i) then 1 else 0)"
    using i d(8) real_not_unused [of ?h]
      count_if_update [of i "ht_hashes t" "\<lambda>h. \<not> HASH_IS_UNUSED h" ?h]
    by (simp add: t2_def t1_def)
  have fresh: "\<not> key_matches t (ht_keys t ! j) k \<and> \<not> key_matches t k (ht_keys t ! j)"
    if "j < 2 ^ n" "HASH_IS_REAL (ht_hashes t ! j)" for j
    using that none key_funcs_okD(2) [OF kf] d(3) unfolding holds_def by auto
  have sh2: "ht_shape t2 n"
    using sh km vo c1 c2 tbl_ok_insert [OF d(6) i pr] fresh unfolding ht_shape_def
    by (simp add: t2_def t1_def)
  have cfg: "same_config t t2" by (simp add: same_config_def t2_def t1_def)
  have "{e \<in> ht_entries t. \<not> key_matches t (fst e) k} = ht_entries t"
    using none unfolding ht_entries_def holds_def by auto
  then have ent: "ht_entries t2 = insert (k, v) {e \<in> ht_entries t. \<not> key_matches t (fst e) k}"
    unfolding ht_entries_def vo using i d by (simp add: t2_def t1_def slot_set_insert)
  have small: "ht_nnodes t2 < 2 ^ 29" using room by (simp add: t2_def)
  obtain t3 N where t3: "(if HASH_IS_UNUSED (ht_hashes t ! i)
      then g_hash_table_maybe_resize t2 else Some t2) = Some t3"
    "ht_shape t3 N" "ht_noccupied t3 < int (ht_size t3)" "ht_nnodes t3 = ht_nnodes t2"
    "same_config t2 t3" "ht_version t3 = ht_version t2"
    "ht_values t3 = None \<longleftrightarrow> ht_values t2 = None" "ht_entries t3 = ht_entries t2"
  proof (cases "HASH_IS_UNUSED (ht_hashes t ! i)")
    case True
    then show thesis using maybe_resize_spec [OF sh2 small] that by auto
  next
    case False
    then show thesis using sh2 occ that [of t2 n] by (simp add: t2_def t1_def)
  qed
  define t' where "t' = t3\<lparr>ht_version := ht_version t3 + 1\<rparr>"
  have book: "(let u = t1\<lparr>ht_values := X\<rparr>; t2' = u\<lparr>ht_nnodes := ht_nnodes u + 1\<rparr> in
      if HASH_IS_UNUSED (ht_hashes t ! i)
      then g_hash_table_maybe_resize (t2'\<lparr>ht_noccupied := ht_noccupied t2' + 1\<rparr>)
      else Some t2') = Some t3"
    using t3(1) by (cases "HASH_IS_UNUSED (ht_hashes t ! i)") (simp_all add: Let_def t2_def t1_def)
  have res: "g_hash_table_insert_node t i ?h k v keep reusing = Some (True, t', [])"
    using i d(7,8,9) X(1) book
    unfolding g_hash_table_insert_node_def t1_def [symmetric] Let_def
    by (simp add: t'_def)
  have "same_config t t3" using same_config_trans [OF cfg t3(5)] .
  then show ?thesis using res t3 ent X(3)
    by (intro exI [of _ t'] exI [of _ N]) (simp add: t'_def t2_def t1_def)
qed

section \<open>The operations on the abstract map\<close>

text \<open>The stored pair that an equal key finds.\<close>

definition ht_entry :: "ghash \<Rightarrow> gpointer \<Rightarrow> (gpointer \<times> gpointer) option" where
  "ht_entry t k = map_option (\<lambda>i. (ht_keys t ! i, values_of t ! i)) (ht_slot t k)"

lemma ht_map_entry: "ht_map t k = map_option snd (ht_entry t k)"
  by (simp add: ht_map_def ht_entry_def option.map_comp comp_def)

lemma ht_entry_holds:
  assumes "ht_shape t n" "key_funcs_ok t" "holds t k i"
  shows "ht_entry t k = Some (ht_keys t ! i, values_of t ! i)"
  using ht_slot_holds [OF assms] by (simp add: ht_entry_def)

lemma ht_entry_None: "\<forall>i. \<not> holds t k i \<Longrightarrow> ht_entry t k = None"
  by (simp add: ht_entry_def ht_slot_None_iff)

lemma ht_invD:
  assumes "ht_inv t"
  obtains n where "ht_shape t n" "ht_noccupied t < int (ht_size t)" "ht_nnodes t < 2 ^ 29"
    "0 < ht_ref_count t"
  using assms unfolding ht_inv_def by blast

lemma ht_invI:
  "ht_shape t n \<Longrightarrow> ht_noccupied t < int (ht_size t) \<Longrightarrow> ht_nnodes t < 2 ^ 29 \<Longrightarrow>
   0 < ht_ref_count t \<Longrightarrow> ht_inv t"
  unfolding ht_inv_def by blast

text \<open>The two outcomes of a search, in the form the operations use.\<close>

lemma lookup_node_cases:
  assumes "ht_inv t" "key_funcs_ok t"
  obtains (found) n i where "ht_shape t n"
      "g_hash_table_lookup_node t k = Some (i, real_hash (ht_hash_func t k))"
      "i < 2 ^ n" "HASH_IS_REAL (ht_hashes t ! i)" "holds t k i"
      "ht_entry t k = Some (ht_keys t ! i, values_of t ! i)"
  | (absent) n i where "ht_shape t n"
      "g_hash_table_lookup_node t k = Some (i, real_hash (ht_hash_func t k))"
      "i < 2 ^ n" "\<not> HASH_IS_REAL (ht_hashes t ! i)" "\<forall>j. \<not> holds t k j"
      "on_probe n (ht_mod t) (ht_hashes t) (real_hash (ht_hash_func t k)) i"
      "ht_entry t k = None"
proof -
  from assms(1) obtain n where sh: "ht_shape t n" "ht_noccupied t < int (ht_size t)"
      "0 < ht_ref_count t" by (rule ht_invD)
  from lookup_node_spec [OF sh(1,2) assms(2) sh(3), of k] obtain i where
    i: "g_hash_table_lookup_node t k = Some (i, real_hash (ht_hash_func t k))" "i < 2 ^ n"
      "holds t k i \<or> \<not> HASH_IS_REAL (ht_hashes t ! i) \<and> (\<forall>j. \<not> holds t k j) \<and>
       on_probe n (ht_mod t) (ht_hashes t) (real_hash (ht_hash_func t k)) i" by blast
  from i(3) show thesis
  proof
    assume h: "holds t k i"
    then show thesis
      using found [OF sh(1) i(1,2) _ h ht_entry_holds [OF sh(1) assms(2) h]]
      by (simp add: holds_def)
  next
    assume a: "\<not> HASH_IS_REAL (ht_hashes t ! i) \<and> (\<forall>j. \<not> holds t k j) \<and>
       on_probe n (ht_mod t) (ht_hashes t) (real_hash (ht_hash_func t k)) i"
    then have "\<not> HASH_IS_REAL (ht_hashes t ! i)" and nh: "\<forall>j. \<not> holds t k j"
      and "on_probe n (ht_mod t) (ht_hashes t) (real_hash (ht_hash_func t k)) i"
      by simp_all
    then show thesis by (rule absent [OF sh(1) i(1,2) _ _ _ ht_entry_None [OF nh]])
  qed
qed

lemma lookup_eq:
  assumes "ht_inv t" "key_funcs_ok t"
  shows "g_hash_table_lookup t k = Some (case ht_map t k of None \<Rightarrow> NULL | Some v \<Rightarrow> v)"
  using assms
proof (cases rule: lookup_node_cases [where k = k])
  case (found n i)
  then show ?thesis using ht_shapeD(7,8) [OF found(1)]
    by (simp add: g_hash_table_lookup_def ht_map_entry)
next
  case (absent n i)
  then show ?thesis using ht_shapeD(8) [OF absent(1)]
    by (simp add: g_hash_table_lookup_def ht_map_entry)
qed

lemma lookup_extended_eq:
  assumes "ht_inv t" "key_funcs_ok t"
  shows "g_hash_table_lookup_extended t k = Some (ht_entry t k)"
  using assms
proof (cases rule: lookup_node_cases [where k = k])
  case (found n i)
  then show ?thesis using ht_shapeD(7,8,9) [OF found(1)]
    by (simp add: g_hash_table_lookup_extended_def)
next
  case (absent n i)
  then show ?thesis using ht_shapeD(8) [OF absent(1)]
    by (simp add: g_hash_table_lookup_extended_def)
qed

lemma contains_eq:
  assumes "ht_inv t" "key_funcs_ok t"
  shows "g_hash_table_contains t k = Some (ht_map t k \<noteq> None)"
  using assms
proof (cases rule: lookup_node_cases [where k = k])
  case (found n i)
  then show ?thesis using ht_shapeD(8) [OF found(1)]
    by (simp add: g_hash_table_contains_def ht_map_entry)
next
  case (absent n i)
  then show ?thesis using ht_shapeD(8) [OF absent(1)]
    by (simp add: g_hash_table_contains_def ht_map_entry)
qed

text \<open>The notifications of an insertion that finds the pair \<open>(k0, v0)\<close>.\<close>

definition overwrite_calls ::
  "ghash \<Rightarrow> bool \<Rightarrow> gpointer \<Rightarrow> (gpointer \<times> gpointer) option \<Rightarrow> notification list" where
  "overwrite_calls t keep k e =
     (case e of None \<Rightarrow> []
      | Some (k0, v0) \<Rightarrow>
          (if ht_key_destroy_func t then [Key_Destroy (if keep then k0 else k)] else []) @
          (if ht_value_destroy_func t then [Value_Destroy v0] else []))"

lemma insert_internal_spec:
  assumes inv: "ht_inv t" and kf: "key_funcs_ok t" and room: "ht_nnodes t + 1 < 2 ^ 29"
  shows "\<exists>t'. g_hash_table_insert_internal t k v keep =
       Some (ht_map t k = None, t', overwrite_calls t keep k (ht_entry t k)) \<and>
     ht_inv t' \<and> same_config t t' \<and>
     ht_map t' = (\<lambda>k'. if key_matches t k k' then Some v else ht_map t k') \<and>
     ht_nnodes t' = ht_nnodes t + (if ht_map t k = None then 1 else 0) \<and>
     (ht_values t' = None \<longrightarrow> ht_values t = None) \<and>
     (keep \<and> ht_values t = None \<and> k = v \<longrightarrow> ht_values t' = None)"
  using inv kf
proof (cases rule: lookup_node_cases [where k = k])
  case (found n i)
  from insert_node_existing [OF found(1) kf found(5),
      where kh = "real_hash (ht_hash_func t k)" and v = v and keep = keep and reusing = False]
  obtain t' where t': "g_hash_table_insert_node t i (real_hash (ht_hash_func t k)) k v keep False =
       Some (False, t',
         (if ht_key_destroy_func t \<and> \<not> False
          then [Key_Destroy (if keep then ht_keys t ! i else k)] else []) @
         (if ht_value_destroy_func t then [Value_Destroy (values_of t ! i)] else []))"
     "ht_shape t' n" "ht_noccupied t' = ht_noccupied t" "ht_size t' = ht_size t"
     "ht_nnodes t' = ht_nnodes t" "same_config t t'"
     "ht_values t' = None \<longleftrightarrow> ht_values t = None \<and> (if keep then k else ht_keys t ! i) = v"
     "ht_entries t' = insert (if keep then k else ht_keys t ! i, v)
                       {e \<in> ht_entries t. \<not> key_matches t (fst e) k}"
    by (elim exE conjE) (rule that)
  have "key_matches t (if keep then k else ht_keys t ! i) k"
    using found(5) key_funcs_okD(1) [OF kf] by (simp add: holds_def)
  then have map: "ht_map t' = (\<lambda>k'. if key_matches t k k' then Some v else ht_map t k')"
    using ht_map_after_insert [OF found(1) kf t'(2,6,8)] by blast
  have "ht_inv t'"
    using t' inv by (intro ht_invI [OF t'(2)]) (auto simp: ht_inv_def same_config_def)
  with t' map found(2,6) show ?thesis
    by (intro exI [of _ t'])
      (simp add: g_hash_table_insert_internal_def overwrite_calls_def ht_map_entry)
next
  case (absent n i)
  have occ: "ht_noccupied t < int (ht_size t)" using inv by (simp add: ht_inv_def)
  from insert_node_new [OF absent(1) occ room kf absent(3,4,5,6),
      where v = v and keep = keep and reusing = False]
  obtain t' N where t': "g_hash_table_insert_node t i (real_hash (ht_hash_func t k)) k v keep False =
       Some (True, t', [])"
     "ht_shape t' N" "ht_noccupied t' < int (ht_size t')" "ht_nnodes t' = ht_nnodes t + 1"
     "same_config t t'" "ht_values t' = None \<longleftrightarrow> ht_values t = None \<and> k = v"
     "ht_entries t' = insert (k, v) {e \<in> ht_entries t. \<not> key_matches t (fst e) k}"
    by (elim exE conjE) (rule that)
  have map: "ht_map t' = (\<lambda>k'. if key_matches t k k' then Some v else ht_map t k')"
    using ht_map_after_insert [OF absent(1) kf t'(2,5,7) key_funcs_okD(1) [OF kf]] by blast
  have "ht_inv t'"
    using t' inv room by (intro ht_invI [OF t'(2,3)]) (auto simp: ht_inv_def same_config_def)
  with t' map absent(2,7) show ?thesis
    by (intro exI [of _ t'])
      (simp add: g_hash_table_insert_internal_def overwrite_calls_def ht_map_entry)
qed

lemma remove_internal_spec:
  assumes inv: "ht_inv t" and kf: "key_funcs_ok t"
  shows "\<exists>t'. g_hash_table_remove_internal t k notify =
       Some (ht_map t k \<noteq> None, t',
             if notify then (case ht_entry t k of None \<Rightarrow> [] | Some (k0, v0) \<Rightarrow> notify_calls t k0 v0)
             else []) \<and>
     ht_inv t' \<and> same_config t t' \<and>
     ht_map t' = (\<lambda>k'. if key_matches t k k' then None else ht_map t k') \<and>
     ht_nnodes t' = ht_nnodes t - (if ht_map t k = None then 0 else 1) \<and>
     (ht_values t' = None \<longleftrightarrow> ht_values t = None)"
  using inv kf
proof (cases rule: lookup_node_cases [where k = k])
  case (found n i)
  from remove_node_spec [OF found(1) kf found(5), of notify] obtain t1 where
    t1: "g_hash_table_remove_node t i notify =
       Some (t1, if notify then notify_calls t (ht_keys t ! i) (values_of t ! i) else [])"
     "ht_shape t1 n" "ht_nnodes t1 = ht_nnodes t - 1" "same_config t t1"
     "ht_values t1 = None \<longleftrightarrow> ht_values t = None"
     "ht_entries t1 = {e \<in> ht_entries t. \<not> key_matches t (fst e) k}"
    by (elim exE conjE) (rule that)
  have "ht_nnodes t1 < 2 ^ 29" using t1(3) inv by (simp add: ht_inv_def)
  from maybe_resize_spec [OF t1(2) this] obtain t2 N where
    t2: "g_hash_table_maybe_resize t1 = Some t2" "ht_shape t2 N"
      "ht_noccupied t2 < int (ht_size t2)" "ht_nnodes t2 = ht_nnodes t1" "same_config t1 t2"
      "ht_values t2 = None \<longleftrightarrow> ht_values t1 = None" "ht_entries t2 = ht_entries t1"
    by (elim exE conjE) (rule that)
  define t' where "t' = t2\<lparr>ht_version := ht_version t2 + 1\<rparr>"
  have cfg: "same_config t t'" using same_config_trans [OF t1(4) t2(5)] by (simp add: t'_def)
  have sh': "ht_shape t' N" using t2(2) by (simp add: t'_def)
  have "ht_entries t' = {e \<in> ht_entries t. \<not> key_matches t (fst e) k}"
    using t1(6) t2(7) by (simp add: t'_def)
  then have map: "ht_map t' = (\<lambda>k'. if key_matches t k k' then None else ht_map t k')"
    using ht_map_after_remove [OF found(1) kf sh' cfg] by blast
  have "ht_inv t'"
    using t1 t2 inv cfg by (intro ht_invI [OF sh']) (auto simp: ht_inv_def same_config_def t'_def)
  with t1 t2 map cfg found(2,4,6) ht_shapeD(8) [OF found(1)] found(3) show ?thesis
    by (intro exI [of _ t'])
      (simp add: g_hash_table_remove_internal_def ht_map_entry t'_def)
next
  case (absent n i)
  then have none: "ht_map t k = None" by (simp add: ht_map_entry)
  have "ht_map t k' = None" if "key_matches t k k'" for k'
    using absent(5) that key_funcs_okD(2,3) [OF kf] unfolding ht_map_None_iff holds_def by blast
  then have "ht_map t = (\<lambda>k'. if key_matches t k k' then None else ht_map t k')" by auto
  with absent none inv ht_shapeD(8) [OF absent(1)] show ?thesis
    by (intro exI [of _ t]) (simp add: g_hash_table_remove_internal_def)
qed

end
