(* ===== verification/GHash_Table.thy ===== *)
theory GHash_Table
  imports GHash_Ops
begin

text \<open>
  Whole-table operations (construction, removal of everything, destruction), the
  interpretation of the table interface, and the stated properties of the table.
\<close>

section \<open>Construction\<close>

lemma new_full_spec:
  "\<exists>t. g_hash_table_new_full hf eq kd vd = Some t \<and> ht_inv t \<and> ht_map t = Map.empty \<and>
     ht_values t = None \<and> ht_nnodes t = 0 \<and> ht_key_equal_func t = eq \<and>
     ht_hash_func t = (case hf of Some f \<Rightarrow> f | None \<Rightarrow> g_direct_hash) \<and>
     ht_key_destroy_func t = kd \<and> ht_value_destroy_func t = vd \<and> ht_version t = 0"
proof -
  let ?t = "\<lparr>ht_size = 2 ^ 3, ht_mod = prime_mod ! 3, ht_mask = mask 3, ht_nnodes = 0,
      ht_noccupied = 0, ht_keys = replicate (2 ^ 3) NULL,
      ht_hashes = replicate (2 ^ 3) UNUSED_HASH_VALUE, ht_values = None,
      ht_hash_func = (case hf of Some f \<Rightarrow> f | None \<Rightarrow> g_direct_hash),
      ht_key_equal_func = eq, ht_ref_count = 1, ht_version = 0,
      ht_key_destroy_func = kd, ht_value_destroy_func = vd\<rparr>"
  have new: "g_hash_table_new_full hf eq kd vd = Some ?t"
    by (simp add: g_hash_table_new_full_def set_shift_Some)
  have sh: "ht_shape ?t 3"
    unfolding ht_shape_def using tbl_ok_empty [of _ _ 3]
    by (simp add: values_of_def)
  then have "ht_inv ?t" by (rule ht_invI) simp_all
  moreover have "ht_map ?t = Map.empty"
  proof
    fix k
    show "ht_map ?t k = None"
      unfolding ht_map_None_iff holds_def by (auto simp: nth_replicate)
  qed
  ultimately show ?thesis using new by (intro exI [of _ ?t]) simp
qed

section \<open>Removing everything\<close>

text \<open>The stored pairs in slot order.\<close>

definition entry_list :: "ghash \<Rightarrow> (gpointer \<times> gpointer) list" where
  "entry_list t =
     map (\<lambda>i. (ht_keys t ! i, values_of t ! i))
       (filter (\<lambda>i. HASH_IS_REAL (ht_hashes t ! i)) [0..<ht_size t])"

lemma set_entry_list: "set (entry_list t) = ht_entries t"
  by (auto simp: entry_list_def ht_entries_def)

lemma filter_nth_upt: "length (filter (\<lambda>i. P (xs ! i)) [0..<length xs]) = count_if P xs"
  by (simp add: length_filter_conv_card cong: conj_cong)

lemma length_entry_list: "ht_shape t n \<Longrightarrow> int (length (entry_list t)) = ht_nnodes t"
proof -
  assume sh: "ht_shape t n"
  have "ht_size t = length (ht_hashes t)" using ht_shapeD(3,8) [OF sh] by simp
  moreover have "ht_nnodes t = int (count_if HASH_IS_REAL (ht_hashes t))"
    using sh by (simp add: ht_shape_def)
  ultimately show ?thesis using filter_nth_upt [of HASH_IS_REAL "ht_hashes t"]
    by (simp add: entry_list_def)
qed

lemma distinct_entry_keys:
  assumes "ht_shape t n" "key_funcs_ok t"
  shows "distinct (map fst (entry_list t))"
proof -
  have "inj_on (\<lambda>i. ht_keys t ! i) {i. i < ht_size t \<and> HASH_IS_REAL (ht_hashes t ! i)}"
  proof (rule inj_onI)
    fix i j
    assume ij: "i \<in> {i. i < ht_size t \<and> HASH_IS_REAL (ht_hashes t ! i)}"
      "j \<in> {i. i < ht_size t \<and> HASH_IS_REAL (ht_hashes t ! i)}" "ht_keys t ! i = ht_keys t ! j"
    then have "holds t (ht_keys t ! i) i" "holds t (ht_keys t ! i) j"
      using key_funcs_okD(1) [OF assms(2)] by (auto simp: holds_def)
    then show "i = j" using holds_unique [OF assms] by blast
  qed
  then show ?thesis
    unfolding entry_list_def map_map by (simp add: distinct_map comp_def inj_on_def)
qed

lemma walk_notify_entries:
  "walk_notify t = concat (map (\<lambda>(k, v). notify_calls t k v) (entry_list t))"
proof -
  have "concat (map (\<lambda>i. if P i then f i else []) xs) = concat (map f (filter P xs))"
    for P :: "nat \<Rightarrow> bool" and f :: "nat \<Rightarrow> notification list" and xs
    by (induction xs) auto
  then show ?thesis by (simp add: walk_notify_def entry_list_def comp_def)
qed

lemma walk_notify_version [simp]: "walk_notify (t\<lparr>ht_version := x\<rparr>) = walk_notify t"
  by (simp add: walk_notify_def notify_calls_def cong: if_cong)

lemma empty_shape:
  assumes "3 \<le> n" "n < 31"
  shows "ht_shape (t\<lparr>ht_size := 2 ^ n, ht_mod := prime_mod ! n, ht_mask := mask n,
      ht_nnodes := 0, ht_noccupied := 0, ht_hashes := replicate (2 ^ n) UNUSED_HASH_VALUE,
      ht_keys := replicate (2 ^ n) NULL,
      ht_values := map_option (\<lambda>_. replicate (2 ^ n) NULL) X\<rparr>) n"
    (is "ht_shape ?t n")
proof -
  have "length (values_of ?t) = 2 ^ n" by (cases X) (simp_all add: values_of_def)
  then show ?thesis using assms tbl_ok_empty by (simp add: ht_shape_def)
qed

lemma shape_empty_iff:
  assumes "ht_shape t n" "ht_nnodes t = 0"
  shows "entry_list t = []" "ht_entries t = {}"
  using length_entry_list [OF assms(1)] assms(2) set_entry_list [of t] by auto

lemma remove_all_nodes_spec:
  assumes sh: "ht_shape t n" and occ: "ht_noccupied t < int (ht_size t)"
  shows "\<exists>t' N. g_hash_table_remove_all_nodes t notify False =
       Some (t', if notify then walk_notify t else []) \<and>
     ht_shape t' N \<and> ht_noccupied t' < int (ht_size t') \<and> ht_nnodes t' = 0 \<and>
     same_config t t'"
proof (cases "ht_nnodes t = 0")
  case True
  then have "walk_notify t = []"
    using shape_empty_iff(1) [OF sh] by (simp add: walk_notify_entries)
  with True sh occ show ?thesis
    by (intro exI [of _ t] exI [of _ n]) (simp add: g_hash_table_remove_all_nodes_def)
next
  case False
  note d = ht_shapeD [OF sh]
  show ?thesis
  proof (cases "\<not> notify \<or> (\<not> ht_key_destroy_func t \<and> \<not> ht_value_destroy_func t)")
    case True
    then have ev: "(if notify then walk_notify t else []) = []"
      by (auto simp: walk_notify_entries notify_calls_def concat_eq_Nil_conv)
    let ?t = "t\<lparr>ht_nnodes := 0, ht_noccupied := 0,
      ht_hashes := replicate (ht_size t) UNUSED_HASH_VALUE,
      ht_keys := replicate (ht_size t) NULL,
      ht_values := map_option (\<lambda>_. replicate (ht_size t) NULL) (ht_values t)\<rparr>"
    have "?t = t\<lparr>ht_size := 2 ^ n, ht_mod := prime_mod ! n, ht_mask := mask n,
      ht_nnodes := 0, ht_noccupied := 0, ht_hashes := replicate (2 ^ n) UNUSED_HASH_VALUE,
      ht_keys := replicate (2 ^ n) NULL,
      ht_values := map_option (\<lambda>_. replicate (2 ^ n) NULL) (ht_values t)\<rparr>"
      using d(3,4,5) by simp
    then have "ht_shape ?t n" using empty_shape [OF d(1,2)] by metis
    moreover have "g_hash_table_remove_all_nodes t notify False = Some (?t, [])"
      using False True by (simp add: g_hash_table_remove_all_nodes_def)
    moreover have "same_config t ?t" by (simp add: same_config_def)
    ultimately show ?thesis unfolding ev using d(3)
      by (intro exI [of _ ?t] exI [of _ n]) simp
  next
    case notifying: False
    let ?t = "t\<lparr>ht_size := 2 ^ 3, ht_mod := prime_mod ! 3, ht_mask := mask 3,
      ht_nnodes := 0, ht_noccupied := 0, ht_hashes := replicate (2 ^ 3) UNUSED_HASH_VALUE,
      ht_keys := replicate (2 ^ 3) NULL,
      ht_values := map_option (\<lambda>_. replicate (2 ^ 3) NULL) (None :: gpointer list option)\<rparr>"
    have "ht_shape ?t 3" by (rule empty_shape) simp_all
    moreover have "g_hash_table_remove_all_nodes t notify False = Some (?t, walk_notify t)"
      using False notifying
      by (auto simp: g_hash_table_remove_all_nodes_def set_shift_Some Let_def)
    moreover have "same_config t ?t" by (simp add: same_config_def)
    ultimately show ?thesis using notifying
      by (intro exI [of _ ?t] exI [of _ 3]) (simp)
  qed
qed

lemma remove_all_spec:
  assumes inv: "ht_inv t"
  shows "\<exists>t'. g_hash_table_remove_all t = Some (t', walk_notify t) \<and> ht_inv t' \<and>
     same_config t t' \<and> ht_entries t' = {} \<and> ht_nnodes t' = 0"
    and "\<exists>t'. g_hash_table_steal_all t = Some t' \<and> ht_inv t' \<and>
     same_config t t' \<and> ht_entries t' = {} \<and> ht_nnodes t' = 0"
proof -
  from inv obtain n where sh: "ht_shape t n" "ht_noccupied t < int (ht_size t)"
    "0 < ht_ref_count t" by (rule ht_invD)
  define b where "b = bump_version_if_nonempty t"
  have b: "ht_shape b n" "ht_noccupied b < int (ht_size b)" "same_config t b"
    "walk_notify b = walk_notify t"
    using sh by (simp_all add: b_def bump_version_if_nonempty_def)
  have "\<exists>t'. do { (t1, ev) \<leftarrow> g_hash_table_remove_all_nodes b notify False;
                  t2 \<leftarrow> g_hash_table_maybe_resize t1; Some (t2, ev) } =
        Some (t', if notify then walk_notify t else []) \<and> ht_inv t' \<and>
     same_config t t' \<and> ht_entries t' = {} \<and> ht_nnodes t' = 0" for notify
  proof -
    from remove_all_nodes_spec [OF b(1,2), of notify] obtain t1 N where
      t1: "g_hash_table_remove_all_nodes b notify False =
             Some (t1, if notify then walk_notify b else [])"
        "ht_shape t1 N" "ht_nnodes t1 = 0" "same_config b t1"
      by (elim exE conjE) (rule that)
    have "ht_nnodes t1 < 2 ^ 29" using t1(3) by simp
    from maybe_resize_spec [OF t1(2) this] obtain t2 M where
      t2: "g_hash_table_maybe_resize t1 = Some t2" "ht_shape t2 M"
        "ht_noccupied t2 < int (ht_size t2)" "ht_nnodes t2 = ht_nnodes t1" "same_config t1 t2"
      by (elim exE conjE) (rule that)
    have cfg: "same_config t t2"
      using same_config_trans [OF same_config_trans [OF b(3) t1(4)] t2(5)] .
    have "ht_inv t2"
      using t1(3) t2(4) cfg sh(3) by (intro ht_invI [OF t2(2,3)]) (simp_all add: same_config_def)
    moreover have "ht_entries t2 = {}"
      using shape_empty_iff(2) [OF t2(2)] t1(3) t2(4) by simp
    ultimately show ?thesis using t1 t2 b(4) cfg
      by (intro exI [of _ t2]) simp
  qed note all = this
  show "\<exists>t'. g_hash_table_remove_all t = Some (t', walk_notify t) \<and> ht_inv t' \<and>
     same_config t t' \<and> ht_entries t' = {} \<and> ht_nnodes t' = 0"
    using all [of True] by (simp add: g_hash_table_remove_all_def b_def)
  from all [of False] obtain t' where
    t': "do { (t1, ev) \<leftarrow> g_hash_table_remove_all_nodes b False False;
              t2 \<leftarrow> g_hash_table_maybe_resize t1; Some (t2, ev) } = Some (t', [])"
      "ht_inv t'" "same_config t t'" "ht_entries t' = {}" "ht_nnodes t' = 0" by auto
  have "g_hash_table_steal_all t = Some t'"
    using t'(1) by (auto simp: g_hash_table_steal_all_def b_def bind_eq_Some_conv)
  with t' show "\<exists>t'. g_hash_table_steal_all t = Some t' \<and> ht_inv t' \<and>
     same_config t t' \<and> ht_entries t' = {} \<and> ht_nnodes t' = 0" by blast
qed

section \<open>The table as a provider of the table interface\<close>

definition insert_table :: "ghash \<Rightarrow> gpointer \<Rightarrow> gpointer \<Rightarrow> ghash option" where
  "insert_table t k v = map_option (\<lambda>(b, t', ev). t') (g_hash_table_insert t k v)"

definition remove_table :: "ghash \<Rightarrow> gpointer \<Rightarrow> ghash option" where
  "remove_table t k = map_option (\<lambda>(b, t', ev). t') (g_hash_table_remove t k)"

interpretation gh: assoc_table
  "\<lambda>t. ht_inv t \<and> key_funcs_ok t" key_matches ht_map insert_table remove_table ht_nnodes "2 ^ 29"
proof
  fix t k v
  assume inv: "ht_inv t \<and> key_funcs_ok t" and room: "ht_nnodes t + 1 < 2 ^ 29"
  from insert_internal_spec [of t k v False] inv room obtain t' where
    t': "g_hash_table_insert_internal t k v False =
       Some (ht_map t k = None, t', overwrite_calls t False k (ht_entry t k))"
     "ht_inv t'" "same_config t t'"
     "ht_map t' = (\<lambda>k'. if key_matches t k k' then Some v else ht_map t k')"
     "ht_nnodes t' = ht_nnodes t + (if ht_map t k = None then 1 else 0)"
    by blast
  then show "\<exists>t'. insert_table t k v = Some t' \<and> (ht_inv t' \<and> key_funcs_ok t') \<and>
      key_matches t' = key_matches t \<and> ht_nnodes t' \<le> ht_nnodes t + 1 \<and>
      ht_map t' = (\<lambda>k'. if key_matches t k k' then Some v else ht_map t k')"
    using inv same_config_matches [OF t'(3)] same_config_key_funcs [OF t'(3)]
    by (intro exI [of _ t']) (simp add: insert_table_def g_hash_table_insert_def)
next
  fix t k
  assume inv: "ht_inv t \<and> key_funcs_ok t"
  from remove_internal_spec [of t k True] inv obtain t' ev where
    t': "g_hash_table_remove_internal t k True = Some (ht_map t k \<noteq> None, t', ev)"
     "ht_inv t'" "same_config t t'"
     "ht_map t' = (\<lambda>k'. if key_matches t k k' then None else ht_map t k')"
     "ht_nnodes t' = ht_nnodes t - (if ht_map t k = None then 0 else 1)"
    by blast
  then show "\<exists>t'. remove_table t k = Some t' \<and> (ht_inv t' \<and> key_funcs_ok t') \<and>
      key_matches t' = key_matches t \<and> ht_nnodes t' \<le> ht_nnodes t \<and>
      ht_map t' = (\<lambda>k'. if key_matches t k k' then None else ht_map t k')"
    using inv same_config_matches [OF t'(3)] same_config_key_funcs [OF t'(3)]
    by (intro exI [of _ t']) (simp add: remove_table_def g_hash_table_remove_def)
qed

section \<open>Properties\<close>

lemma key_funcs_ok_direct: "ht_key_equal_func t = None \<Longrightarrow> key_funcs_ok t"
  by (auto simp: key_funcs_ok_def key_matches_def equivp_def fun_eq_iff)

lemma direct_table:
  obtains t where "g_hash_table_new None None = Some t" "ht_inv t" "key_funcs_ok t"
    "ht_map t = Map.empty" "ht_nnodes t = 0" "ht_values t = None" "key_matches t = (=)"
proof -
  from new_full_spec [of None None False False] obtain t where
    t: "g_hash_table_new_full None None False False = Some t" "ht_inv t" "ht_map t = Map.empty"
      "ht_values t = None" "ht_nnodes t = 0" "ht_key_equal_func t = None" by blast
  moreover have "key_matches t = (=)" using t(6) by (simp add: key_matches_def fun_eq_iff)
  ultimately show thesis using that [of t] key_funcs_ok_direct [OF t(6)]
    by (simp add: g_hash_table_new_def)
qed

lemma direct_insert:
  obtains t t' where "g_hash_table_new None None = Some t" "ht_inv t" "key_funcs_ok t"
    "ht_nnodes t = 0" "ht_map t = Map.empty" "key_matches t = (=)"
    "g_hash_table_insert t 5 7 = Some (True, t', [])" "ht_inv t'" "key_funcs_ok t'"
    "ht_map t' = [5 \<mapsto> 7]" "ht_nnodes t' = 1" "key_matches t' = (=)"
    "\<not> ht_key_destroy_func t'" "\<not> ht_value_destroy_func t'"
proof -
  obtain t where t: "g_hash_table_new None None = Some t" "ht_inv t" "key_funcs_ok t"
    "ht_map t = Map.empty" "ht_nnodes t = 0" "key_matches t = (=)" by (rule direct_table)
  have none: "ht_map t 5 = None" using t(4) by simp
  then have e: "ht_entry t 5 = None" by (simp add: ht_map_entry)
  have "ht_nnodes t + 1 < 2 ^ 29" using t(5) by simp
  from insert_internal_spec [OF t(2,3) this, of 5 7 False] obtain t' where
    t': "g_hash_table_insert_internal t 5 7 False =
       Some (ht_map t 5 = None, t', overwrite_calls t False 5 (ht_entry t 5))"
     "ht_inv t'" "same_config t t'"
     "ht_map t' = (\<lambda>k'. if key_matches t 5 k' then Some 7 else ht_map t k')"
     "ht_nnodes t' = ht_nnodes t + (if ht_map t 5 = None then 1 else 0)"
    by (elim exE conjE) (rule that)
  have m: "ht_map t' = [5 \<mapsto> 7]" by (rule ext) (simp add: t'(4) t(4,6))
  have nd: "\<not> ht_key_destroy_func t'" "\<not> ht_value_destroy_func t'"
    using t(1) t'(3) by (auto simp: g_hash_table_new_def g_hash_table_new_full_def
        set_shift_Some same_config_def)
  show thesis
    using that [OF t(1,2,3,5,4,6), of t'] t' m nd e none t(5,6)
      same_config_matches [OF t'(3)] same_config_key_funcs [OF t'(3) t(3)]
    by (simp add: g_hash_table_insert_def overwrite_calls_def)
qed

text \<open>
  C12: on a well-formed table whose key functions are consistent, the searches end
  without leaving the arrays and return exactly what the abstract map holds:
  \<^verbatim>\<open>g_hash_table_lookup\<close> the value (or NULL), \<^verbatim>\<open>g_hash_table_contains\<close> whether there is
  one, \<^verbatim>\<open>g_hash_table_lookup_extended\<close> the stored pair.
\<close>

theorem ghash_lookup:
  assumes "ht_inv t" "key_funcs_ok t"
  shows "g_hash_table_lookup t k = Some (case ht_map t k of None \<Rightarrow> NULL | Some v \<Rightarrow> v) \<and>
    g_hash_table_contains t k = Some (ht_map t k \<noteq> None) \<and>
    g_hash_table_lookup_extended t k = Some (ht_entry t k)"
  by (intro conjI lookup_eq [OF assms] contains_eq [OF assms] lookup_extended_eq [OF assms])

theorem ghash_lookup_witness:
  "\<exists>t. g_hash_table_new None None = Some t \<and> ht_inv t \<and> key_funcs_ok t \<and>
     g_hash_table_lookup t 5 = Some NULL \<and> g_hash_table_contains t 5 = Some False"
proof -
  obtain t where t: "g_hash_table_new None None = Some t" "ht_inv t" "key_funcs_ok t"
    "ht_map t = Map.empty" by (rule direct_table)
  then show ?thesis using ghash_lookup [OF t(2,3), of 5] by auto
qed

text \<open>
  C13: \<^verbatim>\<open>g_hash_table_insert\<close> and \<^verbatim>\<open>g_hash_table_replace\<close> return and keep the invariant; the
  new map binds every key equal to \<open>k\<close> to \<open>v\<close> and agrees with the old one elsewhere.
  The result tells whether the key is new, the node count follows it, and the
  notifications are those for the pair that was overwritten.
\<close>

theorem ghash_insert:
  assumes "ht_inv t" "key_funcs_ok t" "ht_nnodes t + 1 < 2 ^ 29"
    and "op = (if keep then g_hash_table_replace else g_hash_table_insert)"
  shows "\<exists>t'. op t k v =
       Some (ht_map t k = None, t', overwrite_calls t keep k (ht_entry t k)) \<and>
     ht_inv t' \<and> same_config t t' \<and>
     ht_map t' = (\<lambda>k'. if key_matches t k k' then Some v else ht_map t k') \<and>
     ht_nnodes t' = ht_nnodes t + (if ht_map t k = None then 1 else 0)"
  using insert_internal_spec [OF assms(1-3), of k v keep] assms(4)
  by (auto simp: g_hash_table_insert_def g_hash_table_replace_def)

theorem ghash_insert_witness:
  "\<exists>t t'. g_hash_table_insert t 5 7 = Some (True, t', []) \<and> ht_map t = Map.empty \<and>
     ht_nnodes t' = ht_nnodes t + 1"
proof -
  obtain t t' where t: "ht_inv t" "key_funcs_ok t" "ht_nnodes t = 0" "ht_map t = Map.empty"
    "g_hash_table_insert t 5 7 = Some (True, t', [])" by (rule direct_insert)
  have "ht_nnodes t + 1 < 2 ^ 29" using t(3) by simp
  from ghash_insert [OF t(1,2) this, of g_hash_table_insert False 5 7] t(4,5)
  show ?thesis by auto
qed

text \<open>
  C14: \<^verbatim>\<open>g_hash_table_remove\<close> and \<^verbatim>\<open>g_hash_table_steal\<close> return and keep the invariant; the new
  map has no binding for keys equal to \<open>k\<close> and agrees with the old one elsewhere. The
  result tells whether a node went away; only \<^verbatim>\<open>remove\<close> notifies, for the stored pair.
\<close>

theorem ghash_remove:
  assumes "ht_inv t" "key_funcs_ok t"
    and "op = (if notify then g_hash_table_remove else g_hash_table_steal)"
  shows "\<exists>t'. op t k =
       Some (ht_map t k \<noteq> None, t',
             if notify then (case ht_entry t k of None \<Rightarrow> [] | Some (k0, v0) \<Rightarrow> notify_calls t k0 v0)
             else []) \<and>
     ht_inv t' \<and> same_config t t' \<and>
     ht_map t' = (\<lambda>k'. if key_matches t k k' then None else ht_map t k') \<and>
     ht_nnodes t' = ht_nnodes t - (if ht_map t k = None then 0 else 1)"
  using remove_internal_spec [OF assms(1,2), of k notify] assms(3)
  by (auto simp: g_hash_table_remove_def g_hash_table_steal_def)

theorem ghash_remove_witness:
  "\<exists>t t'. ht_map t = [5 \<mapsto> 7] \<and> g_hash_table_remove t 5 = Some (True, t', []) \<and>
     ht_map t' = Map.empty"
proof -
  obtain t where t: "ht_inv t" "key_funcs_ok t" "ht_map t = [5 \<mapsto> 7]" "key_matches t = (=)"
    "\<not> ht_key_destroy_func t" "\<not> ht_value_destroy_func t" by (rule direct_insert)
  have "ht_map t 5 \<noteq> None" using t(3) by simp
  from ghash_remove [OF t(1,2), of g_hash_table_remove True 5] this t(5,6) obtain t' where
    t': "g_hash_table_remove t 5 = Some (True, t', [])"
      "ht_map t' = (\<lambda>k'. if key_matches t 5 k' then None else ht_map t k')"
    by (auto simp: notify_calls_def split: option.splits)
  have "ht_map t' = Map.empty" by (rule ext) (simp add: t'(2) t(3,4))
  with t(3) t'(1) show ?thesis by blast
qed

text \<open>
  C1: any sequence of insertions and removals on a new table, with consistent key
  functions and fewer than \<open>2 ^ 29\<close> operations, runs to its end, and every lookup in
  the resulting table gives what the same sequence gives on a mathematical map.
\<close>

theorem ghash_sequences:
  assumes "equivp eqv" "\<forall>a b. eqv a b \<longrightarrow> hf a = hf b" "int (length ops) < 2 ^ 29"
  shows "\<exists>t t'. g_hash_table_new (Some hf) (Some eqv) = Some t \<and>
     run_table insert_table remove_table ops t = Some t' \<and>
     (\<forall>k. g_hash_table_lookup t' k =
        Some (case run_map eqv ops Map.empty k of None \<Rightarrow> NULL | Some v \<Rightarrow> v))"
proof -
  from new_full_spec [of "Some hf" "Some eqv" False False] obtain t where
    t: "g_hash_table_new_full (Some hf) (Some eqv) False False = Some t" "ht_inv t"
      "ht_map t = Map.empty" "ht_nnodes t = 0" "ht_key_equal_func t = Some eqv"
      "ht_hash_func t = hf" by auto
  have km: "key_matches t = eqv" using t(5) by (simp add: key_matches_def fun_eq_iff)
  have inv: "ht_inv t \<and> key_funcs_ok t"
    using t(2,6) km assms(1,2) by (simp add: key_funcs_ok_def)
  have "ht_nnodes t + int (length ops) < 2 ^ 29" using t(4) assms(3) by simp
  from gh.run_refines [OF inv this] obtain t' where
    t': "run_table insert_table remove_table ops t = Some t'" "ht_inv t'" "key_funcs_ok t'"
      "ht_map t' = run_map (key_matches t) ops (ht_map t)" by blast
  with t km show ?thesis using lookup_eq [OF t'(2,3)]
    by (intro exI [of _ t] exI [of _ t']) (simp add: g_hash_table_new_def)
qed

theorem ghash_sequences_witness:
  "\<exists>t t'. g_hash_table_new (Some g_direct_hash) (Some (=)) = Some t \<and>
     run_table insert_table remove_table [Put 5 7, Put 9 3, Del 5, Put 9 4] t = Some t' \<and>
     g_hash_table_lookup t' 9 = Some 4 \<and> g_hash_table_lookup t' 5 = Some NULL"
proof -
  have "equivp ((=) :: gpointer \<Rightarrow> gpointer \<Rightarrow> bool)" by (rule identity_equivp)
  from ghash_sequences [OF this, of g_direct_hash "[Put 5 7, Put 9 3, Del 5, Put 9 4]"]
  show ?thesis by auto
qed

text \<open>
  C16: \<^verbatim>\<open>g_hash_table_remove_all\<close> empties the table and calls the destroy notifiers for
  the stored pairs in slot order, once each: the pairs are the entries of the table,
  their keys are pairwise different and there are as many as the node count says.
\<close>

theorem ghash_remove_all:
  assumes "ht_inv t" "key_funcs_ok t"
  shows "(\<exists>t'. g_hash_table_remove_all t =
       Some (t', concat (map (\<lambda>(k, v). notify_calls t k v) (entry_list t))) \<and>
     ht_inv t' \<and> same_config t t' \<and> ht_map t' = Map.empty \<and> ht_nnodes t' = 0) \<and>
    set (entry_list t) = ht_entries t \<and> distinct (map fst (entry_list t)) \<and>
    int (length (entry_list t)) = ht_nnodes t"
proof (intro conjI)
  from assms(1) obtain n where sh: "ht_shape t n" by (rule ht_invD)
  show "set (entry_list t) = ht_entries t" "distinct (map fst (entry_list t))"
    "int (length (entry_list t)) = ht_nnodes t"
    using set_entry_list distinct_entry_keys [OF sh assms(2)] length_entry_list [OF sh] by auto
  from remove_all_spec(1) [OF assms(1)] obtain t' where
    t': "g_hash_table_remove_all t = Some (t', walk_notify t)" "ht_inv t'" "same_config t t'"
      "ht_entries t' = {}" "ht_nnodes t' = 0" by blast
  moreover have "ht_map t' = Map.empty"
  proof
    fix k
    show "ht_map t' k = None"
      using t'(4) unfolding ht_map_None_iff holds_def ht_entries_def by blast
  qed
  ultimately show "\<exists>t'. g_hash_table_remove_all t =
       Some (t', concat (map (\<lambda>(k, v). notify_calls t k v) (entry_list t))) \<and>
     ht_inv t' \<and> same_config t t' \<and> ht_map t' = Map.empty \<and> ht_nnodes t' = 0"
    by (auto simp: walk_notify_entries)
qed

theorem ghash_remove_all_witness:
  "\<exists>t t' ev. ht_map t = [5 \<mapsto> 7] \<and> g_hash_table_remove_all t = Some (t', ev) \<and>
     ht_map t' = Map.empty \<and> length (entry_list t) = 1"
proof -
  obtain t where t: "ht_inv t" "key_funcs_ok t" "ht_map t = [5 \<mapsto> 7]" "ht_nnodes t = 1"
    by (rule direct_insert)
  from ghash_remove_all [OF t(1,2)] t(3,4) show ?thesis by auto
qed

text \<open>
  C17: \<^verbatim>\<open>g_hash_table_destroy\<close> by the last owner frees the table after notifying every
  stored pair exactly once; by any other owner it leaves an empty table with one
  reference less.
\<close>

theorem ghash_destroy:
  assumes "ht_inv t"
  shows "\<exists>r. g_hash_table_destroy t =
       Some (r, concat (map (\<lambda>(k, v). notify_calls t k v) (entry_list t))) \<and>
     (case r of None \<Rightarrow> ht_ref_count t = 1
      | Some t' \<Rightarrow> ht_inv t' \<and> ht_entries t' = {} \<and> ht_ref_count t' = ht_ref_count t - 1)"
proof -
  from remove_all_spec(1) [OF assms] obtain t1 where
    t1: "g_hash_table_remove_all t = Some (t1, walk_notify t)" "ht_inv t1" "same_config t t1"
      "ht_entries t1 = {}" "ht_nnodes t1 = 0" by blast
  let ?t2 = "t1\<lparr>ht_ref_count := ht_ref_count t1 - 1\<rparr>"
  have rc: "ht_ref_count t1 = ht_ref_count t" using t1(3) by (simp add: same_config_def)
  have vo: "values_of ?t2 = values_of t1" by (cases "ht_values t1") (simp_all add: values_of_def)
  have km: "key_matches ?t2 = key_matches t1" by (simp add: key_matches_def fun_eq_iff)
  show ?thesis
  proof (cases "ht_ref_count t = 1")
    case True
    then show ?thesis using t1 rc
      by (intro exI [of _ None])
        (simp add: g_hash_table_destroy_def g_hash_table_unref_def
          g_hash_table_remove_all_nodes_def walk_notify_entries)
  next
    case False
    have "0 < ht_ref_count t" using assms by (simp add: ht_inv_def)
    with False have "0 < ht_ref_count t1 - 1" using rc by simp
    then have "ht_inv ?t2" using t1(2) vo km by (simp add: ht_inv_def ht_shape_def)
    moreover have "ht_entries ?t2 = {}" using t1(4) vo by (simp add: ht_entries_def)
    ultimately show ?thesis using t1 rc False
      by (intro exI [of _ "Some ?t2"])
        (simp add: g_hash_table_destroy_def g_hash_table_unref_def walk_notify_entries)
  qed
qed

theorem ghash_destroy_witness:
  "\<exists>t r. ht_map t = [5 \<mapsto> 7] \<and> g_hash_table_destroy t =
     Some (r, concat (map (\<lambda>(k, v). notify_calls t k v) (entry_list t)))"
proof -
  obtain t where t: "ht_inv t" "ht_map t = [5 \<mapsto> 7]" by (rule direct_insert)
  from ghash_destroy [OF t(1)] t(2) show ?thesis by blast
qed

text \<open>
  C15: resizing a well-formed table, however full of tombstones, ends, keeps the map and
  the node count, clears every tombstone and leaves fewer than half of the slots in use.
\<close>

theorem ghash_resize:
  assumes "ht_shape t n" "key_funcs_ok t" "ht_nnodes t < 2 ^ 29"
  shows "\<exists>t' N. g_hash_table_resize t = Some t' \<and> ht_shape t' N \<and> ht_map t' = ht_map t \<and>
     ht_nnodes t' = ht_nnodes t \<and> ht_noccupied t' = ht_nnodes t \<and>
     2 * ht_noccupied t' < int (ht_size t')"
proof -
  from resize_spec [OF assms(1,3)] obtain t' N where
    t': "g_hash_table_resize t = Some t'" "ht_shape t' N" "ht_noccupied t' = ht_nnodes t"
      "ht_nnodes t' = ht_nnodes t" "2 * ht_nnodes t < int (ht_size t')" "same_config t t'"
      "ht_entries t' = ht_entries t" by (elim exE conjE) (rule that)
  have "ht_map t' = ht_map t"
    using ht_map_eqI [OF assms(1,2) t'(2) same_config_key_funcs [OF t'(6) assms(2)] t'(7)
        same_config_matches [OF t'(6)]] by blast
  with t' show ?thesis by auto
qed

theorem ghash_resize_witness:
  "\<exists>t t'. ht_map t = [5 \<mapsto> 7] \<and> g_hash_table_resize t = Some t' \<and> ht_map t' = [5 \<mapsto> 7]"
proof -
  obtain t where t: "ht_inv t" "key_funcs_ok t" "ht_map t = [5 \<mapsto> 7]" by (rule direct_insert)
  from t(1) obtain n where "ht_shape t n" "ht_nnodes t < 2 ^ 29" by (rule ht_invD)
  from ghash_resize [OF this(1) t(2) this(2)] t(3) show ?thesis by auto
qed

text \<open>
  a table that is used as a set only ever needs one array: \<^verbatim>\<open>g_hash_table_add\<close> and
  \<^verbatim>\<open>g_hash_table_remove\<close> keep keys and values in the same storage.
\<close>

theorem ghash_set_shared:
  assumes "ht_inv t" "key_funcs_ok t" "ht_nnodes t + 1 < 2 ^ 29" "ht_values t = None"
  shows "(\<exists>b t' ev. g_hash_table_add t k = Some (b, t', ev) \<and> ht_inv t' \<and> ht_values t' = None \<and>
       ht_map t' = (\<lambda>k'. if key_matches t k k' then Some k else ht_map t k')) \<and>
    (\<exists>b t' ev. g_hash_table_remove t k = Some (b, t', ev) \<and> ht_inv t' \<and> ht_values t' = None)"
  using insert_internal_spec [OF assms(1-3), of k k True] remove_internal_spec [OF assms(1,2), of k True]
    assms(4)
  by (auto simp: g_hash_table_add_def g_hash_table_remove_def)

theorem ghash_set_shared_witness:
  "\<exists>t b t' ev. g_hash_table_new None None = Some t \<and> g_hash_table_add t 9 = Some (b, t', ev) \<and>
     ht_values t' = None \<and> ht_map t' 9 = Some 9"
proof -
  obtain t where t: "g_hash_table_new None None = Some t" "ht_inv t" "key_funcs_ok t"
    "ht_map t = Map.empty" "ht_nnodes t = 0" "ht_values t = None" "key_matches t = (=)"
    by (rule direct_table)
  have "ht_nnodes t + 1 < 2 ^ 29" using t(5) by simp
  from ghash_set_shared [OF t(2,3) this t(6), of 9] t(1,7) show ?thesis by auto
qed

end
