(* ===== verification/GHash_Iter.thy ===== *)
theory GHash_Iter
  imports GHash_Table
begin

text \<open>
  Walking a hash table (\<^verbatim>\<open>src/consolekit2_recursion_bug/ghash.c\<close>): iterators, the
  visitor functions, the key and value lists, and the hash functions for strings and
  integers. A visitor is a function on a state of its own; visitors that change the
  table they walk over are not modelled.
\<close>

section \<open>Iterators\<close>

text \<open>\<^verbatim>\<open>RealIter\<close> without the pointer to the table, which is passed along.\<close>

record gh_iter =
  it_position :: int
  it_version :: int

definition g_hash_table_iter_init :: "ghash \<Rightarrow> gh_iter" where
  "g_hash_table_iter_init t = \<lparr>it_position = - 1, it_version = ht_version t\<rparr>"

function iter_scan :: "ghash \<Rightarrow> int \<Rightarrow> (int \<times> bool) option" where
  "iter_scan t position =
     (if position + 1 \<ge> int (ht_size t) then Some (position + 1, False)
      else do {
        h \<leftarrow> (if 0 \<le> position + 1 then arr_get (ht_hashes t) (nat (position + 1)) else None);
        if HASH_IS_REAL h then Some (position + 1, True) else iter_scan t (position + 1)
      })"
  by pat_completeness auto
termination
  by (relation "measure (\<lambda>(t, p). nat (int (ht_size t) - p))") auto

declare iter_scan.simps [simp del]

text \<open>The failed checks of \<^verbatim>\<open>g_return_val_if_fail\<close> return \<^verbatim>\<open>FALSE\<close> and change nothing.\<close>

definition g_hash_table_iter_next ::
  "ghash \<Rightarrow> gh_iter \<Rightarrow> ((gpointer \<times> gpointer) option \<times> gh_iter) option" where
  "g_hash_table_iter_next t ri =
     (if it_version ri \<noteq> ht_version t \<or> \<not> it_position ri < int (ht_size t)
      then Some (None, ri)
      else do {
        (position, found) \<leftarrow> iter_scan t (it_position ri);
        if \<not> found then Some (None, ri\<lparr>it_position := position\<rparr>)
        else do {
          key \<leftarrow> arr_get (ht_keys t) (nat position);
          value \<leftarrow> arr_get (values_of t) (nat position);
          Some (Some (key, value), ri\<lparr>it_position := position\<rparr>)
        }
      })"

definition iter_valid :: "ghash \<Rightarrow> gh_iter \<Rightarrow> bool" where
  "iter_valid t ri \<longleftrightarrow>
     it_version ri = ht_version t \<and> 0 \<le> it_position ri \<and> it_position ri < int (ht_size t)"

definition iter_remove_or_steal ::
  "ghash \<Rightarrow> gh_iter \<Rightarrow> bool \<Rightarrow> (ghash \<times> gh_iter \<times> notification list) option" where
  "iter_remove_or_steal t ri notify =
     (if \<not> iter_valid t ri then Some (t, ri, [])
      else do {
        (t1, ev) \<leftarrow> g_hash_table_remove_node t (nat (it_position ri)) notify;
        Some (t1\<lparr>ht_version := ht_version t1 + 1\<rparr>,
              ri\<lparr>it_version := it_version ri + 1\<rparr>, ev)
      })"

definition g_hash_table_iter_remove ::
  "ghash \<Rightarrow> gh_iter \<Rightarrow> (ghash \<times> gh_iter \<times> notification list) option" where
  "g_hash_table_iter_remove t ri = iter_remove_or_steal t ri True"

definition g_hash_table_iter_steal ::
  "ghash \<Rightarrow> gh_iter \<Rightarrow> (ghash \<times> gh_iter \<times> notification list) option" where
  "g_hash_table_iter_steal t ri = iter_remove_or_steal t ri False"

definition g_hash_table_iter_replace ::
  "ghash \<Rightarrow> gh_iter \<Rightarrow> gpointer \<Rightarrow> (ghash \<times> gh_iter \<times> notification list) option" where
  "g_hash_table_iter_replace t ri value =
     (if \<not> iter_valid t ri then Some (t, ri, [])
      else do {
        node_hash \<leftarrow> arr_get (ht_hashes t) (nat (it_position ri));
        key \<leftarrow> arr_get (ht_keys t) (nat (it_position ri));
        (b, t1, ev) \<leftarrow> g_hash_table_insert_node t (nat (it_position ri)) node_hash key value
                          True True;
        Some (t1\<lparr>ht_version := ht_version t1 + 1\<rparr>,
              ri\<lparr>it_version := it_version ri + 1\<rparr>, ev)
      })"

section \<open>Visitors\<close>

fun foreach_loop ::
  "(gpointer \<Rightarrow> gpointer \<Rightarrow> 's \<Rightarrow> 's) \<Rightarrow> ghash \<Rightarrow> nat \<Rightarrow> nat \<Rightarrow> 's \<Rightarrow> 's option" where
  "foreach_loop func t 0 i s = Some s"
| "foreach_loop func t (Suc n) i s =
     do {
       node_hash \<leftarrow> arr_get (ht_hashes t) i;
       node_key \<leftarrow> arr_get (ht_keys t) i;
       node_value \<leftarrow> arr_get (values_of t) i;
       foreach_loop func t n (Suc i)
         (if HASH_IS_REAL node_hash then func node_key node_value s else s)
     }"

definition g_hash_table_foreach ::
  "ghash \<Rightarrow> (gpointer \<Rightarrow> gpointer \<Rightarrow> 's \<Rightarrow> 's) \<Rightarrow> 's \<Rightarrow> 's option" where
  "g_hash_table_foreach t func user_data = foreach_loop func t (ht_size t) 0 user_data"

fun find_loop ::
  "(gpointer \<Rightarrow> gpointer \<Rightarrow> bool) \<Rightarrow> ghash \<Rightarrow> nat \<Rightarrow> nat \<Rightarrow> gpointer option" where
  "find_loop predicate t 0 i = Some NULL"
| "find_loop predicate t (Suc n) i =
     do {
       node_hash \<leftarrow> arr_get (ht_hashes t) i;
       node_key \<leftarrow> arr_get (ht_keys t) i;
       node_value \<leftarrow> arr_get (values_of t) i;
       if HASH_IS_REAL node_hash \<and> predicate node_key node_value
       then Some node_value else find_loop predicate t n (Suc i)
     }"

definition g_hash_table_find ::
  "ghash \<Rightarrow> (gpointer \<Rightarrow> gpointer \<Rightarrow> bool) \<Rightarrow> gpointer option" where
  "g_hash_table_find t predicate = find_loop predicate t (ht_size t) 0"

fun foreach_remove_loop ::
  "(gpointer \<Rightarrow> gpointer \<Rightarrow> bool) \<Rightarrow> bool \<Rightarrow> nat \<Rightarrow> nat \<Rightarrow> ghash \<Rightarrow> nat \<Rightarrow> notification list
     \<Rightarrow> (nat \<times> ghash \<times> notification list) option" where
  "foreach_remove_loop func notify 0 i t deleted ev = Some (deleted, t, ev)"
| "foreach_remove_loop func notify (Suc n) i t deleted ev =
     do {
       node_hash \<leftarrow> arr_get (ht_hashes t) i;
       node_key \<leftarrow> arr_get (ht_keys t) i;
       node_value \<leftarrow> arr_get (values_of t) i;
       if HASH_IS_REAL node_hash \<and> func node_key node_value
       then do {
         (t1, e) \<leftarrow> g_hash_table_remove_node t i notify;
         foreach_remove_loop func notify n (Suc i) t1 (Suc deleted) (ev @ e)
       }
       else foreach_remove_loop func notify n (Suc i) t deleted ev
     }"

definition g_hash_table_foreach_remove_or_steal ::
  "ghash \<Rightarrow> (gpointer \<Rightarrow> gpointer \<Rightarrow> bool) \<Rightarrow> bool
     \<Rightarrow> (nat \<times> ghash \<times> notification list) option" where
  "g_hash_table_foreach_remove_or_steal t func notify =
     do {
       (deleted, t1, ev) \<leftarrow> foreach_remove_loop func notify (ht_size t) 0 t 0 [];
       t2 \<leftarrow> g_hash_table_maybe_resize t1;
       Some (deleted, if deleted > 0 then t2\<lparr>ht_version := ht_version t2 + 1\<rparr> else t2, ev)
     }"

definition g_hash_table_foreach_remove ::
  "ghash \<Rightarrow> (gpointer \<Rightarrow> gpointer \<Rightarrow> bool) \<Rightarrow> (nat \<times> ghash \<times> notification list) option" where
  "g_hash_table_foreach_remove t func = g_hash_table_foreach_remove_or_steal t func True"

definition g_hash_table_foreach_steal ::
  "ghash \<Rightarrow> (gpointer \<Rightarrow> gpointer \<Rightarrow> bool) \<Rightarrow> (nat \<times> ghash \<times> notification list) option" where
  "g_hash_table_foreach_steal t func = g_hash_table_foreach_remove_or_steal t func False"

section \<open>Size, keys and values\<close>

definition g_hash_table_size :: "ghash \<Rightarrow> guint" where
  "g_hash_table_size t = word_of_int (ht_nnodes t)"

text \<open>The loop shared by the list builders: \<^verbatim>\<open>g_list_prepend\<close> for each real slot.\<close>

fun prepend_loop :: "guint list \<Rightarrow> gpointer list \<Rightarrow> nat \<Rightarrow> nat \<Rightarrow> gpointer list \<Rightarrow> gpointer list option" where
  "prepend_loop hs xs 0 i retval = Some retval"
| "prepend_loop hs xs (Suc n) i retval =
     do {
       h \<leftarrow> arr_get hs i;
       if HASH_IS_REAL h
       then do { x \<leftarrow> arr_get xs i; prepend_loop hs xs n (Suc i) (x # retval) }
       else prepend_loop hs xs n (Suc i) retval
     }"

definition g_hash_table_get_keys :: "ghash \<Rightarrow> gpointer list option" where
  "g_hash_table_get_keys t = prepend_loop (ht_hashes t) (ht_keys t) (ht_size t) 0 []"

definition g_hash_table_get_values :: "ghash \<Rightarrow> gpointer list option" where
  "g_hash_table_get_values t = prepend_loop (ht_hashes t) (values_of t) (ht_size t) 0 []"

text \<open>The array holds one more element than the node count, for the final NULL.\<close>

fun keys_array_loop ::
  "ghash \<Rightarrow> nat \<Rightarrow> nat \<Rightarrow> nat \<Rightarrow> gpointer list \<Rightarrow> (gpointer list \<times> nat) option" where
  "keys_array_loop t 0 i j result = Some (result, j)"
| "keys_array_loop t (Suc n) i j result =
     do {
       h \<leftarrow> arr_get (ht_hashes t) i;
       if HASH_IS_REAL h
       then do {
         key \<leftarrow> arr_get (ht_keys t) i;
         result' \<leftarrow> arr_set result j key;
         keys_array_loop t n (Suc i) (Suc j) result'
       }
       else keys_array_loop t n (Suc i) j result
     }"

definition g_hash_table_get_keys_as_array :: "ghash \<Rightarrow> (gpointer list \<times> nat) option" where
  "g_hash_table_get_keys_as_array t =
     do {
       (result, j) \<leftarrow> keys_array_loop t (ht_size t) 0 0
                         (replicate (nat (ht_nnodes t + 1)) NULL);
       if int j = ht_nnodes t
       then do { result' \<leftarrow> arr_set result j NULL; Some (result', j) }
       else None
     }"

section \<open>Hash and equality functions\<close>

text \<open>
  A string is the bytes in front of its terminating zero; \<open>mem\<close> gives the bytes, or
  the integer, that a key points to.
\<close>

fun str_hash_loop :: "guint \<Rightarrow> byte list \<Rightarrow> guint" where
  "str_hash_loop h [] = h"
| "str_hash_loop h (c # cs) = str_hash_loop (push_bit 5 h + h + scast c) cs"

definition g_str_hash :: "(gpointer \<Rightarrow> byte list) \<Rightarrow> gpointer \<Rightarrow> guint" where
  "g_str_hash mem v = str_hash_loop 5381 (mem v)"

definition g_str_equal :: "(gpointer \<Rightarrow> byte list) \<Rightarrow> gpointer \<Rightarrow> gpointer \<Rightarrow> bool" where
  "g_str_equal mem v1 v2 \<longleftrightarrow> mem v1 = mem v2"

definition g_int_hash :: "(gpointer \<Rightarrow> 32 word) \<Rightarrow> gpointer \<Rightarrow> guint" where
  "g_int_hash mem v = mem v"

definition g_int_equal :: "(gpointer \<Rightarrow> 32 word) \<Rightarrow> gpointer \<Rightarrow> gpointer \<Rightarrow> bool" where
  "g_int_equal mem v1 v2 \<longleftrightarrow> mem v1 = mem v2"

definition g_int64_hash :: "(gpointer \<Rightarrow> 64 word) \<Rightarrow> gpointer \<Rightarrow> guint" where
  "g_int64_hash mem v = ucast (mem v)"

definition g_int64_equal :: "(gpointer \<Rightarrow> 64 word) \<Rightarrow> gpointer \<Rightarrow> gpointer \<Rightarrow> bool" where
  "g_int64_equal mem v1 v2 \<longleftrightarrow> mem v1 = mem v2"

section \<open>Walking over slots\<close>

text \<open>The stored pairs of the \<open>n\<close> slots from \<open>i\<close> on.\<close>

definition slots_from :: "ghash \<Rightarrow> nat \<Rightarrow> nat \<Rightarrow> (gpointer \<times> gpointer) list" where
  "slots_from t i n =
     map (\<lambda>j. (ht_keys t ! j, values_of t ! j))
       (filter (\<lambda>j. HASH_IS_REAL (ht_hashes t ! j)) [i..<i + n])"

lemma slots_from_0 [simp]: "slots_from t i 0 = []"
  by (simp add: slots_from_def)

lemma slots_from_Suc:
  "slots_from t i (Suc n) =
     (if HASH_IS_REAL (ht_hashes t ! i) then (ht_keys t ! i, values_of t ! i) # slots_from t (Suc i) n
      else slots_from t (Suc i) n)"
  by (simp add: slots_from_def upt_conv_Cons del: upt_Suc)

lemma slots_from_all: "slots_from t 0 (ht_size t) = entry_list t"
  by (simp add: slots_from_def entry_list_def)

lemma slots_from_cong:
  assumes "\<And>j. i \<le> j \<Longrightarrow> j < i + n \<Longrightarrow>
     ht_hashes t' ! j = ht_hashes t ! j \<and> ht_keys t' ! j = ht_keys t ! j \<and>
     values_of t' ! j = values_of t ! j"
  shows "slots_from t' i n = slots_from t i n"
  unfolding slots_from_def using assms by (intro map_cong filter_cong) auto

lemma in_slots_from:
  "e \<in> set (slots_from t i n) \<longleftrightarrow>
     (\<exists>j. i \<le> j \<and> j < i + n \<and> HASH_IS_REAL (ht_hashes t ! j) \<and>
          e = (ht_keys t ! j, values_of t ! j))"
  by (auto simp: slots_from_def)

lemma foreach_loop_fold:
  assumes "ht_shape t k" "i + n \<le> ht_size t"
  shows "foreach_loop f t n i s = Some (fold (\<lambda>(a, b). f a b) (slots_from t i n) s)"
  using assms(2)
proof (induction n arbitrary: i s)
  case 0
  then show ?case by simp
next
  case (Suc n)
  then have "i < 2 ^ k" using ht_shapeD(3) [OF assms(1)] by simp
  then show ?case using Suc.IH [of "Suc i"] Suc.prems ht_shapeD(7,8,9) [OF assms(1)]
    by (simp add: slots_from_Suc)
qed

lemma find_loop_find:
  assumes "ht_shape t k" "i + n \<le> ht_size t"
  shows "find_loop p t n i =
     Some (case List.find (\<lambda>(a, b). p a b) (slots_from t i n) of None \<Rightarrow> NULL | Some (a, b) \<Rightarrow> b)"
  using assms(2)
proof (induction n arbitrary: i)
  case 0
  then show ?case by simp
next
  case (Suc n)
  then have "i < 2 ^ k" using ht_shapeD(3) [OF assms(1)] by simp
  then show ?case using Suc.IH [of "Suc i"] Suc.prems ht_shapeD(7,8,9) [OF assms(1)]
    by (simp add: slots_from_Suc)
qed

lemma prepend_loop_rev:
  assumes "ht_shape t k" "i + n \<le> ht_size t"
  shows "prepend_loop (ht_hashes t) (ht_keys t) n i r = Some (rev (map fst (slots_from t i n)) @ r)"
    and "prepend_loop (ht_hashes t) (values_of t) n i r = Some (rev (map snd (slots_from t i n)) @ r)"
  using assms(2)
proof (induction n arbitrary: i r)
  case 0
  { case 1 show ?case by simp }
  { case 2 show ?case by simp }
next
  case (Suc n)
  note d = ht_shapeD(3,7,8,9) [OF assms(1)]
  { case 1 then show ?case using Suc.IH(1) [of "Suc i"] d by (simp add: slots_from_Suc) }
  { case 2 then show ?case using Suc.IH(2) [of "Suc i"] d by (simp add: slots_from_Suc) }
qed

lemma keys_array_loop_spec:
  assumes "ht_shape t k" "i + n \<le> ht_size t" "j = length pre"
    "length (slots_from t i n) < length post"
  shows "keys_array_loop t n i j (pre @ post) =
     Some (pre @ map fst (slots_from t i n) @ drop (length (slots_from t i n)) post,
           j + length (slots_from t i n))"
  using assms(2-)
proof (induction n arbitrary: i j pre post)
  case 0
  then show ?case by simp
next
  case (Suc n)
  then have i: "i < 2 ^ k" using ht_shapeD(3) [OF assms(1)] by simp
  show ?case
  proof (cases "HASH_IS_REAL (ht_hashes t ! i)")
    case False
    then show ?thesis using Suc i ht_shapeD(8) [OF assms(1)] by (simp add: slots_from_Suc)
  next
    case True
    with Suc.prems(3) obtain x post' where post: "post = x # post'" by (cases post) auto
    have "keys_array_loop t n (Suc i) (Suc j) ((pre @ [ht_keys t ! i]) @ post') =
      Some ((pre @ [ht_keys t ! i]) @ map fst (slots_from t (Suc i) n)
              @ drop (length (slots_from t (Suc i) n)) post',
            Suc j + length (slots_from t (Suc i) n))"
      using Suc.prems True post by (intro Suc.IH) (auto simp: slots_from_Suc)
    then show ?thesis using True post i Suc.prems(2) ht_shapeD(8,9) [OF assms(1)]
      by (simp add: slots_from_Suc list_update_append)
  qed
qed

section \<open>Iterators in order\<close>

lemma filter_upt_tail:
  "filter P [a..<b] = j # js \<Longrightarrow> js = filter P [Suc j..<b] \<and> P j \<and> a \<le> j \<and> j < b"
proof (induction "b - a" arbitrary: a)
  case 0
  then show ?case by simp
next
  case (Suc d)
  then have "a < b" by simp
  then have ab: "[a..<b] = a # [Suc a..<b]" by (rule upt_conv_Cons)
  show ?case
  proof (cases "P a")
    case True
    then show ?thesis using Suc.prems ab \<open>a < b\<close> by auto
  next
    case False
    then have "filter P [Suc a..<b] = j # js" using Suc.prems ab by simp
    moreover have "d = b - Suc a" using Suc.hyps(2) by simp
    ultimately show ?thesis using Suc.hyps(1) [of "Suc a"] by simp
  qed
qed

lemma iter_scan_spec:
  assumes "length (ht_hashes t) = ht_size t" "- 1 \<le> p" "p < int (ht_size t)"
  shows "iter_scan t p =
     Some (case filter (\<lambda>j. HASH_IS_REAL (ht_hashes t ! j)) [nat (p + 1)..<ht_size t] of
             [] \<Rightarrow> (int (ht_size t), False) | j # _ \<Rightarrow> (int j, True))"
  using assms
proof (induction t p rule: iter_scan.induct)
  case (1 t p)
  show ?case
  proof (cases "p + 1 \<ge> int (ht_size t)")
    case True
    then show ?thesis using 1 by (simp add: iter_scan.simps [of t p])
  next
    case False
    then have lt: "nat (p + 1) < ht_size t" using 1(3) by linarith
    then have cons: "[nat (p + 1)..<ht_size t] = nat (p + 1) # [nat (p + 1 + 1)..<ht_size t]"
    proof -
      have "Suc (nat (p + 1)) = nat (p + 1 + 1)" using 1(3) by linarith
      then show ?thesis using lt upt_conv_Cons by metis
    qed
    show ?thesis
    proof (cases "HASH_IS_REAL (ht_hashes t ! nat (p + 1))")
      case True
      then show ?thesis using False lt cons 1(2,3) by (simp add: iter_scan.simps [of t p])
    next
      case nr: False
      have "iter_scan t p = iter_scan t (p + 1)"
        using False lt nr 1(2,3) by (simp add: iter_scan.simps [of t p])
      moreover have "iter_scan t (p + 1) =
         Some (case filter (\<lambda>j. HASH_IS_REAL (ht_hashes t ! j)) [nat (p + 1 + 1)..<ht_size t] of
             [] \<Rightarrow> (int (ht_size t), False) | j # _ \<Rightarrow> (int j, True))"
        using False nr 1(2,3) lt by (intro 1(1)) auto
      ultimately show ?thesis using cons nr by simp
    qed
  qed
qed

text \<open>What an iterator still has to visit.\<close>

definition remaining :: "ghash \<Rightarrow> gh_iter \<Rightarrow> (gpointer \<times> gpointer) list" where
  "remaining t ri =
     map (\<lambda>j. (ht_keys t ! j, values_of t ! j))
       (filter (\<lambda>j. HASH_IS_REAL (ht_hashes t ! j)) [nat (it_position ri + 1)..<ht_size t])"

definition iter_ok :: "ghash \<Rightarrow> gh_iter \<Rightarrow> bool" where
  "iter_ok t ri \<longleftrightarrow>
     it_version ri = ht_version t \<and> - 1 \<le> it_position ri \<and> it_position ri < int (ht_size t)"

lemma iter_next_spec:
  assumes sh: "ht_shape t n" and ok: "iter_ok t ri"
  shows "case remaining t ri of
     [] \<Rightarrow> g_hash_table_iter_next t ri = Some (None, ri\<lparr>it_position := int (ht_size t)\<rparr>)
   | e # es \<Rightarrow> (\<exists>j < ht_size t. g_hash_table_iter_next t ri = Some (Some e, ri\<lparr>it_position := int j\<rparr>) \<and>
        HASH_IS_REAL (ht_hashes t ! j) \<and> e = (ht_keys t ! j, values_of t ! j) \<and>
        remaining t (ri\<lparr>it_position := int j\<rparr>) = es)"
proof -
  note d = ht_shapeD(3,7,8,9) [OF sh]
  let ?f = "filter (\<lambda>j. HASH_IS_REAL (ht_hashes t ! j)) [nat (it_position ri + 1)..<ht_size t]"
  have scan: "iter_scan t (it_position ri) =
     Some (case ?f of [] \<Rightarrow> (int (ht_size t), False) | j # _ \<Rightarrow> (int j, True))"
    using ok d by (intro iter_scan_spec) (auto simp: iter_ok_def)
  show ?thesis
  proof (cases ?f)
    case Nil
    then show ?thesis using scan ok
      by (simp add: g_hash_table_iter_next_def iter_ok_def remaining_def)
  next
    case (Cons j js)
    from filter_upt_tail [OF Cons] have j: "js = filter (\<lambda>j. HASH_IS_REAL (ht_hashes t ! j)) [Suc j..<ht_size t]"
      "HASH_IS_REAL (ht_hashes t ! j)" "j < ht_size t" by auto
    have rem: "remaining t ri = (ht_keys t ! j, values_of t ! j) #
        remaining t (ri\<lparr>it_position := int j\<rparr>)"
      using Cons j(1) by (simp add: remaining_def nat_add_distrib)
    have "g_hash_table_iter_next t ri =
        Some (Some (ht_keys t ! j, values_of t ! j), ri\<lparr>it_position := int j\<rparr>)"
      using scan ok Cons j d by (simp add: g_hash_table_iter_next_def iter_ok_def)
    with rem j show ?thesis by auto
  qed
qed

text \<open>\<open>n\<close> calls of \<^verbatim>\<open>g_hash_table_iter_next\<close> in a row.\<close>

fun iter_run :: "nat \<Rightarrow> ghash \<Rightarrow> gh_iter \<Rightarrow> (gpointer \<times> gpointer) option list option" where
  "iter_run 0 t ri = Some []"
| "iter_run (Suc n) t ri =
     do {
       (r, ri') \<leftarrow> g_hash_table_iter_next t ri;
       rs \<leftarrow> iter_run n t ri';
       Some (r # rs)
     }"

lemma iter_run_remaining:
  assumes "ht_shape t n" "iter_ok t ri"
  shows "iter_run (Suc (length (remaining t ri))) t ri = Some (map Some (remaining t ri) @ [None])"
  using assms(2)
proof (induction "remaining t ri" arbitrary: ri)
  case Nil
  then have r: "remaining t ri = []" by simp
  then show ?case using iter_next_spec [OF assms(1) Nil(2)] by simp
next
  case (Cons e es)
  then have r: "remaining t ri = e # es" by simp
  from iter_next_spec [OF assms(1) Cons.prems] r obtain j where
    j: "j < ht_size t" "g_hash_table_iter_next t ri = Some (Some e, ri\<lparr>it_position := int j\<rparr>)"
      "remaining t (ri\<lparr>it_position := int j\<rparr>) = es" by auto
  have "iter_ok t (ri\<lparr>it_position := int j\<rparr>)" using Cons.prems j(1) by (simp add: iter_ok_def)
  from Cons.hyps(1) [OF j(3) [symmetric] this]
  have "iter_run (Suc (length es)) t (ri\<lparr>it_position := int j\<rparr>) = Some (map Some es @ [None])"
    by (simp only: j(3))
  then show ?case unfolding r list.size(4) add_Suc_right add_0_right
    by (subst iter_run.simps(2)) (simp add: j(2) del: iter_run.simps)
qed

section \<open>Removing while walking\<close>

lemma ht_entries_slot:
  "i < ht_size t \<Longrightarrow> HASH_IS_REAL (ht_hashes t ! i) \<Longrightarrow>
   (ht_keys t ! i, values_of t ! i) \<in> ht_entries t"
  unfolding ht_entries_def by blast

lemma key_determines_entry:
  assumes sh: "ht_shape t n" and kf: "key_funcs_ok t"
    and i: "i < ht_size t" "HASH_IS_REAL (ht_hashes t ! i)"
    and e: "e \<in> ht_entries t"
  shows "key_matches t (fst e) (ht_keys t ! i) \<longleftrightarrow> e = (ht_keys t ! i, values_of t ! i)"
proof
  assume m: "key_matches t (fst e) (ht_keys t ! i)"
  from e obtain j where j: "e = (ht_keys t ! j, values_of t ! j)" "j < ht_size t"
    "HASH_IS_REAL (ht_hashes t ! j)" unfolding ht_entries_def by blast
  have "holds t (ht_keys t ! i) j" "holds t (ht_keys t ! i) i"
    using m j i key_funcs_okD(1) [OF kf] by (auto simp: holds_def)
  then have "j = i" using holds_unique [OF sh kf] by blast
  with j show "e = (ht_keys t ! i, values_of t ! i)" by simp
next
  assume "e = (ht_keys t ! i, values_of t ! i)"
  then show "key_matches t (fst e) (ht_keys t ! i)" using key_funcs_okD(1) [OF kf] by simp
qed

abbreviation hit :: "(gpointer \<Rightarrow> gpointer \<Rightarrow> bool) \<Rightarrow> gpointer \<times> gpointer \<Rightarrow> bool" where
  "hit func e \<equiv> func (fst e) (snd e)"

lemma foreach_remove_loop_spec:
  assumes "ht_shape t k" "key_funcs_ok t" "i + n = ht_size t"
  shows "\<exists>t'. foreach_remove_loop func notify n i t d ev =
       Some (d + length (filter (hit func) (slots_from t i n)), t',
             ev @ (if notify then concat (map (\<lambda>(a, b). notify_calls t a b)
                                     (filter (hit func) (slots_from t i n))) else [])) \<and>
     ht_shape t' k \<and> same_config t t' \<and> ht_size t' = ht_size t \<and>
     ht_noccupied t' = ht_noccupied t \<and>
     ht_nnodes t' = ht_nnodes t - int (length (filter (hit func) (slots_from t i n))) \<and>
     ht_entries t' = {e \<in> ht_entries t. \<not> (hit func e \<and> e \<in> set (slots_from t i n))}"
  using assms
proof (induction n arbitrary: i t d ev)
  case 0
  then show ?case by (intro exI [of _ t]) simp
next
  case (Suc n)
  note sh = Suc.prems(1) and kf = Suc.prems(2)
  note len = ht_shapeD(3,7,8,9) [OF sh]
  have i: "i < ht_size t" using Suc.prems(3) by simp
  let ?e = "(ht_keys t ! i, values_of t ! i)"
  show ?case
  proof (cases "HASH_IS_REAL (ht_hashes t ! i) \<and> func (ht_keys t ! i) (values_of t ! i)")
    case False
    have st: "foreach_remove_loop func notify (Suc n) i t d ev =
          foreach_remove_loop func notify n (Suc i) t d ev"
      using False i len by auto
    have fl: "filter (hit func) (slots_from t i (Suc n)) = filter (hit func) (slots_from t (Suc i) n)"
      using False by (simp add: slots_from_Suc)
    have en: "{e \<in> ht_entries t. \<not> (hit func e \<and> e \<in> set (slots_from t i (Suc n)))} =
        {e \<in> ht_entries t. \<not> (hit func e \<and> e \<in> set (slots_from t (Suc i) n))}"
      using False by (auto simp: slots_from_Suc)
    have "Suc i + n = ht_size t" using Suc.prems(3) by simp
    then show ?thesis unfolding st fl en by (rule Suc.IH [OF sh kf])
  next
    case True
    have h: "holds t (ht_keys t ! i) i"
      using True i key_funcs_okD(1) [OF kf] by (simp add: holds_def)
    from remove_node_spec [OF sh kf h, of notify] obtain t1 where
      t1: "g_hash_table_remove_node t i notify =
         Some (t1, if notify then notify_calls t (ht_keys t ! i) (values_of t ! i) else [])"
       "ht_shape t1 k" "ht_noccupied t1 = ht_noccupied t" "ht_size t1 = ht_size t"
       "ht_nnodes t1 = ht_nnodes t - 1" "same_config t t1"
       "\<forall>j. j \<noteq> i \<longrightarrow> ht_hashes t1 ! j = ht_hashes t ! j \<and> ht_keys t1 ! j = ht_keys t ! j \<and>
          values_of t1 ! j = values_of t ! j"
       "ht_entries t1 = {e \<in> ht_entries t. \<not> key_matches t (fst e) (ht_keys t ! i)}"
      by (elim exE conjE) (rule that)
    have same: "slots_from t1 (Suc i) n = slots_from t (Suc i) n"
      using t1(7) by (intro slots_from_cong) auto
    have calls: "notify_calls t1 = notify_calls t"
      using t1(6) by (simp add: notify_calls_def same_config_def fun_eq_iff)
    have kf1: "key_funcs_ok t1" using same_config_key_funcs [OF t1(6) kf] .
    have ent1: "ht_entries t1 = ht_entries t - {?e}"
      using key_determines_entry [OF sh kf i] True t1(8) by auto
    have "Suc i + n = ht_size t1" using Suc.prems(3) t1(4) by simp
    from Suc.IH [OF t1(2) kf1 this, of "Suc d"
        "ev @ (if notify then notify_calls t (ht_keys t ! i) (values_of t ! i) else [])"]
    obtain t' where t': "foreach_remove_loop func notify n (Suc i) t1 (Suc d)
        (ev @ (if notify then notify_calls t (ht_keys t ! i) (values_of t ! i) else [])) =
       Some (Suc d + length (filter (hit func) (slots_from t (Suc i) n)), t',
             (ev @ (if notify then notify_calls t (ht_keys t ! i) (values_of t ! i) else [])) @
             (if notify then concat (map (\<lambda>(a, b). notify_calls t a b)
                                     (filter (hit func) (slots_from t (Suc i) n))) else []))"
      "ht_shape t' k" "same_config t1 t'" "ht_size t' = ht_size t1" "ht_noccupied t' = ht_noccupied t1"
      "ht_nnodes t' = ht_nnodes t1 - int (length (filter (hit func) (slots_from t (Suc i) n)))"
      "ht_entries t' = {e \<in> ht_entries t1. \<not> (hit func e \<and> e \<in> set (slots_from t (Suc i) n))}"
      unfolding same calls by (elim exE conjE) (rule that)
    have flt: "filter (hit func) (slots_from t i (Suc n)) = ?e # filter (hit func) (slots_from t (Suc i) n)"
      using True by (simp add: slots_from_Suc)
    have ent: "ht_entries t' = {e \<in> ht_entries t. \<not> (hit func e \<and> e \<in> set (slots_from t i (Suc n)))}"
    proof -
      have "set (slots_from t i (Suc n)) = insert ?e (set (slots_from t (Suc i) n))"
        using True by (simp add: slots_from_Suc)
      moreover have "hit func ?e" using True by simp
      ultimately show ?thesis unfolding t'(7) ent1 by blast
    qed
    have "foreach_remove_loop func notify (Suc n) i t d ev =
       Some (d + length (filter (hit func) (slots_from t i (Suc n))), t',
             ev @ (if notify then concat (map (\<lambda>(a, b). notify_calls t a b)
                                     (filter (hit func) (slots_from t i (Suc n)))) else []))"
      using True i len t1(1) t'(1) unfolding flt by simp
    then show ?thesis using t' t1 ent flt same_config_trans [OF t1(6) t'(3)]
      by (intro exI [of _ t']) simp
  qed
qed

section \<open>Properties\<close>

text \<open>
  C18: a new iterator, advanced until it reports the end, returns every stored pair
  exactly once, in slot order, and then \<^verbatim>\<open>FALSE\<close>.
\<close>

theorem ghash_iterate:
  assumes "ht_inv t"
  shows "iter_run (nat (ht_nnodes t) + 1) t (g_hash_table_iter_init t) =
     Some (map Some (entry_list t) @ [None]) \<and>
    set (entry_list t) = ht_entries t"
proof (intro conjI)
  from assms obtain n where sh: "ht_shape t n" by (rule ht_invD)
  let ?ri = "g_hash_table_iter_init t"
  have "remaining t ?ri = entry_list t"
    by (simp add: remaining_def entry_list_def g_hash_table_iter_init_def)
  moreover have "iter_ok t ?ri" by (simp add: iter_ok_def g_hash_table_iter_init_def)
  moreover have "nat (ht_nnodes t) = length (entry_list t)"
    using length_entry_list [OF sh] by linarith
  ultimately show "iter_run (nat (ht_nnodes t) + 1) t ?ri = Some (map Some (entry_list t) @ [None])"
    using iter_run_remaining [OF sh, of ?ri] by (simp del: iter_run.simps)
  show "set (entry_list t) = ht_entries t" by (rule set_entry_list)
qed

theorem ghash_iterate_witness:
  "\<exists>t e. ht_map t = [5 \<mapsto> 7] \<and>
     iter_run 2 t (g_hash_table_iter_init t) = Some [Some e, None] \<and> ht_entries t = {e}"
proof -
  obtain t where t: "ht_inv t" "ht_map t = [5 \<mapsto> 7]" "ht_nnodes t = 1" by (rule direct_insert)
  from t(1) obtain n where sh: "ht_shape t n" by (rule ht_invD)
  have "length (entry_list t) = 1" using length_entry_list [OF sh] t(3) by simp
  then obtain e where e: "entry_list t = [e]" by (auto simp: length_Suc_conv)
  have "nat (ht_nnodes t) + 1 = 2" using t(3) by simp
  with ghash_iterate [OF t(1)] t(2) e show ?thesis
    by (intro exI [of _ t] exI [of _ e]) (simp add: numeral_2_eq_2 del: iter_run.simps)
qed

text \<open>
  C19: \<^verbatim>\<open>g_hash_table_iter_remove\<close> and \<^verbatim>\<open>g_hash_table_iter_steal\<close> on the pair the iterator
  stands on remove exactly that pair, keep the invariant, leave the iterator usable
  and do not change what it has still to visit.
\<close>

theorem ghash_iter_remove:
  assumes inv: "ht_inv t" and kf: "key_funcs_ok t" and ok: "iter_ok t ri"
    and nxt: "g_hash_table_iter_next t ri = Some (Some (k, v), ri')"
    and op: "op = (if notify then g_hash_table_iter_remove else g_hash_table_iter_steal)"
  shows "\<exists>t'. op t ri' = Some (t', ri'\<lparr>it_version := it_version ri' + 1\<rparr>,
         if notify then notify_calls t k v else []) \<and>
     ht_inv t' \<and> iter_ok t' (ri'\<lparr>it_version := it_version ri' + 1\<rparr>) \<and>
     ht_entries t' = ht_entries t - {(k, v)} \<and>
     remaining t' (ri'\<lparr>it_version := it_version ri' + 1\<rparr>) = tl (remaining t ri)"
proof -
  from inv obtain n where sh: "ht_shape t n" "ht_noccupied t < int (ht_size t)"
    "ht_nnodes t < 2 ^ 29" "0 < ht_ref_count t" by (rule ht_invD)
  obtain es where r: "remaining t ri = (k, v) # es"
    using iter_next_spec [OF sh(1) ok] nxt by (cases "remaining t ri") auto
  from iter_next_spec [OF sh(1) ok] r nxt obtain j where
    j: "j < ht_size t" "ri' = ri\<lparr>it_position := int j\<rparr>" "HASH_IS_REAL (ht_hashes t ! j)"
      "(k, v) = (ht_keys t ! j, values_of t ! j)" "remaining t ri' = es" by auto
  have h: "holds t (ht_keys t ! j) j" using j key_funcs_okD(1) [OF kf] by (simp add: holds_def)
  from remove_node_spec [OF sh(1) kf h, of notify] obtain t1 where
    t1: "g_hash_table_remove_node t j notify =
       Some (t1, if notify then notify_calls t (ht_keys t ! j) (values_of t ! j) else [])"
     "ht_shape t1 n" "ht_noccupied t1 = ht_noccupied t" "ht_size t1 = ht_size t"
     "ht_nnodes t1 = ht_nnodes t - 1" "same_config t t1" "ht_version t1 = ht_version t"
     "\<forall>i. i \<noteq> j \<longrightarrow> ht_hashes t1 ! i = ht_hashes t ! i \<and> ht_keys t1 ! i = ht_keys t ! i \<and>
        values_of t1 ! i = values_of t ! i"
     "ht_entries t1 = {e \<in> ht_entries t. \<not> key_matches t (fst e) (ht_keys t ! j)}"
    by (elim exE conjE) (rule that)
  let ?t = "t1\<lparr>ht_version := ht_version t1 + 1\<rparr>" and ?ri = "ri'\<lparr>it_version := it_version ri' + 1\<rparr>"
  have "ht_inv ?t"
    using t1 sh by (intro ht_invI [of _ n]) (simp_all add: same_config_def)
  moreover have "ht_entries ?t = ht_entries t - {(k, v)}"
    using key_determines_entry [OF sh(1) kf j(1,3)] t1(9) j(4) by auto
  moreover have "remaining ?t ?ri = es"
    unfolding j(5) [symmetric] remaining_def using t1(4,8) j(2)
    by (auto intro!: map_cong filter_cong)
  moreover have "iter_ok ?t ?ri" using ok j t1(4,7) by (simp add: iter_ok_def)
  moreover have "iter_remove_or_steal t ri' notify =
      Some (?t, ?ri, if notify then notify_calls t k v else [])"
  proof -
    have "iter_valid t ri'" using ok j(1,2) by (simp add: iter_valid_def iter_ok_def)
    moreover have "nat (it_position ri') = j" using j(2) by simp
    ultimately show ?thesis using t1(1) j(4) by (simp add: iter_remove_or_steal_def)
  qed
  moreover have "op t ri' = iter_remove_or_steal t ri' notify"
    using op by (simp add: g_hash_table_iter_remove_def g_hash_table_iter_steal_def)
  ultimately show ?thesis unfolding r list.sel(3)
    by (intro exI [of _ ?t]) (simp only: simp_thms)
qed

theorem ghash_iter_remove_witness:
  "\<exists>t ri' e t' ri''. ht_map t = [5 \<mapsto> 7] \<and>
     g_hash_table_iter_next t (g_hash_table_iter_init t) = Some (Some e, ri') \<and>
     g_hash_table_iter_remove t ri' = Some (t', ri'', []) \<and> ht_entries t' = ht_entries t - {e}"
proof -
  obtain t where t: "ht_inv t" "key_funcs_ok t" "ht_map t = [5 \<mapsto> 7]" "ht_nnodes t = 1"
    "\<not> ht_key_destroy_func t" "\<not> ht_value_destroy_func t" by (rule direct_insert)
  from t(1) obtain n where sh: "ht_shape t n" by (rule ht_invD)
  let ?ri = "g_hash_table_iter_init t"
  have ok: "iter_ok t ?ri" by (simp add: iter_ok_def g_hash_table_iter_init_def)
  have "remaining t ?ri = entry_list t"
    by (simp add: remaining_def entry_list_def g_hash_table_iter_init_def)
  then obtain k v es where "remaining t ?ri = (k, v) # es"
    using length_entry_list [OF sh] t(4) by (cases "entry_list t") auto
  with iter_next_spec [OF sh ok] obtain ri' where
    n: "g_hash_table_iter_next t ?ri = Some (Some (k, v), ri')" by auto
  from ghash_iter_remove [OF t(1,2) ok n, of g_hash_table_iter_remove True] t(5,6)
  show ?thesis using t(3) n by (auto simp: notify_calls_def)
qed

text \<open>
  C20: \<^verbatim>\<open>g_hash_table_foreach_remove\<close> and \<^verbatim>\<open>g_hash_table_foreach_steal\<close> remove exactly the pairs
  that the predicate accepts, return their number, notify in slot order (the former
  only) and keep the invariant.
\<close>

theorem ghash_foreach_remove:
  assumes inv: "ht_inv t" and kf: "key_funcs_ok t"
    and op: "op = (if notify then g_hash_table_foreach_remove else g_hash_table_foreach_steal)"
  shows "\<exists>t'. op t func =
       Some (length (filter (hit func) (entry_list t)), t',
             if notify then concat (map (\<lambda>(k, v). notify_calls t k v)
                              (filter (hit func) (entry_list t))) else []) \<and>
     ht_inv t' \<and> same_config t t' \<and>
     ht_entries t' = {e \<in> ht_entries t. \<not> hit func e}"
proof -
  from inv obtain n where sh: "ht_shape t n" "ht_nnodes t < 2 ^ 29" "0 < ht_ref_count t"
    by (rule ht_invD)
  from foreach_remove_loop_spec [OF sh(1) kf, of 0 "ht_size t" func notify 0 "[]"]
  obtain t1 where t1: "foreach_remove_loop func notify (ht_size t) 0 t 0 [] =
       Some (length (filter (hit func) (entry_list t)), t1,
             if notify then concat (map (\<lambda>(a, b). notify_calls t a b)
                                     (filter (hit func) (entry_list t))) else [])"
     "ht_shape t1 n" "same_config t t1" "ht_nnodes t1 \<le> ht_nnodes t"
     "ht_entries t1 = {e \<in> ht_entries t. \<not> (hit func e \<and> e \<in> set (entry_list t))}"
    by (auto simp: slots_from_all)
  have "ht_nnodes t1 < 2 ^ 29" using t1(4) sh(2) by simp
  from maybe_resize_spec [OF t1(2) this] obtain t2 N where
    t2: "g_hash_table_maybe_resize t1 = Some t2" "ht_shape t2 N"
      "ht_noccupied t2 < int (ht_size t2)" "ht_nnodes t2 = ht_nnodes t1" "same_config t1 t2"
      "ht_entries t2 = ht_entries t1" by (elim exE conjE) (rule that)
  have cfg: "same_config t t2" using same_config_trans [OF t1(3) t2(5)] .
  let ?t = "if length (filter (hit func) (entry_list t)) > 0
            then t2\<lparr>ht_version := ht_version t2 + 1\<rparr> else t2"
  have shp: "ht_shape ?t N" "ht_noccupied ?t < int (ht_size ?t)" "ht_nnodes ?t = ht_nnodes t1"
    "same_config t ?t" "ht_entries ?t = ht_entries t1"
    using t2 cfg by auto
  have "ht_inv ?t"
    using shp t1(4) sh by (intro ht_invI [OF shp(1,2)]) (simp_all add: same_config_def)
  moreover have "ht_entries ?t = {e \<in> ht_entries t. \<not> hit func e}"
    using shp(5) t1(5) set_entry_list [of t] by auto
  moreover have "g_hash_table_foreach_remove_or_steal t func notify =
       Some (length (filter (hit func) (entry_list t)), ?t,
             if notify then concat (map (\<lambda>(k, v). notify_calls t k v)
                              (filter (hit func) (entry_list t))) else [])"
    using t1(1) t2(1) by (simp add: g_hash_table_foreach_remove_or_steal_def)
  ultimately show ?thesis using op shp(4)
    by (intro exI [of _ ?t])
      (auto simp: g_hash_table_foreach_remove_def g_hash_table_foreach_steal_def)
qed

theorem ghash_foreach_remove_witness:
  "\<exists>t t'. ht_map t = [5 \<mapsto> 7] \<and>
     g_hash_table_foreach_steal t (\<lambda>k v. True) = Some (1, t', []) \<and> ht_entries t' = {}"
proof -
  obtain t where t: "ht_inv t" "key_funcs_ok t" "ht_map t = [5 \<mapsto> 7]" "ht_nnodes t = 1"
    by (rule direct_insert)
  from t(1) obtain n where sh: "ht_shape t n" by (rule ht_invD)
  have "length (entry_list t) = 1" using length_entry_list [OF sh] t(4) by simp
  with ghash_foreach_remove [OF t(1,2), of g_hash_table_foreach_steal False "\<lambda>k v. True"] t(3)
  show ?thesis by auto
qed

text \<open>
  C21: the read-only walks see the stored pairs in slot order: \<^verbatim>\<open>foreach\<close> applies the
  visitor to each of them, \<^verbatim>\<open>find\<close> returns the value of the first one accepted (or NULL),
  the list builders return them in reverse, and \<^verbatim>\<open>get_keys_as_array\<close> passes its assertion,
  stays inside the array it allocates and ends it with NULL.
\<close>

theorem ghash_walks:
  assumes "ht_inv t"
  shows "g_hash_table_foreach t func s = Some (fold (\<lambda>(k, v). func k v) (entry_list t) s) \<and>
    g_hash_table_find t p =
       Some (case List.find (\<lambda>(k, v). p k v) (entry_list t) of None \<Rightarrow> NULL | Some (k, v) \<Rightarrow> v) \<and>
    g_hash_table_get_keys t = Some (rev (map fst (entry_list t))) \<and>
    g_hash_table_get_values t = Some (rev (map snd (entry_list t))) \<and>
    g_hash_table_get_keys_as_array t =
       Some (map fst (entry_list t) @ [NULL], length (entry_list t))"
proof (intro conjI)
  from assms obtain n where sh: "ht_shape t n" by (rule ht_invD)
  show "g_hash_table_foreach t func s = Some (fold (\<lambda>(k, v). func k v) (entry_list t) s)"
    using foreach_loop_fold [OF sh, of 0 "ht_size t"] by (simp add: g_hash_table_foreach_def slots_from_all)
  show "g_hash_table_find t p =
       Some (case List.find (\<lambda>(k, v). p k v) (entry_list t) of None \<Rightarrow> NULL | Some (k, v) \<Rightarrow> v)"
    using find_loop_find [OF sh, of 0 "ht_size t"] by (simp add: g_hash_table_find_def slots_from_all)
  show "g_hash_table_get_keys t = Some (rev (map fst (entry_list t)))"
    "g_hash_table_get_values t = Some (rev (map snd (entry_list t)))"
    using prepend_loop_rev [OF sh, of 0 "ht_size t"]
    by (simp_all add: g_hash_table_get_keys_def g_hash_table_get_values_def slots_from_all)
  have len: "ht_nnodes t = int (length (entry_list t))" using length_entry_list [OF sh] by simp
  let ?l = "length (entry_list t)"
  have nl: "nat (ht_nnodes t + 1) = Suc ?l" using len by simp
  have "keys_array_loop t (ht_size t) 0 0 ([] @ replicate (Suc ?l) NULL) =
      Some ([] @ map fst (entry_list t) @ drop ?l (replicate (Suc ?l) NULL), 0 + ?l)"
    unfolding slots_from_all [symmetric] by (intro keys_array_loop_spec [OF sh]) simp_all
  then have loop: "keys_array_loop t (ht_size t) 0 0 (replicate (nat (ht_nnodes t + 1)) NULL) =
      Some (map fst (entry_list t) @ [NULL], ?l)"
    unfolding nl drop_replicate by simp
  have "arr_set (map fst (entry_list t) @ [NULL]) ?l NULL = Some (map fst (entry_list t) @ [NULL])"
    by (simp add: list_update_append)
  with loop len show "g_hash_table_get_keys_as_array t =
       Some (map fst (entry_list t) @ [NULL], length (entry_list t))"
    by (simp add: g_hash_table_get_keys_as_array_def)
qed

theorem ghash_walks_witness:
  "\<exists>t k. ht_map t = [5 \<mapsto> 7] \<and> g_hash_table_get_keys t = Some [k] \<and>
     g_hash_table_get_keys_as_array t = Some ([k, NULL], 1) \<and>
     g_hash_table_foreach t (\<lambda>k v n. n + 1) 0 = Some (1 :: nat)"
proof -
  obtain t where t: "ht_inv t" "ht_map t = [5 \<mapsto> 7]" "ht_nnodes t = 1" by (rule direct_insert)
  from t(1) obtain n where sh: "ht_shape t n" by (rule ht_invD)
  have "length (entry_list t) = 1" using length_entry_list [OF sh] t(3) by simp
  then obtain k v where "entry_list t = [(k, v)]" by (auto simp: length_Suc_conv)
  with ghash_walks [OF t(1), of "\<lambda>k v n. n + 1" "0 :: nat"] t(2) show ?thesis
    by (intro exI [of _ t] exI [of _ k]) simp
qed

text \<open>
  \<^verbatim>\<open>g_str_hash\<close> computes the recurrence \<open>hash * 33 + c\<close> from 5381 over the signed
  bytes modulo \<open>2 ^ 32\<close>, and each hash function supplied with the table agrees with its
  equality function, so that a table created with such a pair is consistent.
\<close>

theorem ghash_hash_functions:
  "g_str_hash strs v = fold (\<lambda>c h. h * 33 + scast c) (strs v) 5381 \<and>
   ((hf, eq) \<in> {(g_str_hash strs, g_str_equal strs), (g_int_hash ints, g_int_equal ints),
      (g_int64_hash longs, g_int64_equal longs), (g_direct_hash, g_direct_equal)} \<longrightarrow>
   (\<exists>t. g_hash_table_new (Some hf) (Some eq) = Some t \<and> ht_inv t \<and> key_funcs_ok t))"
proof (intro conjI impI)
  have "str_hash_loop h cs = fold (\<lambda>c h. h * 33 + scast c) cs h" for h cs
    by (induction h cs rule: str_hash_loop.induct) (simp_all add: push_bit_eq_mult algebra_simps)
  then show "g_str_hash strs v = fold (\<lambda>c h. h * 33 + scast c) (strs v) 5381"
    by (simp add: g_str_hash_def)
next
  assume "(hf, eq) \<in> {(g_str_hash strs, g_str_equal strs), (g_int_hash ints, g_int_equal ints),
      (g_int64_hash longs, g_int64_equal longs), (g_direct_hash, g_direct_equal)}"
  then have he: "equivp eq \<and> (\<forall>a b. eq a b \<longrightarrow> hf a = hf b)"
    by (auto simp: g_str_hash_def g_str_equal_def g_int_hash_def g_int_equal_def
        g_int64_hash_def g_int64_equal_def g_direct_equal_def fun_eq_iff
        intro!: equivpI reflpI sympI transpI)
  from new_full_spec [of "Some hf" "Some eq" False False] obtain t where
    t: "g_hash_table_new_full (Some hf) (Some eq) False False = Some t" "ht_inv t"
      "ht_key_equal_func t = Some eq" "ht_hash_func t = hf" by auto
  have "key_matches t = eq" using t(3) by (simp add: key_matches_def fun_eq_iff)
  with t he show "\<exists>t. g_hash_table_new (Some hf) (Some eq) = Some t \<and> ht_inv t \<and> key_funcs_ok t"
    by (auto simp: g_hash_table_new_def key_funcs_ok_def)
qed

theorem ghash_hash_functions_witness:
  "g_str_hash (\<lambda>_. [97, 98]) 0 = (5381 * 33 + 97) * 33 + 98 \<and>
   (\<exists>t. g_hash_table_new (Some g_direct_hash) (Some g_direct_equal) = Some t \<and> key_funcs_ok t)"
  using ghash_hash_functions
    [of "\<lambda>_. [97, 98]" 0 g_direct_hash g_direct_equal "\<lambda>_. 0" "\<lambda>_. 0"]
  by auto

end
