(* ===== verification/DrmMM.thy ===== *)
theory DrmMM
  imports Prelude
begin

text \<open>
  The DRM range allocator (\<^verbatim>\<open>src/gfx_drm_mm/drm_mm.c\<close> and \<^verbatim>\<open>drm_mm.h\<close>).

  A \<^verbatim>\<open>struct drm_mm_node\<close> is addressed by a number, its pointer; \<^verbatim>\<open>mm_nodes\<close> is the memory
  holding the node structures, and 0 is \<^verbatim>\<open>&mm->head_node\<close>.  The circular list through
  \<^verbatim>\<open>node_list\<close> is the list of its members after the head, the list through
  \<^verbatim>\<open>hole_stack\<close> the list of its members from the top.  What the C code can see of the
  links of a node that is on no list is kept in the node: \<^verbatim>\<open>nd_prev\<close> and \<^verbatim>\<open>nd_next\<close> hold
  the two pointers that the scan stores in an unlinked \<^verbatim>\<open>node_list\<close>, and \<^verbatim>\<open>nd_hole_link\<close>
  tells a linked \<^verbatim>\<open>hole_stack\<close> from one that points to itself and from one that
  \<^verbatim>\<open>list_del\<close> has poisoned.  A \<^verbatim>\<open>BUG_ON\<close> that fires, and following a poisoned or missing
  link, is \<^verbatim>\<open>None\<close>.  \<^verbatim>\<open>color_adjust\<close> is a callback of the driver and is a component of
  the allocator state; it may read the nodes and the node list.
\<close>

section \<open>State\<close>

type_synonym ulong = "64 word"

datatype list_link = Linked | Self | Poisoned

record mm_node =
  nd_hole_link :: list_link
  nd_prev :: nat
  nd_next :: "nat option"
  nd_hole_follows :: bool
  nd_scanned_block :: bool
  nd_scanned_prev_free :: bool
  nd_scanned_next_free :: bool
  nd_scanned_preceeds_hole :: bool
  nd_allocated :: bool
  nd_color :: ulong
  nd_start :: ulong
  nd_size :: ulong

type_synonym color_fn =
  "(nat \<Rightarrow> mm_node) \<Rightarrow> nat list \<Rightarrow> nat \<Rightarrow> ulong \<Rightarrow> ulong \<times> ulong \<Rightarrow> ulong \<times> ulong"

record drm_mm =
  mm_nodes :: "nat \<Rightarrow> mm_node"
  mm_node_list :: "nat list"
  mm_hole_stack :: "nat list"
  mm_scan_check_range :: bool
  mm_scan_alignment :: "32 word"
  mm_scan_color :: ulong
  mm_scan_size :: ulong
  mm_scan_hit_start :: ulong
  mm_scan_hit_end :: ulong
  mm_scanned_blocks :: "32 word"
  mm_scan_start :: ulong
  mm_scan_end :: ulong
  mm_prev_scanned_node :: "nat option"
  mm_color_adjust :: "color_fn option"

abbreviation mm_ring :: "drm_mm \<Rightarrow> nat list" where
  "mm_ring m \<equiv> 0 # mm_node_list m"

definition upd_node :: "nat \<Rightarrow> (mm_node \<Rightarrow> mm_node) \<Rightarrow> drm_mm \<Rightarrow> drm_mm" where
  "upd_node x f m = m\<lparr>mm_nodes := (mm_nodes m)(x := f (mm_nodes m x))\<rparr>"

section \<open>Kernel lists\<close>

text \<open>
  The successor on the circular list (of the last member: the head 0), the predecessor
  of a member, and insertion behind a member of the ring.
\<close>

fun next_link :: "nat list \<Rightarrow> nat \<Rightarrow> nat option" where
  "next_link [] x = None"
| "next_link (y # ys) x =
     (if x = y then Some (case ys of [] \<Rightarrow> 0 | z # _ \<Rightarrow> z) else next_link ys x)"

fun prev_link :: "nat \<Rightarrow> nat list \<Rightarrow> nat \<Rightarrow> nat option" where
  "prev_link p [] x = None"
| "prev_link p (y # ys) x = (if x = y then Some p else prev_link y ys x)"

fun insert_after :: "nat \<Rightarrow> nat \<Rightarrow> nat list \<Rightarrow> nat list option" where
  "insert_after h x [] = None"
| "insert_after h x (y # ys) =
     (if y = h then Some (y # x # ys) else map_option ((#) y) (insert_after h x ys))"

definition node_list_add :: "nat \<Rightarrow> nat \<Rightarrow> drm_mm \<Rightarrow> drm_mm option" where
  "node_list_add x h m =
     map_option (\<lambda>r. m\<lparr>mm_node_list := tl r\<rparr>) (insert_after h x (mm_ring m))"

definition hole_stack_add :: "nat \<Rightarrow> drm_mm \<Rightarrow> drm_mm" where
  "hole_stack_add x m = upd_node x (\<lambda>n. n\<lparr>nd_hole_link := Linked\<rparr>)
     (m\<lparr>mm_hole_stack := x # mm_hole_stack m\<rparr>)"

definition hole_stack_unlink :: "nat \<Rightarrow> list_link \<Rightarrow> drm_mm \<Rightarrow> drm_mm option" where
  "hole_stack_unlink x l m =
     (if nd_hole_link (mm_nodes m x) = Poisoned then None
      else Some (upd_node x (\<lambda>n. n\<lparr>nd_hole_link := l\<rparr>)
             (m\<lparr>mm_hole_stack := remove1 x (mm_hole_stack m)\<rparr>)))"

abbreviation hole_stack_del :: "nat \<Rightarrow> drm_mm \<Rightarrow> drm_mm option" where
  "hole_stack_del x \<equiv> hole_stack_unlink x Poisoned"

abbreviation hole_stack_del_init :: "nat \<Rightarrow> drm_mm \<Rightarrow> drm_mm option" where
  "hole_stack_del_init x \<equiv> hole_stack_unlink x Self"

section \<open>Holes\<close>

definition hole_node_start' :: "drm_mm \<Rightarrow> nat \<Rightarrow> ulong" where
  "hole_node_start' m x = nd_start (mm_nodes m x) + nd_size (mm_nodes m x)"

definition drm_mm_hole_node_start :: "drm_mm \<Rightarrow> nat \<Rightarrow> ulong option" where
  "drm_mm_hole_node_start m x =
     (if nd_hole_follows (mm_nodes m x) then Some (hole_node_start' m x) else None)"

definition drm_mm_hole_node_end :: "drm_mm \<Rightarrow> nat \<Rightarrow> ulong option" where
  "drm_mm_hole_node_end m x =
     map_option (\<lambda>y. nd_start (mm_nodes m y)) (next_link (mm_ring m) x)"

definition align_up :: "32 word \<Rightarrow> ulong \<Rightarrow> ulong" where
  "align_up alignment start =
     (if alignment \<noteq> 0 then
        let tmp = ucast (start mod ucast alignment) :: 32 word in
        if tmp \<noteq> 0 then start + ucast (alignment - tmp) else start
      else start)"

definition check_free_hole :: "ulong \<Rightarrow> ulong \<Rightarrow> ulong \<Rightarrow> 32 word \<Rightarrow> bool" where
  "check_free_hole start end' sz alignment =
     (if end' - start < sz then False
      else end' \<ge> align_up alignment start + sz)"

definition color_adjusted :: "drm_mm \<Rightarrow> nat \<Rightarrow> ulong \<Rightarrow> ulong \<times> ulong \<Rightarrow> ulong \<times> ulong" where
  "color_adjusted m x color r =
     (case mm_color_adjust m of None \<Rightarrow> r
      | Some f \<Rightarrow> f (mm_nodes m) (mm_node_list m) x color r)"

definition range_clip :: "ulong \<Rightarrow> ulong \<Rightarrow> ulong \<times> ulong \<Rightarrow> ulong \<times> ulong" where
  "range_clip start end' r =
     (if fst r < start then start else fst r, if snd r > end' then end' else snd r)"

section \<open>Searching a hole\<close>

text \<open>
  The loops of the two search functions differ in the range restriction only; \<^verbatim>\<open>clip\<close>
  is that restriction.
\<close>

fun search_loop :: "drm_mm \<Rightarrow> (ulong \<times> ulong \<Rightarrow> ulong \<times> ulong) \<Rightarrow> ulong \<Rightarrow> 32 word \<Rightarrow> ulong \<Rightarrow> bool \<Rightarrow>
    nat list \<Rightarrow> nat option \<Rightarrow> ulong \<Rightarrow> nat option option" where
  "search_loop m clip sz alignment color best_match [] best best_size = Some best"
| "search_loop m clip sz alignment color best_match (entry # es) best best_size =
     do { hole_start \<leftarrow> drm_mm_hole_node_start m entry;
          hole_end \<leftarrow> drm_mm_hole_node_end m entry;
          let (adj_start, adj_end) = color_adjusted m entry color (clip (hole_start, hole_end));
          if mm_color_adjust m \<noteq> None \<and> adj_end \<le> adj_start then
            search_loop m clip sz alignment color best_match es best best_size
          else if \<not> check_free_hole adj_start adj_end sz alignment then
            search_loop m clip sz alignment color best_match es best best_size
          else if \<not> best_match then Some (Some entry)
          else if nd_size (mm_nodes m entry) < best_size then
            search_loop m clip sz alignment color best_match es
              (Some entry) (nd_size (mm_nodes m entry))
          else search_loop m clip sz alignment color best_match es best best_size }"

definition drm_mm_search_free_generic ::
  "drm_mm \<Rightarrow> ulong \<Rightarrow> 32 word \<Rightarrow> ulong \<Rightarrow> bool \<Rightarrow> nat option option" where
  "drm_mm_search_free_generic m sz alignment color best_match =
     (if mm_scanned_blocks m \<noteq> 0 then None
      else search_loop m (\<lambda>r. r) sz alignment color best_match (mm_hole_stack m) None (- 1))"

definition drm_mm_search_free_in_range_generic ::
  "drm_mm \<Rightarrow> ulong \<Rightarrow> 32 word \<Rightarrow> ulong \<Rightarrow> ulong \<Rightarrow> ulong \<Rightarrow> bool \<Rightarrow> nat option option" where
  "drm_mm_search_free_in_range_generic m sz alignment color start end' best_match =
     (if mm_scanned_blocks m \<noteq> 0 then None
      else search_loop m (range_clip start end') sz alignment color best_match
             (mm_hole_stack m) None (- 1))"

definition drm_mm_search_free :: "drm_mm \<Rightarrow> ulong \<Rightarrow> 32 word \<Rightarrow> bool \<Rightarrow> nat option option" where
  "drm_mm_search_free m sz alignment best_match =
     drm_mm_search_free_generic m sz alignment 0 best_match"

definition drm_mm_search_free_in_range ::
  "drm_mm \<Rightarrow> ulong \<Rightarrow> 32 word \<Rightarrow> ulong \<Rightarrow> ulong \<Rightarrow> bool \<Rightarrow> nat option option" where
  "drm_mm_search_free_in_range m sz alignment start end' best_match =
     drm_mm_search_free_in_range_generic m sz alignment 0 start end' best_match"

section \<open>Inserting and removing nodes\<close>

definition place_node ::
  "nat \<Rightarrow> nat \<Rightarrow> ulong \<Rightarrow> ulong \<Rightarrow> ulong \<Rightarrow> ulong \<Rightarrow> ulong \<Rightarrow> ulong \<Rightarrow> drm_mm \<Rightarrow> drm_mm option" where
  "place_node hole_node node sz color adj_start adj_end hole_start hole_end m =
     do { m1 \<leftarrow> (if adj_start = hole_start then
                 hole_stack_del hole_node
                   (upd_node hole_node (\<lambda>n. n\<lparr>nd_hole_follows := False\<rparr>) m)
               else Some m);
          let m2 = upd_node node (\<lambda>n. n\<lparr>nd_start := adj_start, nd_size := sz,
                     nd_color := color, nd_allocated := True, nd_hole_link := Self\<rparr>) m1;
          m3 \<leftarrow> node_list_add node hole_node m2;
          if adj_start + sz > adj_end then None
          else do {
            let m4 = upd_node node (\<lambda>n. n\<lparr>nd_hole_follows := False\<rparr>) m3;
            if hole_node_start' m4 node < hole_end then
              Some (upd_node node (\<lambda>n. n\<lparr>nd_hole_follows := True\<rparr>) (hole_stack_add node m4))
            else Some m4 } }"

definition drm_mm_insert_helper ::
  "nat \<Rightarrow> nat \<Rightarrow> ulong \<Rightarrow> 32 word \<Rightarrow> ulong \<Rightarrow> drm_mm \<Rightarrow> drm_mm option" where
  "drm_mm_insert_helper hole_node node sz alignment color m =
     do { hole_start \<leftarrow> drm_mm_hole_node_start m hole_node;
          hole_end \<leftarrow> drm_mm_hole_node_end m hole_node;
          if nd_allocated (mm_nodes m node) then None
          else do {
            let (adj_start, adj_end) = color_adjusted m hole_node color (hole_start, hole_end);
            place_node hole_node node sz color (align_up alignment adj_start) adj_end
              hole_start hole_end m } }"

definition drm_mm_insert_helper_range ::
  "nat \<Rightarrow> nat \<Rightarrow> ulong \<Rightarrow> 32 word \<Rightarrow> ulong \<Rightarrow> ulong \<Rightarrow> ulong \<Rightarrow> drm_mm \<Rightarrow> drm_mm option" where
  "drm_mm_insert_helper_range hole_node node sz alignment color start end' m =
     do { hole_start \<leftarrow> drm_mm_hole_node_start m hole_node;
          hole_end \<leftarrow> drm_mm_hole_node_end m hole_node;
          if \<not> nd_hole_follows (mm_nodes m hole_node) \<or> nd_allocated (mm_nodes m node) then None
          else do {
            let (adj_start, adj_end) =
              color_adjusted m hole_node color (range_clip start end' (hole_start, hole_end));
            m' \<leftarrow> place_node hole_node node sz color (align_up alignment adj_start) adj_end
              hole_start hole_end m;
            if align_up alignment adj_start + sz > end' then None else Some m' } }"

definition ENOSPC :: int where
  "ENOSPC = 28"

definition drm_mm_insert_node_generic ::
  "nat \<Rightarrow> ulong \<Rightarrow> 32 word \<Rightarrow> ulong \<Rightarrow> bool \<Rightarrow> drm_mm \<Rightarrow> (int \<times> drm_mm) option" where
  "drm_mm_insert_node_generic node sz alignment color best_match m =
     do { hole \<leftarrow> drm_mm_search_free_generic m sz alignment color best_match;
          case hole of
            None \<Rightarrow> Some (- ENOSPC, m)
          | Some hole_node \<Rightarrow>
              map_option (Pair 0) (drm_mm_insert_helper hole_node node sz alignment color m) }"

definition drm_mm_insert_node_in_range_generic ::
  "nat \<Rightarrow> ulong \<Rightarrow> 32 word \<Rightarrow> ulong \<Rightarrow> ulong \<Rightarrow> ulong \<Rightarrow> bool \<Rightarrow> drm_mm \<Rightarrow> (int \<times> drm_mm) option" where
  "drm_mm_insert_node_in_range_generic node sz alignment color start end' best_match m =
     do { hole \<leftarrow> drm_mm_search_free_in_range_generic m sz alignment color start end' best_match;
          case hole of
            None \<Rightarrow> Some (- ENOSPC, m)
          | Some hole_node \<Rightarrow>
              map_option (Pair 0)
                (drm_mm_insert_helper_range hole_node node sz alignment color start end' m) }"

fun reserve_loop :: "nat \<Rightarrow> ulong \<Rightarrow> nat list \<Rightarrow> drm_mm \<Rightarrow> (int \<times> drm_mm) option" where
  "reserve_loop node end' [] m = Some (- ENOSPC, m)"
| "reserve_loop node end' (hole # hs) m =
     do { hole_start \<leftarrow> drm_mm_hole_node_start m hole;
          hole_end \<leftarrow> drm_mm_hole_node_end m hole;
          if hole_start > nd_start (mm_nodes m node) \<or> hole_end < end' then reserve_loop node end' hs m
          else do {
            let m1 = upd_node node (\<lambda>n. n\<lparr>nd_allocated := True, nd_hole_link := Self\<rparr>) m;
            m2 \<leftarrow> node_list_add node hole m1;
            m3 \<leftarrow> (if nd_start (mm_nodes m node) = hole_start then
                    hole_stack_del_init hole (upd_node hole (\<lambda>n. n\<lparr>nd_hole_follows := False\<rparr>) m2)
                  else Some m2);
            let m4 = upd_node node (\<lambda>n. n\<lparr>nd_hole_follows := False\<rparr>) m3;
            Some (0, if end' \<noteq> hole_end
                     then upd_node node (\<lambda>n. n\<lparr>nd_hole_follows := True\<rparr>) (hole_stack_add node m4)
                     else m4) } }"

definition drm_mm_reserve_node :: "nat \<Rightarrow> drm_mm \<Rightarrow> (int \<times> drm_mm) option" where
  "drm_mm_reserve_node node m =
     reserve_loop node (nd_start (mm_nodes m node) + nd_size (mm_nodes m node)) (mm_hole_stack m) m"

definition drm_mm_remove_node :: "nat \<Rightarrow> drm_mm \<Rightarrow> drm_mm option" where
  "drm_mm_remove_node node m =
     (let n = mm_nodes m node in
      if \<not> nd_allocated n then Some m
      else if nd_scanned_block n \<or> nd_scanned_prev_free n \<or> nd_scanned_next_free n then None
      else do {
        prev_node \<leftarrow> prev_link 0 (mm_node_list m) node;
        hole_end \<leftarrow> drm_mm_hole_node_end m node;
        m1 \<leftarrow> (if nd_hole_follows n then
                if hole_node_start' m node = hole_end then None else hole_stack_del node m
              else if hole_node_start' m node \<noteq> hole_end then None else Some m);
        m2 \<leftarrow> (if \<not> nd_hole_follows (mm_nodes m1 prev_node) then
                Some (hole_stack_add prev_node
                  (upd_node prev_node (\<lambda>n. n\<lparr>nd_hole_follows := True\<rparr>) m1))
              else map_option (hole_stack_add prev_node) (hole_stack_del prev_node m1));
        Some (upd_node node (\<lambda>n. n\<lparr>nd_allocated := False\<rparr>)
                (m2\<lparr>mm_node_list := remove1 node (mm_node_list m2)\<rparr>)) })"

definition list_replace :: "nat \<Rightarrow> nat \<Rightarrow> nat list \<Rightarrow> nat list" where
  "list_replace old new = map (\<lambda>x. if x = old then new else x)"

definition drm_mm_replace_node :: "nat \<Rightarrow> nat \<Rightarrow> drm_mm \<Rightarrow> drm_mm option" where
  "drm_mm_replace_node old new m =
     (let n = mm_nodes m old in
      if old \<notin> set (mm_node_list m) \<or> nd_hole_link n = Poisoned then None
      else Some (upd_node new (\<lambda>k. k\<lparr>nd_hole_link := nd_hole_link n,
               nd_hole_follows := nd_hole_follows n, nd_start := nd_start n,
               nd_size := nd_size n, nd_color := nd_color n, nd_allocated := True\<rparr>)
             (upd_node old (\<lambda>k. k\<lparr>nd_allocated := False\<rparr>)
               (m\<lparr>mm_node_list := list_replace old new (mm_node_list m),
                  mm_hole_stack := list_replace old new (mm_hole_stack m)\<rparr>))))"

section \<open>Scanning for evictable nodes\<close>

definition drm_mm_init_scan :: "ulong \<Rightarrow> 32 word \<Rightarrow> ulong \<Rightarrow> drm_mm \<Rightarrow> drm_mm" where
  "drm_mm_init_scan sz alignment color m =
     m\<lparr>mm_scan_color := color, mm_scan_alignment := alignment, mm_scan_size := sz,
       mm_scanned_blocks := 0, mm_scan_hit_start := 0, mm_scan_hit_end := 0,
       mm_scan_check_range := False, mm_prev_scanned_node := None\<rparr>"

definition drm_mm_init_scan_with_range ::
  "ulong \<Rightarrow> 32 word \<Rightarrow> ulong \<Rightarrow> ulong \<Rightarrow> ulong \<Rightarrow> drm_mm \<Rightarrow> drm_mm" where
  "drm_mm_init_scan_with_range sz alignment color start end' m =
     m\<lparr>mm_scan_color := color, mm_scan_alignment := alignment, mm_scan_size := sz,
       mm_scanned_blocks := 0, mm_scan_hit_start := 0, mm_scan_hit_end := 0,
       mm_scan_start := start, mm_scan_end := end',
       mm_scan_check_range := True, mm_prev_scanned_node := None\<rparr>"

definition scan_unlink :: "nat \<Rightarrow> nat \<Rightarrow> drm_mm \<Rightarrow> drm_mm" where
  "scan_unlink node prev_node m =
     (let m1 = upd_node node (\<lambda>n. n\<lparr>nd_scanned_block := True,
                 nd_scanned_preceeds_hole := nd_hole_follows (mm_nodes m prev_node)\<rparr>) m;
          m2 = upd_node prev_node (\<lambda>n. n\<lparr>nd_hole_follows := True\<rparr>) m1;
          m3 = upd_node node (\<lambda>n. n\<lparr>nd_prev := prev_node, nd_next := mm_prev_scanned_node m\<rparr>)
                 (m2\<lparr>mm_node_list := remove1 node (mm_node_list m2)\<rparr>)
      in m3\<lparr>mm_prev_scanned_node := Some node\<rparr>)"

definition scan_bounds :: "drm_mm \<Rightarrow> nat \<Rightarrow> ulong \<times> ulong \<Rightarrow> ulong \<times> ulong" where
  "scan_bounds m prev_node r =
     color_adjusted m prev_node (mm_scan_color m)
       (if mm_scan_check_range m then range_clip (mm_scan_start m) (mm_scan_end m) r else r)"

definition drm_mm_scan_add_block :: "nat \<Rightarrow> drm_mm \<Rightarrow> (bool \<times> drm_mm) option" where
  "drm_mm_scan_add_block node m =
     (if nd_scanned_block (mm_nodes m node) then None
      else do {
        prev_node \<leftarrow> prev_link 0 (mm_node_list m) node;
        let m1 = scan_unlink node prev_node (m\<lparr>mm_scanned_blocks := mm_scanned_blocks m + 1\<rparr>);
        hole_start \<leftarrow> drm_mm_hole_node_start m1 prev_node;
        hole_end \<leftarrow> drm_mm_hole_node_end m1 prev_node;
        let (adj_start, adj_end) = scan_bounds m1 prev_node (hole_start, hole_end);
        if check_free_hole adj_start adj_end (mm_scan_size m1) (mm_scan_alignment m1) then
          Some (True, m1\<lparr>mm_scan_hit_start := hole_start, mm_scan_hit_end := hole_end\<rparr>)
        else Some (False, m1) })"

definition drm_mm_scan_remove_block :: "nat \<Rightarrow> drm_mm \<Rightarrow> (bool \<times> drm_mm) option" where
  "drm_mm_scan_remove_block node m =
     (if \<not> nd_scanned_block (mm_nodes m node) then None
      else do {
        let m1 = upd_node node (\<lambda>n. n\<lparr>nd_scanned_block := False\<rparr>)
                   (m\<lparr>mm_scanned_blocks := mm_scanned_blocks m - 1\<rparr>);
        let prev_node = nd_prev (mm_nodes m node);
        let m2 = upd_node prev_node
                   (\<lambda>n. n\<lparr>nd_hole_follows := nd_scanned_preceeds_hole (mm_nodes m node)\<rparr>) m1;
        m3 \<leftarrow> node_list_add node prev_node m2;
        hole_end \<leftarrow> drm_mm_hole_node_end m3 node;
        Some (hole_end > mm_scan_hit_start m3 \<and>
              nd_start (mm_nodes m3 node) < mm_scan_hit_end m3, m3) })"

section \<open>Set-up and reporting\<close>

definition drm_mm_clean :: "drm_mm \<Rightarrow> bool" where
  "drm_mm_clean m =
     (case next_link (mm_ring m) 0 of None \<Rightarrow> False
      | Some x \<Rightarrow> next_link (mm_ring m) x = Some 0)"

definition drm_mm_init :: "ulong \<Rightarrow> ulong \<Rightarrow> drm_mm \<Rightarrow> drm_mm" where
  "drm_mm_init start sz m =
     m\<lparr>mm_nodes := (mm_nodes m)(0 := (mm_nodes m 0)\<lparr>nd_hole_follows := True,
           nd_scanned_block := False, nd_scanned_prev_free := False,
           nd_scanned_next_free := False, nd_start := start + sz,
           nd_size := start - (start + sz), nd_hole_link := Linked\<rparr>),
       mm_node_list := [], mm_hole_stack := [0], mm_scanned_blocks := 0,
       mm_color_adjust := None\<rparr>"

definition drm_mm_takedown :: "drm_mm \<Rightarrow> bool" where
  "drm_mm_takedown m = (mm_node_list m \<noteq> [])"

datatype table_line =
    Free_line ulong ulong ulong
  | Used_line ulong ulong ulong
  | Total_line ulong ulong ulong

definition drm_mm_debug_hole :: "drm_mm \<Rightarrow> nat \<Rightarrow> (ulong \<times> table_line list) option" where
  "drm_mm_debug_hole m entry =
     (if nd_hole_follows (mm_nodes m entry) then
        do { hole_start \<leftarrow> drm_mm_hole_node_start m entry;
             hole_end \<leftarrow> drm_mm_hole_node_end m entry;
             let hole_size = hole_end - hole_start;
             Some (hole_size, [Free_line hole_start hole_end hole_size]) }
      else Some (0, []))"

fun debug_loop :: "drm_mm \<Rightarrow> nat list \<Rightarrow> ulong \<Rightarrow> ulong \<Rightarrow> table_line list \<Rightarrow>
    (ulong \<times> ulong \<times> table_line list) option" where
  "debug_loop m [] total_used total_free out = Some (total_used, total_free, out)"
| "debug_loop m (entry # es) total_used total_free out =
     (let n = mm_nodes m entry in
      do { (h, l) \<leftarrow> drm_mm_debug_hole m entry;
           debug_loop m es (total_used + nd_size n) (total_free + h)
             (out @ Used_line (nd_start n) (nd_start n + nd_size n) (nd_size n) # l) })"

definition drm_mm_debug_table :: "drm_mm \<Rightarrow> table_line list option" where
  "drm_mm_debug_table m =
     do { (h, l) \<leftarrow> drm_mm_debug_hole m 0;
          (total_used, total_free, out) \<leftarrow> debug_loop m (mm_node_list m) 0 h l;
          Some (out @ [Total_line (total_free + total_used) total_used total_free]) }"

end
