(* ===== verification/DrmMM_Props.thy ===== *)
theory DrmMM_Props
  imports DrmMM Interfaces
begin

text \<open>
  The invariant of the range allocator and the lemmas its operations rest on: the
  address order of the node list, the arithmetic of \<^verbatim>\<open>check_free_hole\<close>, and what the two
  search functions return.  Addresses are read as natural numbers; \<^verbatim>\<open>addr_ok\<close> bounds
  them by \<^verbatim>\<open>2 ^ 62\<close>, which is where the unsigned arithmetic of the code cannot wrap.
\<close>

section \<open>Kernel lists\<close>

lemma next_link_app: "distinct (as @ x # bs) \<Longrightarrow>
  next_link (as @ x # bs) x = Some (case bs of [] \<Rightarrow> 0 | z # _ \<Rightarrow> z)"
  by (induction as) auto

lemma next_link_None: "x \<notin> set xs \<Longrightarrow> next_link xs x = None"
  by (induction xs) auto

lemma prev_link_app: "x \<notin> set as \<Longrightarrow> prev_link p (as @ x # bs) x = Some (last (p # as))"
  by (induction as arbitrary: p) auto

lemma prev_link_None: "x \<notin> set xs \<Longrightarrow> prev_link p xs x = None"
  by (induction xs arbitrary: p) auto

lemma insert_after_app: "h \<notin> set as \<Longrightarrow>
  insert_after h x (as @ h # bs) = Some (as @ h # x # bs)"
  by (induction as) auto

lemma ring_split:
  assumes "h \<in> set (mm_ring m)" "distinct (mm_ring m)"
  obtains as bs where "mm_ring m = as @ h # bs" "h \<notin> set as" "h \<notin> set bs"
proof -
  from split_list [OF assms(1)] obtain as bs where s: "mm_ring m = as @ h # bs" by blast
  with assms(2) have "distinct (as @ h # bs)" by metis
  with s that show thesis by simp
qed

lemma ring_unique:
  assumes "mm_ring m = as @ h # bs" "mm_ring m = as' @ h # bs'" "distinct (mm_ring m)"
  shows "as' = as \<and> bs' = bs"
proof -
  have "distinct (as @ h # bs)" "distinct (as' @ h # bs')" using assms by metis+
  then have "h \<notin> set as" "h \<notin> set as'" "h \<notin> set bs'" "h \<notin> set bs" by simp_all
  moreover have "as' @ h # bs' = as @ h # bs" using assms(1,2) by metis
  ultimately show ?thesis by (metis append_Cons_eq_iff)
qed

lemma ring_prev:
  assumes "x \<in> set (mm_node_list m)" "distinct (mm_ring m)"
  obtains as p bs where "mm_ring m = as @ p # x # bs" "mm_node_list m = tl (as @ [p]) @ x # bs"
    "prev_link 0 (mm_node_list m) x = Some p"
proof -
  from split_list [OF assms(1)] obtain cs bs where s: "mm_node_list m = cs @ x # bs" by blast
  have "x \<notin> set cs" using assms(2) s by simp
  then have "prev_link 0 (mm_node_list m) x = Some (last (0 # cs))"
    unfolding s by (rule prev_link_app)
  moreover have "0 # cs = butlast (0 # cs) @ [last (0 # cs)]" by (rule append_butlast_last_id [symmetric]) simp
  moreover from this have "mm_ring m = butlast (0 # cs) @ last (0 # cs) # x # bs"
    using s by (metis append.assoc append_Cons append_Nil)
  moreover have "mm_node_list m = tl (butlast (0 # cs) @ [last (0 # cs)]) @ x # bs"
    using s by (metis append_butlast_last_id list.sel(3) list.simps(3))
  ultimately show thesis using that by blast
qed

section \<open>Address order\<close>

definition seg :: "(nat \<Rightarrow> mm_node) \<Rightarrow> nat \<Rightarrow> ulong \<Rightarrow> bool" where
  "seg f x a = (nd_start (f x) + nd_size (f x) \<le> a \<and>
     nd_hole_follows (f x) = (nd_start (f x) + nd_size (f x) \<noteq> a))"

definition next_start :: "(nat \<Rightarrow> mm_node) \<Rightarrow> nat list \<Rightarrow> ulong \<Rightarrow> ulong" where
  "next_start f xs hi = (case xs of [] \<Rightarrow> hi | y # _ \<Rightarrow> nd_start (f y))"

fun chain :: "(nat \<Rightarrow> mm_node) \<Rightarrow> nat list \<Rightarrow> ulong \<Rightarrow> bool" where
  "chain f [] hi = True"
| "chain f (x # xs) hi = (seg f x (next_start f xs hi) \<and> chain f xs hi)"

lemma next_start_simps [simp]:
  "next_start f [] hi = hi" "next_start f (y # ys) hi = nd_start (f y)"
  by (simp_all add: next_start_def)

lemma next_start_app: "next_start f (xs @ ys) hi = next_start f xs (next_start f ys hi)"
  by (cases xs) auto

lemma chain_app: "chain f (as @ bs) hi = (chain f as (next_start f bs hi) \<and> chain f bs hi)"
  by (induction as) (auto simp: next_start_app)

definition same_place :: "mm_node \<Rightarrow> mm_node \<Rightarrow> bool" where
  "same_place a b = (nd_start a = nd_start b \<and> nd_size a = nd_size b \<and>
     nd_hole_follows a = nd_hole_follows b)"

lemma next_start_cong:
  "(\<And>x. x \<in> set xs \<Longrightarrow> nd_start (f x) = nd_start (g x)) \<Longrightarrow> next_start f xs hi = next_start g xs hi"
  by (cases xs) auto

lemma chain_cong:
  "(\<And>x. x \<in> set xs \<Longrightarrow> same_place (f x) (g x)) \<Longrightarrow> chain f xs hi = chain g xs hi"
proof (induction xs)
  case (Cons x xs)
  have "next_start f xs hi = next_start g xs hi"
    by (rule next_start_cong) (use Cons.prems in \<open>auto simp: same_place_def\<close>)
  with Cons show ?case by (auto simp: seg_def same_place_def)
qed simp

definition node_end :: "(nat \<Rightarrow> mm_node) \<Rightarrow> nat \<Rightarrow> ulong" where
  "node_end f x = nd_start (f x) + nd_size (f x)"

lemma chain_bounds:
  assumes "chain f (x # xs) hi" "\<forall>y\<in>set xs. nd_start (f y) \<le> node_end f y"
  shows "node_end f x \<le> hi \<and> (\<forall>y\<in>set xs. node_end f x \<le> nd_start (f y) \<and> node_end f y \<le> hi)"
  using assms
proof (induction xs arbitrary: x)
  case (Cons y ys)
  then have "node_end f x \<le> nd_start (f y)" by (simp add: seg_def node_end_def)
  moreover have "nd_start (f y) \<le> node_end f y" using Cons.prems by simp
  moreover have "node_end f y \<le> hi \<and> (\<forall>z\<in>set ys. node_end f y \<le> nd_start (f z) \<and> node_end f z \<le> hi)"
    using Cons.prems by (intro Cons.IH) auto
  ultimately show ?case by (auto intro: order_trans)
qed (simp add: seg_def node_end_def)

lemma chain_sorted:
  assumes "chain f xs hi" "\<forall>y\<in>set (tl xs). nd_start (f y) \<le> node_end f y"
  shows "sorted_wrt (\<lambda>x y. node_end f x \<le> nd_start (f y)) xs"
  using assms
proof (induction xs)
  case (Cons x xs)
  have "\<forall>y\<in>set xs. node_end f x \<le> nd_start (f y)"
    using chain_bounds [OF Cons.prems(1)] Cons.prems(2) by simp
  moreover have "\<forall>y\<in>set (tl xs). nd_start (f y) \<le> node_end f y"
    using Cons.prems(2) by (cases xs) auto
  ultimately show ?case using Cons by simp
qed simp

section \<open>Alignment and the size test\<close>

definition aligned :: "32 word \<Rightarrow> nat \<Rightarrow> bool" where
  "aligned al a = (al = 0 \<or> unat al dvd a)"

lemma align_up_0 [simp]: "align_up 0 s = s"
  by (simp add: align_up_def)

lemma unat_ucast_32_64: "unat (ucast (w :: 32 word) :: ulong) = unat w"
proof -
  have "unat w < 2 ^ 64" by (rule less_le_trans [OF unsigned_less]) simp
  then show ?thesis by (simp add: unsigned_ucast_eq take_bit_nat_eq_self_iff)
qed

lemma align_up_nat:
  assumes "unat s \<le> 2 ^ 62" "al \<noteq> 0"
  shows "unat (align_up al s) =
    unat s + (if unat s mod unat al = 0 then 0 else unat al - unat s mod unat al)"
proof -
  let ?d = "unat al" and ?tmp = "ucast (s mod ucast al) :: 32 word"
  have d: "0 < ?d" "?d < 2 ^ 32" using assms(2) unsigned_less [of al] by (auto simp: unat_gt_0)
  have al64: "unat (ucast al :: ulong) = ?d" by (rule unat_ucast_32_64)
  have r: "unat s mod ?d < ?d" using d(1) by simp
  have "unat (s mod ucast al) = unat s mod ?d" by (simp only: unat_mod_distrib al64)
  then have tmp: "unat ?tmp = unat s mod ?d"
    using r d(2) by (simp add: unsigned_ucast_eq take_bit_nat_eq_self_iff)
  have "?tmp \<le> al" using tmp r by (simp add: word_le_nat_alt)
  then have sub: "unat (ucast (al - ?tmp) :: ulong) = ?d - unat s mod ?d"
    by (simp add: unat_ucast_32_64 unat_sub tmp)
  have "unat s + (?d - unat s mod ?d) < 2 ^ 64" using assms(1) d(2) by simp
  then have "unat (s + ucast (al - ?tmp)) = unat s + (?d - unat s mod ?d)"
    using sub by (simp add: unat_plus_if')
  moreover have "(?tmp = 0) = (unat s mod ?d = 0)" using tmp by (simp add: unat_eq_0 [symmetric] del: unat_eq_0)
  ultimately show ?thesis using assms(2) by (simp add: align_up_def Let_def)
qed

lemma align_up_least:
  assumes "unat s \<le> 2 ^ 62"
  shows "unat s \<le> unat (align_up al s)" "aligned al (unat (align_up al s))"
    "unat (align_up al s) < unat s + 2 ^ 32"
    "\<And>a. unat s \<le> a \<Longrightarrow> aligned al a \<Longrightarrow> unat (align_up al s) \<le> a"
proof -
  let ?d = "unat al" and ?r = "unat s mod unat al"
  have d32: "?d < 2 ^ 32" using unsigned_less [of al] by simp
  show "unat s \<le> unat (align_up al s)"
    by (cases "al = 0") (simp_all add: align_up_nat [OF assms])
  show "unat (align_up al s) < unat s + 2 ^ 32"
    using d32 by (cases "al = 0") (auto simp: align_up_nat [OF assms])
  have up: "unat s + (?d - ?r) = (unat s div ?d + 1) * ?d" if "al \<noteq> 0"
  proof -
    have "?r \<le> ?d" using that by (simp add: unat_gt_0 mod_le_divisor)
    moreover have "unat s div ?d * ?d + ?r = unat s" by (rule div_mult_mod_eq)
    ultimately have "unat s + (?d - ?r) = unat s div ?d * ?d + ?d" by linarith
    then show ?thesis by simp
  qed
  show "aligned al (unat (align_up al s))"
  proof (cases "al = 0 \<or> ?r = 0")
    case True
    then show ?thesis
      by (cases "al = 0") (auto simp: aligned_def align_up_nat [OF assms])
  next
    case False
    then have "unat (align_up al s) = (unat s div ?d + 1) * ?d" using up by (simp add: align_up_nat [OF assms])
    then show ?thesis unfolding aligned_def by (metis dvd_triv_right)
  qed
  fix a assume a: "unat s \<le> a" "aligned al a"
  show "unat (align_up al s) \<le> a"
  proof (cases "al = 0 \<or> ?r = 0")
    case True
    then show ?thesis using a(1) by (cases "al = 0") (auto simp: align_up_nat [OF assms])
  next
    case False
    then obtain k where k: "a = ?d * k" using a(2) by (auto simp: aligned_def)
    have "unat s \<noteq> ?d * k" using False by auto
    then have "unat s < k * ?d" using a(1) k by (simp add: mult.commute)
    then have "unat s div ?d < k" by (rule less_mult_imp_div_less)
    then have "(unat s div ?d + 1) * ?d \<le> k * ?d" by (intro mult_le_mono1) simp
    then show ?thesis using up False k by (simp add: align_up_nat [OF assms] mult.commute)
  qed
qed

lemma check_free_hole_iff:
  assumes "unat s \<le> 2 ^ 62" "unat e \<le> 2 ^ 62" "unat z \<le> 2 ^ 62"
  shows "check_free_hole s e z al = (unat (align_up al s) + unat z \<le> unat e)"
proof -
  note a = align_up_least [OF assms(1), where al = al]
  have sum: "unat (align_up al s + z) = unat (align_up al s) + unat z"
    using a(3) assms by (simp add: unat_plus_if')
  have "\<not> e - s < z" if "unat (align_up al s) + unat z \<le> unat e"
  proof -
    have "s \<le> e" using that a(1) by (simp add: word_le_nat_alt)
    then show ?thesis using that a(1) by (simp add: word_less_nat_alt unat_sub)
  qed
  then show ?thesis using sum by (auto simp: check_free_hole_def word_le_nat_alt)
qed

lemma check_free_hole_ex:
  assumes "unat s \<le> 2 ^ 62" "unat e \<le> 2 ^ 62" "unat z \<le> 2 ^ 62"
  shows "check_free_hole s e z al = (\<exists>a. aligned al a \<and> unat s \<le> a \<and> a + unat z \<le> unat e)"
  using align_up_least [OF assms(1), where al = al]
  by (auto simp: check_free_hole_iff [OF assms]) (meson add_le_mono1 order_trans)

section \<open>Invariant\<close>

abbreviation mm_hi :: "drm_mm \<Rightarrow> ulong" where
  "mm_hi m \<equiv> nd_start (mm_nodes m 0)"

definition node_sound :: "mm_node \<Rightarrow> bool" where
  "node_sound n = (nd_start n \<le> nd_start n + nd_size n \<and> nd_size n \<noteq> 0 \<and> nd_allocated n \<and>
     \<not> nd_scanned_block n \<and> \<not> nd_scanned_prev_free n \<and> \<not> nd_scanned_next_free n)"

definition holes_ok :: "drm_mm \<Rightarrow> bool" where
  "holes_ok m = (distinct (mm_hole_stack m) \<and>
     set (mm_hole_stack m) = {x \<in> set (mm_ring m). nd_hole_follows (mm_nodes m x)} \<and>
     (\<forall>x\<in>set (mm_ring m). (nd_hole_link (mm_nodes m x) = Linked) = nd_hole_follows (mm_nodes m x)))"

definition mm_ok :: "drm_mm \<Rightarrow> bool" where
  "mm_ok m = (distinct (mm_ring m) \<and> chain (mm_nodes m) (mm_ring m) (mm_hi m) \<and>
     (\<forall>x\<in>set (mm_node_list m). node_sound (mm_nodes m x)) \<and> holes_ok m)"

definition mm_blocks :: "drm_mm \<Rightarrow> nat \<rightharpoonup> nat \<times> nat" where
  "mm_blocks m x = (if x \<in> set (mm_node_list m)
     then Some (unat (nd_start (mm_nodes m x)), unat (nd_size (mm_nodes m x))) else None)"

definition mm_span :: "drm_mm \<Rightarrow> nat \<times> nat" where
  "mm_span m = (unat (hole_node_start' m 0), unat (mm_hi m))"

lemma mm_okD:
  assumes "mm_ok m"
  shows "distinct (mm_ring m)" "chain (mm_nodes m) (mm_ring m) (mm_hi m)"
    "\<And>x. x \<in> set (mm_node_list m) \<Longrightarrow> node_sound (mm_nodes m x)" "holes_ok m"
  using assms by (auto simp: mm_ok_def)

lemma holes_okD:
  assumes "holes_ok m"
  shows "distinct (mm_hole_stack m)"
    "set (mm_hole_stack m) = {x \<in> set (mm_ring m). nd_hole_follows (mm_nodes m x)}"
    "\<And>x. x \<in> set (mm_ring m) \<Longrightarrow>
       (nd_hole_link (mm_nodes m x) = Linked) = nd_hole_follows (mm_nodes m x)"
  using assms unfolding holes_ok_def by blast+

lemma sound_end:
  "node_sound (mm_nodes m x) \<Longrightarrow> unat (node_end (mm_nodes m) x) =
     unat (nd_start (mm_nodes m x)) + unat (nd_size (mm_nodes m x))"
  by (simp add: node_sound_def node_end_def unat_plus_simple)

lemma ring_sorted:
  assumes "mm_ok m"
  shows "sorted_wrt (\<lambda>x y. node_end (mm_nodes m) x \<le> nd_start (mm_nodes m y)) (mm_ring m)"
  by (rule chain_sorted [OF mm_okD(2) [OF assms]])
    (use mm_okD(3) [OF assms] in \<open>auto simp: node_sound_def node_end_def\<close>)

lemma ring_bounds:
  assumes "mm_ok m"
  shows "node_end (mm_nodes m) 0 \<le> mm_hi m"
    "x \<in> set (mm_node_list m) \<Longrightarrow> node_end (mm_nodes m) 0 \<le> nd_start (mm_nodes m x)"
    "x \<in> set (mm_node_list m) \<Longrightarrow> node_end (mm_nodes m) x \<le> mm_hi m"
  using chain_bounds [OF mm_okD(2) [OF assms]] mm_okD(3) [OF assms]
  by (auto simp: node_sound_def node_end_def)

lemma hole_end_split:
  assumes "mm_ring m = as @ x # bs" "distinct (mm_ring m)"
  shows "drm_mm_hole_node_end m x = Some (next_start (mm_nodes m) bs (mm_hi m))"
proof -
  have "next_link (mm_ring m) x = Some (case bs of [] \<Rightarrow> 0 | z # _ \<Rightarrow> z)"
    using next_link_app assms by metis
  then show ?thesis by (cases bs) (simp_all add: drm_mm_hole_node_end_def del: next_link.simps)
qed

lemma hole_at:
  assumes "mm_ok m" "mm_ring m = as @ x # bs"
  shows "node_end (mm_nodes m) x \<le> next_start (mm_nodes m) bs (mm_hi m)"
    "nd_hole_follows (mm_nodes m x) =
       (node_end (mm_nodes m) x \<noteq> next_start (mm_nodes m) bs (mm_hi m))"
    "next_start (mm_nodes m) bs (mm_hi m) \<le> mm_hi m"
proof -
  have "chain (mm_nodes m) (as @ x # bs) (mm_hi m)" using mm_okD(2) [OF assms(1)] assms(2) by metis
  then show "node_end (mm_nodes m) x \<le> next_start (mm_nodes m) bs (mm_hi m)"
    "nd_hole_follows (mm_nodes m x) =
       (node_end (mm_nodes m) x \<noteq> next_start (mm_nodes m) bs (mm_hi m))"
    by (auto simp: chain_app seg_def node_end_def)
  show "next_start (mm_nodes m) bs (mm_hi m) \<le> mm_hi m"
  proof (cases bs)
    case (Cons y ys)
    have "y \<in> set (mm_node_list m)"
      using assms(2) Cons by (cases as) auto
    then show ?thesis using Cons ring_bounds(3) [OF assms(1)] mm_okD(3) [OF assms(1)]
      by (force simp: node_sound_def node_end_def)
  qed simp
qed

lemma mm_ok_apart:
  assumes "mm_ok m"
  shows "blocks_apart (mm_span m) (mm_blocks m)"
proof -
  have "a + z \<le> s \<or> s + w \<le> a"
    if "mm_blocks m x = Some (a, z)" "mm_blocks m y = Some (s, w)" "x \<noteq> y" for x y a z s w
  proof -
    have xy: "x \<in> set (mm_node_list m)" "y \<in> set (mm_node_list m)"
      using that by (auto simp: mm_blocks_def split: if_splits)
    have "node_end (mm_nodes m) x \<le> nd_start (mm_nodes m y) \<or>
        node_end (mm_nodes m) y \<le> nd_start (mm_nodes m x)"
      using sorted_wrt_total [OF ring_sorted [OF assms]] xy that(3) by simp
    then show ?thesis using that(1,2) xy sound_end [OF mm_okD(3) [OF assms xy(1)]]
        sound_end [OF mm_okD(3) [OF assms xy(2)]]
      by (auto simp: mm_blocks_def word_le_nat_alt)
  qed
  moreover have "fst (mm_span m) \<le> a \<and> a + z \<le> snd (mm_span m)"
    if "mm_blocks m x = Some (a, z)" for x a z
  proof -
    have x: "x \<in> set (mm_node_list m)" using that by (auto simp: mm_blocks_def split: if_splits)
    show ?thesis using ring_bounds(2,3) [OF assms x] sound_end [OF mm_okD(3) [OF assms x]] that x
      by (auto simp: mm_blocks_def mm_span_def hole_node_start'_def node_end_def word_le_nat_alt)
  qed
  ultimately show ?thesis by (fastforce simp: blocks_apart_def vacant_def split: if_splits)
qed

end
