(* ===== verification/DrmMM_Ops.thy ===== *)
theory DrmMM_Ops
  imports DrmMM_Props
begin

text \<open>
  What the search functions return and what inserting, reserving, removing and
  replacing a node do to the invariant and to the map of allocated blocks.
\<close>

section \<open>Vacant space and holes\<close>

lemma vacant_in_chain:
  assumes "unat (node_end f x) \<le> a" "a + z \<le> unat hi"
    "\<forall>y\<in>set xs. a + z \<le> unat (nd_start (f y)) \<or> unat (node_end f y) \<le> a"
  shows "\<exists>as y bs. x # xs = as @ y # bs \<and> unat (node_end f y) \<le> a \<and>
    a + z \<le> unat (next_start f bs hi)"
  using assms
proof (induction xs arbitrary: x)
  case Nil
  then show ?case by (intro exI [of _ "[]"] exI [of _ x]) simp
next
  case (Cons y ys)
  show ?case
  proof (cases "a + z \<le> unat (nd_start (f y))")
    case True
    with Cons.prems show ?thesis
      by (intro exI [of _ "[]"] exI [of _ x] exI [of _ "y # ys"]) simp
  next
    case False
    then have "\<exists>as w bs. y # ys = as @ w # bs \<and> unat (node_end f w) \<le> a \<and>
        a + z \<le> unat (next_start f bs hi)"
      using Cons.prems by (intro Cons.IH) auto
    then obtain as w bs where "y # ys = as @ w # bs" "unat (node_end f w) \<le> a"
      "a + z \<le> unat (next_start f bs hi)" by blast
    then show ?thesis by (intro exI [of _ "x # as"] exI [of _ w] exI [of _ bs]) simp
  qed
qed

lemma vacant_hole:
  assumes ok: "mm_ok m" and v: "vacant (mm_span m) (mm_blocks m) a z"
  obtains as x bs where "mm_ring m = as @ x # bs" "unat (node_end (mm_nodes m) x) \<le> a"
    "a + z \<le> unat (next_start (mm_nodes m) bs (mm_hi m))"
proof -
  have "a + z \<le> unat (nd_start (mm_nodes m y)) \<or> unat (node_end (mm_nodes m) y) \<le> a"
    if "y \<in> set (mm_node_list m)" for y
    using v that sound_end [OF mm_okD(3) [OF ok that]]
    by (auto simp: vacant_def mm_blocks_def dest: spec [of _ y])
  then show thesis
    using vacant_in_chain [of "mm_nodes m" 0 a z "mm_hi m" "mm_node_list m"] v that
    by (auto simp: vacant_def mm_span_def hole_node_start'_def node_end_def)
qed

lemma hole_vacant:
  assumes ok: "mm_ok m" and r: "mm_ring m = as @ x # bs"
    and a: "unat (node_end (mm_nodes m) x) \<le> a"
    and z: "a + z \<le> unat (next_start (mm_nodes m) bs (mm_hi m))"
  shows "vacant (mm_span m) (mm_blocks m) a z"
proof -
  let ?f = "mm_nodes m"
  have srt: "sorted_wrt (\<lambda>x y. node_end ?f x \<le> nd_start (?f y)) (as @ x # bs)"
    using ring_sorted [OF ok] r by metis
  have sep: "a + z \<le> unat (nd_start (?f y)) \<or> unat (node_end ?f y) \<le> a"
    if y: "y \<in> set (mm_node_list m)" for y
  proof -
    have sy: "unat (nd_start (?f y)) \<le> unat (node_end ?f y)"
      using mm_okD(3) [OF ok y] by (simp add: node_sound_def node_end_def word_le_nat_alt)
    have "y \<in> set (as @ x # bs)" using y r by (metis list.set_intros(2))
    then consider "y \<in> set as" | "y = x" | "y \<in> set bs" by auto
    then show ?thesis
    proof cases
      case 1
      then have ax: "unat (node_end ?f y) \<le> unat (nd_start (?f x))"
        using srt by (auto simp: sorted_wrt_append word_le_nat_alt)
      have "x \<in> set (mm_node_list m)" using 1 r mm_okD(1) [OF ok] by (cases as) auto
      then have "unat (nd_start (?f x)) \<le> unat (node_end ?f x)"
        using mm_okD(3) [OF ok] by (simp add: node_sound_def node_end_def word_le_nat_alt)
      with ax a show ?thesis by linarith
    next
      case 3
      have "unat (next_start ?f bs (mm_hi m)) \<le> unat (nd_start (?f y))"
      proof (cases bs)
        case (Cons b cs)
        have b: "b \<in> set (mm_node_list m)" using r Cons by (cases as) auto
        have "node_end ?f b \<le> nd_start (?f y) \<or> y = b" using 3 Cons srt by (auto simp: sorted_wrt_append)
        then show ?thesis using Cons mm_okD(3) [OF ok b]
          by (auto simp: node_sound_def node_end_def word_le_nat_alt)
      qed (use 3 in simp)
      with z show ?thesis by linarith
    qed (use a in simp)
  qed
  have apart: "a + z \<le> s \<or> s + w \<le> a" if "mm_blocks m y = Some (s, w)" for y s w
    using that sep [of y] sound_end [OF mm_okD(3) [OF ok, of y]] by (auto simp: mm_blocks_def split: if_splits)
  have "node_end ?f 0 \<le> node_end ?f x"
  proof (cases as)
    case (Cons b cs)
    then have x: "x \<in> set (mm_node_list m)" using r by auto
    then show ?thesis using ring_bounds(2) [OF ok x] mm_okD(3) [OF ok x]
      by (auto simp: node_sound_def node_end_def)
  qed (use r in simp)
  then show ?thesis using apart a z hole_at(3) [OF ok r]
    by (auto simp: vacant_def mm_span_def hole_node_start'_def node_end_def word_le_nat_alt)
qed

section \<open>Searching\<close>

definition hole_fits :: "drm_mm \<Rightarrow> ulong \<Rightarrow> ulong \<Rightarrow> ulong \<Rightarrow> 32 word \<Rightarrow> ulong \<Rightarrow> nat \<Rightarrow> bool" where
  "hole_fits m rs re z al color x =
     (case (drm_mm_hole_node_start m x, drm_mm_hole_node_end m x) of
        (Some hs, Some he) \<Rightarrow>
          (case color_adjusted m x color (range_clip rs re (hs, he)) of
             (s, e) \<Rightarrow> (mm_color_adjust m = None \<or> s < e) \<and> check_free_hole s e z al)
      | _ \<Rightarrow> False)"

lemma search_loop_spec:
  assumes "\<forall>x\<in>set xs. drm_mm_hole_node_start m x \<noteq> None \<and> drm_mm_hole_node_end m x \<noteq> None"
    "bm \<longrightarrow> (\<forall>x\<in>set xs. nd_size (mm_nodes m x) \<noteq> - 1)" "best = None \<longrightarrow> bsz = - 1"
  shows "\<exists>r. search_loop m (range_clip rs re) z al color bm xs best bsz = Some r \<and>
    (case r of None \<Rightarrow> best = None \<and> (\<forall>x\<in>set xs. \<not> hole_fits m rs re z al color x)
     | Some y \<Rightarrow> best = Some y \<or> y \<in> set xs \<and> hole_fits m rs re z al color y)"
  using assms
proof (induction xs arbitrary: best bsz)
  case (Cons x xs)
  from Cons.prems(1) obtain hs he where h: "drm_mm_hole_node_start m x = Some hs"
    "drm_mm_hole_node_end m x = Some he" by auto
  obtain s e where se: "color_adjusted m x color (range_clip rs re (hs, he)) = (s, e)" by fastforce
  have fits: "hole_fits m rs re z al color x =
      ((mm_color_adjust m = None \<or> s < e) \<and> check_free_hole s e z al)"
    using h se by (simp add: hole_fits_def)
  have lt: "bm \<Longrightarrow> nd_size (mm_nodes m x) < - 1"
    using Cons.prems(2) by (simp add: word_order.not_eq_extremum)
  have IH: "\<exists>r. search_loop m (range_clip rs re) z al color bm xs b c = Some r \<and>
    (case r of None \<Rightarrow> b = None \<and> (\<forall>x\<in>set xs. \<not> hole_fits m rs re z al color x)
     | Some y \<Rightarrow> b = Some y \<or> y \<in> set xs \<and> hole_fits m rs re z al color y)"
    if "b = None \<longrightarrow> c = - 1" for b c
    using Cons.prems that by (intro Cons.IH) auto
  show ?case
  proof (cases "hole_fits m rs re z al color x")
    case False
    then have "search_loop m (range_clip rs re) z al color bm (x # xs) best bsz =
        search_loop m (range_clip rs re) z al color bm xs best bsz"
      using h se fits by (auto simp: not_less)
    with IH [OF Cons.prems(3)] False show ?thesis by (fastforce split: option.splits)
  next
    case True
    then have "search_loop m (range_clip rs re) z al color bm (x # xs) best bsz =
        (if \<not> bm then Some (Some x) else if nd_size (mm_nodes m x) < bsz
         then search_loop m (range_clip rs re) z al color bm xs (Some x) (nd_size (mm_nodes m x))
         else search_loop m (range_clip rs re) z al color bm xs best bsz)"
      using h se fits by (auto simp: not_less)
    with IH [of "Some x" "nd_size (mm_nodes m x)"] IH [OF Cons.prems(3)] True lt Cons.prems(3)
    show ?thesis by (fastforce split: option.splits)
  qed
qed (auto split: option.split)

section \<open>Linking a node into a hole\<close>

definition same_but_hole :: "mm_node \<Rightarrow> mm_node \<Rightarrow> bool" where
  "same_but_hole n n' = (n' = n\<lparr>nd_hole_link := nd_hole_link n', nd_hole_follows := nd_hole_follows n'\<rparr>)"

lemma same_but_holeD:
  assumes "same_but_hole n n'"
  shows "nd_start n' = nd_start n" "nd_size n' = nd_size n" "node_sound n' = node_sound n"
    "nd_allocated n' = nd_allocated n"
  using assms by (cases n; cases n'; simp add: same_but_hole_def node_sound_def)+

definition mm_frame :: "drm_mm \<Rightarrow> nat \<Rightarrow> drm_mm \<Rightarrow> bool" where
  "mm_frame m x m' = ((\<forall>y. y \<noteq> x \<longrightarrow> same_but_hole (mm_nodes m y) (mm_nodes m' y)) \<and>
     mm_scanned_blocks m' = mm_scanned_blocks m \<and> mm_color_adjust m' = mm_color_adjust m)"

lemma mm_frame_span: "mm_frame m x m' \<Longrightarrow> x \<noteq> 0 \<Longrightarrow> mm_span m' = mm_span m"
  using same_but_holeD [of "mm_nodes m 0" "mm_nodes m' 0"]
  by (simp add: mm_frame_def mm_span_def hole_node_start'_def)

lemma insert_ok:
  assumes ok: "mm_ok m" and r: "mm_ring m = as @ h # bs" and x: "x \<notin> set (mm_ring m)"
    and r': "mm_ring m' = as @ h # x # bs"
    and fr: "mm_frame m x m'" and same: "\<forall>y. y \<noteq> x \<longrightarrow> y \<noteq> h \<longrightarrow> mm_nodes m' y = mm_nodes m y"
    and nx: "nd_start (mm_nodes m' x) = a" "nd_size (mm_nodes m' x) = z" "node_sound (mm_nodes m' x)"
    and pos: "node_end (mm_nodes m) h \<le> a" "a + z \<le> next_start (mm_nodes m) bs (mm_hi m)"
    and fol: "nd_hole_follows (mm_nodes m' h) = (node_end (mm_nodes m) h \<noteq> a)"
      "nd_hole_follows (mm_nodes m' x) = (a + z \<noteq> next_start (mm_nodes m) bs (mm_hi m))"
    and hst: "distinct (mm_hole_stack m')"
      "set (mm_hole_stack m') = set (mm_hole_stack m) - {h} \<union>
         {y. (y = h \<or> y = x) \<and> nd_hole_follows (mm_nodes m' y)}"
    and lnk: "\<forall>y\<in>{h, x}. (nd_hole_link (mm_nodes m' y) = Linked) = nd_hole_follows (mm_nodes m' y)"
  shows "mm_ok m' \<and> mm_blocks m' = (mm_blocks m)(x \<mapsto> (unat a, unat z))"
proof -
  let ?f = "mm_nodes m" and ?g = "mm_nodes m'"
  have d: "distinct (as @ h # bs)" using mm_okD(1) [OF ok] r by metis
  have sh: "same_but_hole (?f y) (?g y)" if "y \<noteq> x" for y using fr that by (simp add: mm_frame_def)
  have x0: "x \<noteq> 0" "x \<noteq> h" "x \<notin> set as" "x \<notin> set bs" using x r by (metis list.set_intros, auto)
  have hi: "mm_hi m' = mm_hi m" using same_but_holeD(1) [OF sh] x0(1) by simp
  have ns: "next_start ?g bs (mm_hi m) = next_start ?f bs (mm_hi m)"
    by (rule next_start_cong) (metis same_but_holeD(1) sh x0(4))
  have "chain ?f (as @ h # bs) (mm_hi m)" using mm_okD(2) [OF ok] r by metis
  then have "chain ?f as (nd_start (?f h))" "chain ?f bs (mm_hi m)" by (simp_all add: chain_app)
  moreover have "chain ?f as (nd_start (?f h)) = chain ?g as (nd_start (?f h))"
    by (rule chain_cong) (use same d x0 in \<open>auto simp: same_place_def\<close>)
  moreover have "chain ?f bs (mm_hi m) = chain ?g bs (mm_hi m)"
    by (rule chain_cong) (use same d x0 in \<open>auto simp: same_place_def\<close>)
  ultimately have ch: "chain ?g (as @ h # x # bs) (mm_hi m)"
    using pos fol nx same_but_holeD(1,2) [OF sh [of h]] x0(2) ns
    by (simp add: chain_app seg_def node_end_def)
  have ls: "set (mm_node_list m') = insert x (set (mm_node_list m))"
    using r r' x0 by (cases as) auto
  have snd: "node_sound (?g y)" if "y \<in> set (mm_node_list m')" for y
    using that ls mm_okD(3) [OF ok] nx(3) same_but_holeD(3) [OF sh] by (cases "y = x") auto
  have rs: "set (mm_ring m') = insert x (set (mm_ring m))" using ls by auto
  note sets = holes_okD(2,3) [OF mm_okD(4) [OF ok]]
  have hr: "h \<in> set (mm_ring m)" using r by (metis in_set_conv_decomp)
  have "y \<in> set (mm_hole_stack m') \<longleftrightarrow> y \<in> set (mm_ring m') \<and> nd_hole_follows (?g y)" for y
    using hr same [rule_format, of y] x unfolding hst(2) rs sets(1)
    by (cases "y = x \<or> y = h") auto
  then have "set (mm_hole_stack m') = {y \<in> set (mm_ring m'). nd_hole_follows (?g y)}" by blast
  moreover have "(nd_hole_link (?g y) = Linked) = nd_hole_follows (?g y)" if "y \<in> set (mm_ring m')" for y
    using that sets(2) lnk same [rule_format, of y] unfolding rs by (cases "y = x \<or> y = h") auto
  ultimately have "holes_ok m'" using hst(1) by (simp add: holes_ok_def)
  moreover have "distinct (mm_ring m')" using r' d x0 by simp
  moreover have "mm_blocks m' = (mm_blocks m)(x \<mapsto> (unat a, unat z))"
  proof
    fix y show "mm_blocks m' y = ((mm_blocks m)(x \<mapsto> (unat a, unat z))) y"
      using ls nx same_but_holeD(1,2) [OF sh] by (cases "y = x") (auto simp: mm_blocks_def)
  qed
  ultimately show ?thesis using ch r' hi snd by (simp add: mm_ok_def)
qed

lemma upd_node_simps [simp]:
  "mm_nodes (upd_node x f m) y = (if y = x then f (mm_nodes m x) else mm_nodes m y)"
  "mm_node_list (upd_node x f m) = mm_node_list m"
  "mm_hole_stack (upd_node x f m) = mm_hole_stack m"
  "mm_scanned_blocks (upd_node x f m) = mm_scanned_blocks m"
  "mm_color_adjust (upd_node x f m) = mm_color_adjust m"
  by (simp_all add: upd_node_def)

lemma hole_stack_add_simps [simp]:
  "mm_nodes (hole_stack_add x m) y =
     (if y = x then (mm_nodes m x)\<lparr>nd_hole_link := Linked\<rparr> else mm_nodes m y)"
  "mm_node_list (hole_stack_add x m) = mm_node_list m"
  "mm_hole_stack (hole_stack_add x m) = x # mm_hole_stack m"
  "mm_scanned_blocks (hole_stack_add x m) = mm_scanned_blocks m"
  "mm_color_adjust (hole_stack_add x m) = mm_color_adjust m"
  by (simp_all add: hole_stack_add_def)

lemma node_list_add_split:
  assumes "mm_ring m = as @ h # bs" "h \<notin> set as"
  shows "node_list_add x h m = Some (m\<lparr>mm_node_list := tl (as @ h # x # bs)\<rparr>)"
    "0 # tl (as @ h # x # bs) = as @ h # x # bs"
  using assms insert_after_app [of h as x bs]
  by (simp_all add: node_list_add_def del: insert_after.simps) (cases as, auto)

definition node_clear :: "drm_mm \<Rightarrow> nat \<Rightarrow> bool" where
  "node_clear m x = (x \<noteq> 0 \<and> \<not> nd_allocated (mm_nodes m x) \<and> \<not> nd_scanned_block (mm_nodes m x) \<and>
     \<not> nd_scanned_prev_free (mm_nodes m x) \<and> \<not> nd_scanned_next_free (mm_nodes m x))"

lemma node_clear_fresh: "mm_ok m \<Longrightarrow> node_clear m x \<Longrightarrow> x \<notin> set (mm_ring m)"
  by (auto simp: node_clear_def node_sound_def dest: mm_okD(3))

lemma same_but_hole_simps [simp]:
  "same_but_hole n n" "same_but_hole n (n\<lparr>nd_hole_follows := b\<rparr>)"
  "same_but_hole n (n\<lparr>nd_hole_link := l\<rparr>)"
  "same_but_hole n (n\<lparr>nd_hole_follows := b, nd_hole_link := l\<rparr>)"
  "same_but_hole n (n\<lparr>nd_hole_link := l, nd_hole_follows := b\<rparr>)"
  by (simp_all add: same_but_hole_def)

lemma place_node_spec:
  assumes ok: "mm_ok m" and r: "mm_ring m = as @ h # bs" and nc: "node_clear m x"
    and fh: "nd_hole_follows (mm_nodes m h)"
    and he: "he = next_start (mm_nodes m) bs (mm_hi m)"
    and a: "node_end (mm_nodes m) h \<le> a" "a \<le> a + z" "a + z \<le> e" "e \<le> he" and z: "z \<noteq> 0"
  shows "\<exists>m'. place_node h x z c a e (node_end (mm_nodes m) h) he m = Some m' \<and> mm_ok m' \<and>
    mm_frame m x m' \<and> mm_blocks m' = (mm_blocks m)(x \<mapsto> (unat a, unat z))"
proof -
  have d: "distinct (as @ h # bs)" using mm_okD(1) [OF ok] r by metis
  have xr: "x \<notin> set (mm_ring m)" by (rule node_clear_fresh [OF ok nc])
  then have xh: "x \<noteq> h" using r by auto
  have hr: "h \<in> set (mm_ring m)" using r by (metis in_set_conv_decomp)
  note hs = holes_okD [OF mm_okD(4) [OF ok]]
  have lk: "nd_hole_link (mm_nodes m h) = Linked" using hs(3) [OF hr] fh by simp
  let ?m1 = "if a = node_end (mm_nodes m) h then upd_node h (\<lambda>n. n\<lparr>nd_hole_link := Poisoned\<rparr>)
      ((upd_node h (\<lambda>n. n\<lparr>nd_hole_follows := False\<rparr>) m)
        \<lparr>mm_hole_stack := remove1 h (mm_hole_stack m)\<rparr>) else m"
  let ?m3 = "(upd_node x (\<lambda>n. n\<lparr>nd_start := a, nd_size := z, nd_color := c, nd_allocated := True,
      nd_hole_link := Self\<rparr>) ?m1)\<lparr>mm_node_list := tl (as @ h # x # bs)\<rparr>"
  let ?m4 = "upd_node x (\<lambda>n. n\<lparr>nd_hole_follows := False\<rparr>) ?m3"
  let ?m' = "if a + z < he then upd_node x (\<lambda>n. n\<lparr>nd_hole_follows := True\<rparr>) (hole_stack_add x ?m4)
      else ?m4"
  have s1: "(if a = node_end (mm_nodes m) h then hole_stack_del h
      (upd_node h (\<lambda>n. n\<lparr>nd_hole_follows := False\<rparr>) m) else Some m) = Some ?m1"
    using lk by (simp add: hole_stack_unlink_def)
  have "mm_ring (upd_node x f ?m1) = as @ h # bs" for f using r by simp
  note s2 = node_list_add_split(1) [OF this, of x]
  have s3: "hole_node_start' ?m4 x = a + z" by (simp add: hole_node_start'_def)
  have "place_node h x z c a e (node_end (mm_nodes m) h) he m = Some ?m'"
    using a(3) d unfolding place_node_def s1 bind.bind_lunit Let_def
    by (subst s2) (simp_all add: s3 not_less del: upd_node_simps)
  moreover have fr: "mm_frame m x ?m'" using xh by (simp add: mm_frame_def)
  moreover have "mm_ok ?m' \<and> mm_blocks ?m' = (mm_blocks m)(x \<mapsto> (unat a, unat z))"
  proof (rule insert_ok [OF ok r xr _ fr])
    show "mm_ring ?m' = as @ h # x # bs" using node_list_add_split(2) [OF r, of x] d by simp
    show "node_sound (mm_nodes ?m' x)" using nc a(2) xh z by (simp add: node_sound_def node_clear_def)
    show "a + z \<le> next_start (mm_nodes m) bs (mm_hi m)" using a he by simp
    show "nd_hole_follows (mm_nodes ?m' x) = (a + z \<noteq> next_start (mm_nodes m) bs (mm_hi m))"
      using a he by auto
    have "x \<notin> set (mm_hole_stack m)" using hs(2) xr by auto
    then show "distinct (mm_hole_stack ?m')" using hs(1) by simp
    show "set (mm_hole_stack ?m') = set (mm_hole_stack m) - {h} \<union>
        {y. (y = h \<or> y = x) \<and> nd_hole_follows (mm_nodes ?m' y)}"
      using hs(1,2) hr fh xh by (auto simp: node_end_def)
  qed (use a xh fh lk in \<open>auto simp: node_end_def\<close>)
  ultimately show ?thesis by blast
qed

section \<open>Inserting into a hole that fits\<close>

text \<open>
  What the allocator expects of a driver's \<^verbatim>\<open>color_adjust\<close>: it only narrows the range
  it is given.
\<close>

definition color_narrows :: "drm_mm \<Rightarrow> bool" where
  "color_narrows m = (case mm_color_adjust m of None \<Rightarrow> True
     | Some f \<Rightarrow> \<forall>ns l x c s e. s \<le> fst (f ns l x c (s, e)) \<and> snd (f ns l x c (s, e)) \<le> e)"

lemma color_adjusted_narrows:
  "color_narrows m \<Longrightarrow> fst r \<le> fst (color_adjusted m x c r) \<and> snd (color_adjusted m x c r) \<le> snd r"
  by (cases r) (auto simp: color_narrows_def color_adjusted_def split: option.splits)

lemma range_clip_bounds:
  "fst r \<le> fst (range_clip rs re r)" "rs \<le> fst (range_clip rs re r)"
  "snd (range_clip rs re r) \<le> snd r" "snd (range_clip rs re r) \<le> re"
  by (auto simp: range_clip_def)

lemma holeE:
  assumes "mm_ok m" "y \<in> set (mm_hole_stack m)"
  obtains as bs where "mm_ring m = as @ y # bs" "nd_hole_follows (mm_nodes m y)"
    "drm_mm_hole_node_start m y = Some (node_end (mm_nodes m) y)"
    "drm_mm_hole_node_end m y = Some (next_start (mm_nodes m) bs (mm_hi m))"
proof -
  have y: "y \<in> set (mm_ring m)" "nd_hole_follows (mm_nodes m y)"
    using holes_okD(2) [OF mm_okD(4) [OF assms(1)]] assms(2) by auto
  from ring_split [OF y(1) mm_okD(1) [OF assms(1)]] obtain as bs where
    r: "mm_ring m = as @ y # bs" by blast
  show thesis
    by (rule that [OF r y(2)])
      (use y(2) hole_end_split [OF r mm_okD(1) [OF assms(1)]] in
        \<open>simp_all add: drm_mm_hole_node_start_def hole_node_start'_def node_end_def\<close>)
qed

lemma hole_fits_bounds:
  assumes ok: "mm_ok m" and y: "y \<in> set (mm_hole_stack m)" and fit: "hole_fits m rs re z al c y"
    and cn: "color_narrows m" and sm: "unat (mm_hi m) \<le> 2 ^ 62" "unat rs \<le> 2 ^ 62" "unat z \<le> 2 ^ 62"
    and r: "mm_ring m = as @ y # bs"
  obtains s e where
    "color_adjusted m y c (range_clip rs re
       (node_end (mm_nodes m) y, next_start (mm_nodes m) bs (mm_hi m))) = (s, e)"
    "node_end (mm_nodes m) y \<le> align_up al s" "e \<le> next_start (mm_nodes m) bs (mm_hi m)"
    "rs \<le> align_up al s" "e \<le> re" "aligned al (unat (align_up al s))"
    "unat (align_up al s) + unat z \<le> unat e"
    "align_up al s \<le> align_up al s + z" "align_up al s + z \<le> e"
    "unat (align_up al s + z) = unat (align_up al s) + unat z"
proof -
  let ?hs = "node_end (mm_nodes m) y" and ?he = "next_start (mm_nodes m) bs (mm_hi m)"
  obtain s e where se: "color_adjusted m y c (range_clip rs re (?hs, ?he)) = (s, e)" by fastforce
  have hse: "drm_mm_hole_node_start m y = Some ?hs" "drm_mm_hole_node_end m y = Some ?he"
    using holeE [OF ok y] hole_end_split [OF r mm_okD(1) [OF ok]] by auto
  with fit se have f: "mm_color_adjust m = None \<or> s < e" "check_free_hole s e z al"
    by (simp_all add: hole_fits_def)
  have b: "?hs \<le> s" "rs \<le> s" "e \<le> ?he" "e \<le> re"
    using color_adjusted_narrows [OF cn, of "range_clip rs re (?hs, ?he)" y c] se
      range_clip_bounds [where r = "(?hs, ?he)" and rs = rs and re = re]
    by (auto intro: order_trans)
  have he: "unat ?he \<le> 2 ^ 62" using hole_at(3) [OF ok r] sm(1) by (simp add: word_le_nat_alt)
  then have e: "unat e \<le> 2 ^ 62" using b(3) by (simp add: word_le_nat_alt)
  have "unat s \<le> 2 ^ 62"
  proof (cases "mm_color_adjust m")
    case None
    then have "s = ?hs \<or> s = rs" using se by (auto simp: color_adjusted_def range_clip_def)
    moreover have "unat ?hs \<le> 2 ^ 62" using hole_at(1) [OF ok r] he by (simp add: word_le_nat_alt)
    ultimately show ?thesis using sm(2) by auto
  next
    case (Some g)
    then show ?thesis using f(1) e by (simp add: word_less_nat_alt)
  qed
  note chk = check_free_hole_iff [OF this e sm(3), THEN iffD1, OF f(2)]
    and al = align_up_least [OF this, where al = al]
  have sum: "unat (align_up al s + z) = unat (align_up al s) + unat z"
    using chk e by (simp add: unat_plus_if')
  show thesis
    using b al(1,2) chk sum by (intro that [OF se]) (auto simp: word_le_nat_alt)
qed

definition mm_small :: "drm_mm \<Rightarrow> bool" where
  "mm_small m = (unat (mm_hi m) \<le> 2 ^ 62 \<and> nd_size (mm_nodes m 0) \<noteq> - 1)"

lemma search_range_spec:
  assumes ok: "mm_ok m" and sb: "mm_scanned_blocks m = 0" and sm: "mm_small m"
  shows "\<exists>r. drm_mm_search_free_in_range_generic m z al c rs re bm = Some r \<and>
    (case r of None \<Rightarrow> \<forall>y\<in>set (mm_hole_stack m). \<not> hole_fits m rs re z al c y
     | Some y \<Rightarrow> y \<in> set (mm_hole_stack m) \<and> hole_fits m rs re z al c y)"
proof -
  have "nd_size (mm_nodes m y) \<noteq> - 1" if "y \<in> set (mm_ring m)" for y
  proof (cases "y = 0")
    case False
    then have y: "y \<in> set (mm_node_list m)" using that by simp
    have "unat (nd_size (mm_nodes m y)) \<le> 2 ^ 62"
      using sound_end [OF mm_okD(3) [OF ok y]] ring_bounds(3) [OF ok y] sm
      by (simp add: word_le_nat_alt mm_small_def)
    then show ?thesis by (auto simp: unsigned_minus_1_eq_mask mask_eq_exp_minus_1)
  qed (use sm in \<open>simp add: mm_small_def\<close>)
  moreover have "\<forall>y\<in>set (mm_hole_stack m). drm_mm_hole_node_start m y \<noteq> None \<and>
      drm_mm_hole_node_end m y \<noteq> None"
    by (metis holeE [OF ok] option.distinct(1))
  moreover have "set (mm_hole_stack m) \<subseteq> set (mm_ring m)"
    using holes_okD(2) [OF mm_okD(4) [OF ok]] by auto
  ultimately have "\<exists>r. search_loop m (range_clip rs re) z al c bm (mm_hole_stack m) None (- 1) = Some r \<and>
    (case r of None \<Rightarrow> (None :: nat option) = None \<and>
        (\<forall>y\<in>set (mm_hole_stack m). \<not> hole_fits m rs re z al c y)
     | Some y \<Rightarrow> None = Some y \<or> y \<in> set (mm_hole_stack m) \<and> hole_fits m rs re z al c y)"
    by (intro search_loop_spec) blast+
  with sb show ?thesis by (simp add: drm_mm_search_free_in_range_generic_def cong: option.case_cong)
qed

lemma insert_range_spec:
  assumes ok: "mm_ok m" and sb: "mm_scanned_blocks m = 0" and sm: "mm_small m"
    and nc: "node_clear m x" and cn: "color_narrows m"
    and bd: "unat rs \<le> 2 ^ 62" "unat z \<le> 2 ^ 62" and z: "z \<noteq> 0"
  shows "\<exists>r m'. drm_mm_insert_node_in_range_generic x z al c rs re bm m = Some (r, m') \<and>
    (r = 0 \<and> mm_ok m' \<and> mm_frame m x m' \<and>
       (\<exists>a. mm_blocks m' = (mm_blocks m)(x \<mapsto> (a, unat z)) \<and> aligned al a \<and>
          unat rs \<le> a \<and> a + unat z \<le> unat re \<and> vacant (mm_span m) (mm_blocks m) a (unat z)) \<or>
     r = - ENOSPC \<and> m' = m \<and> (\<forall>y\<in>set (mm_hole_stack m). \<not> hole_fits m rs re z al c y))"
proof -
  from search_range_spec [OF ok sb sm] obtain r where
    s: "drm_mm_search_free_in_range_generic m z al c rs re bm = Some r"
      "case r of None \<Rightarrow> \<forall>y\<in>set (mm_hole_stack m). \<not> hole_fits m rs re z al c y
       | Some y \<Rightarrow> y \<in> set (mm_hole_stack m) \<and> hole_fits m rs re z al c y" by blast
  show ?thesis
  proof (cases r)
    case None
    with s show ?thesis by (simp add: drm_mm_insert_node_in_range_generic_def)
  next
    case (Some y)
    with s(2) have y: "y \<in> set (mm_hole_stack m)" "hole_fits m rs re z al c y" by simp_all
    from holeE [OF ok y(1)] obtain as bs where h: "mm_ring m = as @ y # bs"
      "nd_hole_follows (mm_nodes m y)"
      "drm_mm_hole_node_start m y = Some (node_end (mm_nodes m) y)"
      "drm_mm_hole_node_end m y = Some (next_start (mm_nodes m) bs (mm_hi m))" by blast
    have hi: "unat (mm_hi m) \<le> 2 ^ 62" using sm by (simp add: mm_small_def)
    from hole_fits_bounds [OF ok y cn hi bd h(1)] obtain s e where
      f: "color_adjusted m y c (range_clip rs re
         (node_end (mm_nodes m) y, next_start (mm_nodes m) bs (mm_hi m))) = (s, e)"
      and p: "node_end (mm_nodes m) y \<le> align_up al s" "align_up al s \<le> align_up al s + z"
        "align_up al s + z \<le> e" "e \<le> next_start (mm_nodes m) bs (mm_hi m)"
      and q: "rs \<le> align_up al s" "e \<le> re" "aligned al (unat (align_up al s))"
        "unat (align_up al s) + unat z \<le> unat e" by metis
    from place_node_spec [OF ok h(1) nc h(2) refl p z, of c] obtain m' where
      m': "place_node y x z c (align_up al s) e (node_end (mm_nodes m) y)
          (next_start (mm_nodes m) bs (mm_hi m)) m = Some m'" "mm_ok m'" "mm_frame m x m'"
        "mm_blocks m' = (mm_blocks m)(x \<mapsto> (unat (align_up al s), unat z))" by blast
    have na: "\<not> nd_allocated (mm_nodes m x)" using nc by (simp add: node_clear_def)
    have lim: "\<not> align_up al s + z > re" using p(3) q(2) by (auto simp: not_less)
    have ins: "drm_mm_insert_node_in_range_generic x z al c rs re bm m = Some (0, m')"
      using s(1) Some h(2,3,4) na f m'(1) lim
      by (simp add: drm_mm_insert_node_in_range_generic_def drm_mm_insert_helper_range_def)
    have "vacant (mm_span m) (mm_blocks m) (unat (align_up al s)) (unat z)"
      by (rule hole_vacant [OF ok h(1)]) (use p q(4) in \<open>auto simp: word_le_nat_alt\<close>)
    then show ?thesis using ins m' q by (auto simp: word_le_nat_alt intro!: exI)
  qed
qed

lemma no_fit_full:
  assumes ok: "mm_ok m" and sm: "mm_small m" and cn: "mm_color_adjust m = None"
    and bd: "unat rs \<le> 2 ^ 62" "unat z \<le> 2 ^ 62" "z \<noteq> 0"
    and nf: "\<forall>y\<in>set (mm_hole_stack m). \<not> hole_fits m rs re z al c y"
    and a: "aligned al a" "unat rs \<le> a" "a + unat z \<le> unat re"
  shows "\<not> vacant (mm_span m) (mm_blocks m) a (unat z)"
proof
  assume "vacant (mm_span m) (mm_blocks m) a (unat z)"
  then obtain as y bs where y: "mm_ring m = as @ y # bs" "unat (node_end (mm_nodes m) y) \<le> a"
    "a + unat z \<le> unat (next_start (mm_nodes m) bs (mm_hi m))" by (rule vacant_hole [OF ok])
  let ?hs = "node_end (mm_nodes m) y" and ?he = "next_start (mm_nodes m) bs (mm_hi m)"
  have "0 < unat z" using bd(3) by (simp add: unat_gt_0)
  then have "nd_hole_follows (mm_nodes m y)" using hole_at(2) [OF ok y(1)] y(2,3) by auto
  moreover have "y \<in> set (mm_ring m)" using y(1) by (metis in_set_conv_decomp)
  ultimately have h: "y \<in> set (mm_hole_stack m)" using holes_okD(2) [OF mm_okD(4) [OF ok]] by blast
  from holeE [OF ok h] have hs: "drm_mm_hole_node_start m y = Some ?hs" by blast
  have he: "drm_mm_hole_node_end m y = Some ?he" by (rule hole_end_split [OF y(1) mm_okD(1) [OF ok]])
  obtain s e where se: "range_clip rs re (?hs, ?he) = (s, e)" by fastforce
  then have sa: "unat s \<le> a" "a + unat z \<le> unat e"
    using y(2,3) a(2,3) by (auto simp: range_clip_def split: if_splits)
  have hi: "unat ?he \<le> 2 ^ 62" using hole_at(3) [OF ok y(1)] sm by (simp add: mm_small_def word_le_nat_alt)
  moreover have "unat e \<le> unat ?he" using se by (auto simp: range_clip_def word_less_nat_alt split: if_splits)
  ultimately have e: "unat e \<le> 2 ^ 62" by linarith
  moreover have "unat s \<le> 2 ^ 62" using sa e by linarith
  ultimately have "check_free_hole s e z al"
    using check_free_hole_ex [of s e z al] bd(2) sa a(1) by blast
  then have "hole_fits m rs re z al c y"
    using hs he se cn by (simp add: hole_fits_def color_adjusted_def)
  with nf h show False by blast
qed

section \<open>Removing a node\<close>

lemma remove_ok:
  assumes ok: "mm_ok m" and r: "mm_ring m = as @ p # x # bs"
    and r': "mm_ring m' = as @ p # bs" and fr: "mm_frame m x m'"
    and same: "\<forall>y. y \<noteq> x \<longrightarrow> y \<noteq> p \<longrightarrow> mm_nodes m' y = mm_nodes m y"
    and fol: "nd_hole_follows (mm_nodes m' p)" "nd_hole_link (mm_nodes m' p) = Linked"
    and hst: "distinct (mm_hole_stack m')"
      "set (mm_hole_stack m') = insert p (set (mm_hole_stack m) - {x})"
  shows "mm_ok m' \<and> mm_blocks m' = (mm_blocks m)(x := None)"
proof -
  let ?f = "mm_nodes m" and ?g = "mm_nodes m'"
  have d: "distinct (as @ p # x # bs)" using mm_okD(1) [OF ok] r by metis
  have x0: "x \<noteq> 0" "x \<in> set (mm_node_list m)" using r mm_okD(1) [OF ok] by (cases as; auto)+
  have sh: "same_but_hole (?f y) (?g y)" if "y \<noteq> x" for y using fr that by (simp add: mm_frame_def)
  have hi: "mm_hi m' = mm_hi m" using same_but_holeD(1) [OF sh] x0(1) by simp
  have ns: "next_start ?g bs (mm_hi m) = next_start ?f bs (mm_hi m)"
    by (rule next_start_cong) (use d in \<open>metis same_but_holeD(1) sh distinct.simps(2) distinct_append\<close>)
  have "chain ?f (as @ p # x # bs) (mm_hi m)" using mm_okD(2) [OF ok] r by metis
  then have c: "chain ?f as (nd_start (?f p))" "chain ?f bs (mm_hi m)"
    "node_end ?f p \<le> nd_start (?f x)" "node_end ?f x \<le> next_start ?f bs (mm_hi m)"
    by (simp_all add: chain_app seg_def node_end_def)
  have "nd_start (?f x) < node_end ?f x"
    using sound_end [OF mm_okD(3) [OF ok x0(2)]] mm_okD(3) [OF ok x0(2)]
    by (simp add: node_sound_def word_less_nat_alt unat_gt_0)
  then have lt: "node_end ?f p < next_start ?f bs (mm_hi m)" using c(3,4) by order
  moreover have "chain ?f as (nd_start (?f p)) = chain ?g as (nd_start (?f p))"
    by (rule chain_cong) (use same d in \<open>auto simp: same_place_def\<close>)
  moreover have "chain ?f bs (mm_hi m) = chain ?g bs (mm_hi m)"
    by (rule chain_cong) (use same d in \<open>auto simp: same_place_def\<close>)
  moreover have "p \<noteq> x" using d by auto
  ultimately have ch: "chain ?g (as @ p # bs) (mm_hi m)"
    using c fol ns same_but_holeD(1,2) [OF sh [of p]] by (auto simp: chain_app seg_def node_end_def)
  have ls: "set (mm_node_list m') = set (mm_node_list m) - {x}"
    using r r' d x0(1) by (cases as) auto
  have snd: "node_sound (?g y)" if "y \<in> set (mm_node_list m')" for y
    using that ls mm_okD(3) [OF ok] same_but_holeD(3) [OF sh] by (cases "y = x") auto
  have rs: "set (mm_ring m') = set (mm_ring m) - {x}" using ls x0(1) by auto
  have pr: "p \<in> set (mm_ring m) - {x}" using r d by (metis Diff_iff \<open>p \<noteq> x\<close> in_set_conv_decomp singletonD)
  note sets = holes_okD(2,3) [OF mm_okD(4) [OF ok]]
  have "y \<in> set (mm_hole_stack m') \<longleftrightarrow> y \<in> set (mm_ring m') \<and> nd_hole_follows (?g y)" for y
    using pr fol(1) same [rule_format, of y] unfolding hst(2) rs sets(1) by (cases "y = x \<or> y = p") auto
  then have "set (mm_hole_stack m') = {y \<in> set (mm_ring m'). nd_hole_follows (?g y)}" by blast
  moreover have "(nd_hole_link (?g y) = Linked) = nd_hole_follows (?g y)" if "y \<in> set (mm_ring m')" for y
    using that sets(2) fol same [rule_format, of y] unfolding rs by (cases "y = p") auto
  ultimately have "holes_ok m'" using hst(1) by (simp add: holes_ok_def)
  moreover have "distinct (mm_ring m')" using r' d by simp
  moreover have "mm_blocks m' = (mm_blocks m)(x := None)"
  proof
    fix y show "mm_blocks m' y = ((mm_blocks m)(x := None)) y"
      using ls same_but_holeD(1,2) [OF sh] by (cases "y = x") (auto simp: mm_blocks_def)
  qed
  ultimately show ?thesis using ch r' hi snd by (simp add: mm_ok_def)
qed

lemma mm_remove_node_spec:
  assumes ok: "mm_ok m" and x: "x \<in> set (mm_node_list m)"
  shows "\<exists>m'. drm_mm_remove_node x m = Some m' \<and> mm_ok m' \<and> mm_frame m x m' \<and> node_clear m' x \<and>
    mm_blocks m' = (mm_blocks m)(x := None)"
proof -
  from ring_prev [OF x mm_okD(1) [OF ok]] obtain as p bs where
    r: "mm_ring m = as @ p # x # bs" and l: "mm_node_list m = tl (as @ [p]) @ x # bs"
      and pl: "prev_link 0 (mm_node_list m) x = Some p" by blast
  have d: "distinct (as @ p # x # bs)" using mm_okD(1) [OF ok] r by metis
  have r2: "mm_ring m = (as @ [p]) @ x # bs" using r by simp
  have he: "drm_mm_hole_node_end m x = Some (next_start (mm_nodes m) bs (mm_hi m))"
    by (rule hole_end_split [OF r2 mm_okD(1) [OF ok]])
  have fx: "nd_hole_follows (mm_nodes m x) =
      (hole_node_start' m x \<noteq> next_start (mm_nodes m) bs (mm_hi m))"
    using hole_at(2) [OF ok r2] by (simp add: node_end_def hole_node_start'_def)
  note hs = holes_okD [OF mm_okD(4) [OF ok]] and snd = mm_okD(3) [OF ok x]
  have px: "p \<noteq> x" "x \<noteq> 0" using d x mm_okD(1) [OF ok] by auto
  have pr: "p \<in> set (mm_ring m)" "x \<in> set (mm_ring m)" using r x by (metis in_set_conv_decomp, simp)
  let ?m1 = "if nd_hole_follows (mm_nodes m x) then upd_node x (\<lambda>n. n\<lparr>nd_hole_link := Poisoned\<rparr>)
      (m\<lparr>mm_hole_stack := remove1 x (mm_hole_stack m)\<rparr>) else m"
  let ?m2 = "hole_stack_add p (if \<not> nd_hole_follows (mm_nodes m p)
      then upd_node p (\<lambda>n. n\<lparr>nd_hole_follows := True\<rparr>) ?m1
      else upd_node p (\<lambda>n. n\<lparr>nd_hole_link := Poisoned\<rparr>)
        (?m1\<lparr>mm_hole_stack := remove1 p (mm_hole_stack ?m1)\<rparr>))"
  let ?m' = "upd_node x (\<lambda>n. n\<lparr>nd_allocated := False\<rparr>)
      (?m2\<lparr>mm_node_list := remove1 x (mm_node_list m)\<rparr>)"
  have "drm_mm_remove_node x m = Some ?m'"
    using snd pl he fx hs(3) [OF pr(1)] hs(3) [OF pr(2)] px
    by (cases "nd_hole_follows (mm_nodes m x)"; cases "nd_hole_follows (mm_nodes m p)")
      (simp_all add: drm_mm_remove_node_def hole_stack_unlink_def node_sound_def Let_def)
  moreover have fr: "mm_frame m x ?m'" using px by (simp add: mm_frame_def)
  moreover have "node_clear ?m' x" using snd px by (simp add: node_clear_def node_sound_def)
  moreover have "mm_ok ?m' \<and> mm_blocks ?m' = (mm_blocks m)(x := None)"
  proof (rule remove_ok [OF ok r _ fr])
    have "x \<notin> set (tl (as @ [p]))" using d by (cases as) auto
    then have "remove1 x (mm_node_list m) = tl (as @ [p]) @ bs" unfolding l by (simp add: remove1_append)
    moreover have "0 # tl (as @ [p]) = as @ [p]" using r by (cases as) auto
    ultimately show "mm_ring ?m' = as @ p # bs" by (simp flip: append_Cons)
    show "distinct (mm_hole_stack ?m')" "set (mm_hole_stack ?m') = insert p (set (mm_hole_stack m) - {x})"
      using hs(1,2) pr px by auto
  qed (use px hs(3) [OF pr(1)] in auto)
  ultimately show ?thesis by blast
qed

end
