(* ===== verification/DrmMM_Main.thy ===== *)
theory DrmMM_Main
  imports DrmMM_Ops
begin

text \<open>
  The contract of the range allocator: a new allocator, reserving a fixed range,
  moving an allocation, the reporting functions, and the interpretation of the
  \<^verbatim>\<open>range_allocator\<close> interface on the code's operations.
\<close>

section \<open>A new allocator\<close>

lemma init_spec:
  assumes "z \<noteq> 0" "s \<le> s + z"
  shows "mm_ok (drm_mm_init s z m)" "mm_blocks (drm_mm_init s z m) = Map.empty"
    "mm_span (drm_mm_init s z m) = (unat s, unat s + unat z)"
    "mm_scanned_blocks (drm_mm_init s z m) = 0" "mm_color_adjust (drm_mm_init s z m) = None"
    "mm_hi (drm_mm_init s z m) = s + z" "nd_size (mm_nodes (drm_mm_init s z m) 0) = - z"
  using assms
  by (auto simp: mm_ok_def drm_mm_init_def seg_def holes_ok_def mm_blocks_def mm_span_def
      hole_node_start'_def unat_plus_simple fun_eq_iff)

section \<open>The unrestricted operations\<close>

lemma range_clip_all: "range_clip 0 (- 1) r = r"
  by (cases r) (simp add: range_clip_def word_order.not_eq_extremum [symmetric] not_less)

lemma search_generic_range:
  "drm_mm_search_free_generic m z al c bm = drm_mm_search_free_in_range_generic m z al c 0 (- 1) bm"
proof -
  have "range_clip 0 (- 1) = (\<lambda>r. r)" by (rule ext) (rule range_clip_all)
  then show ?thesis
    by (simp add: drm_mm_search_free_generic_def drm_mm_search_free_in_range_generic_def)
qed

lemma insert_generic_range:
  "drm_mm_insert_node_generic x z al c bm m = drm_mm_insert_node_in_range_generic x z al c 0 (- 1) bm m"
proof -
  have "drm_mm_insert_helper h x z al c m = drm_mm_insert_helper_range h x z al c 0 (- 1) m" for h
    by (simp add: drm_mm_insert_helper_def drm_mm_insert_helper_range_def range_clip_all
        drm_mm_hole_node_start_def Let_def case_prod_beta
        split: bind_splits option.splits)
  then show ?thesis
    unfolding drm_mm_insert_node_generic_def drm_mm_insert_node_in_range_generic_def
      search_generic_range by presburger
qed

section \<open>Reserving a fixed range\<close>

lemma link_reserved:
  assumes ok: "mm_ok m" and r: "mm_ring m = as @ h # bs" and nc: "node_clear m x"
    and fh: "nd_hole_follows (mm_nodes m h)" and he: "he = next_start (mm_nodes m) bs (mm_hi m)"
    and n: "nd_start (mm_nodes m x) = a" "nd_size (mm_nodes m x) = z" "z \<noteq> 0" "a \<le> a + z"
    and pos: "node_end (mm_nodes m) h \<le> a" "a + z \<le> he"
    and hse: "drm_mm_hole_node_start m h = Some (node_end (mm_nodes m) h)"
      "drm_mm_hole_node_end m h = Some he"
  shows "\<exists>m'. reserve_loop x (a + z) (h # hs) m = Some (0, m') \<and> mm_ok m' \<and> mm_frame m x m' \<and>
    mm_blocks m' = (mm_blocks m)(x \<mapsto> (unat a, unat z))"
proof -
  have d: "distinct (as @ h # bs)" using mm_okD(1) [OF ok] r by metis
  have xr: "x \<notin> set (mm_ring m)" by (rule node_clear_fresh [OF ok nc])
  then have xh: "x \<noteq> h" using r by auto
  have hr: "h \<in> set (mm_ring m)" using r by (metis in_set_conv_decomp)
  note hst = holes_okD [OF mm_okD(4) [OF ok]]
  have lk: "nd_hole_link (mm_nodes m h) = Linked" using hst(3) [OF hr] fh by simp
  let ?m2 = "(upd_node x (\<lambda>n. n\<lparr>nd_allocated := True, nd_hole_link := Self\<rparr>) m)
      \<lparr>mm_node_list := tl (as @ h # x # bs)\<rparr>"
  let ?m3 = "if a = node_end (mm_nodes m) h then upd_node h (\<lambda>n. n\<lparr>nd_hole_link := Self\<rparr>)
      ((upd_node h (\<lambda>n. n\<lparr>nd_hole_follows := False\<rparr>) ?m2)
        \<lparr>mm_hole_stack := remove1 h (mm_hole_stack m)\<rparr>) else ?m2"
  let ?m4 = "upd_node x (\<lambda>n. n\<lparr>nd_hole_follows := False\<rparr>) ?m3"
  let ?m' = "if a + z \<noteq> he then upd_node x (\<lambda>n. n\<lparr>nd_hole_follows := True\<rparr>) (hole_stack_add x ?m4)
      else ?m4"
  have "mm_ring (upd_node x f m) = as @ h # bs" for f using r by simp
  note s2 = node_list_add_split(1) [OF this, of x]
  have s3: "(if a = node_end (mm_nodes m) h then hole_stack_del_init h
      (upd_node h (\<lambda>n. n\<lparr>nd_hole_follows := False\<rparr>) ?m2) else Some ?m2) = Some ?m3"
    using lk xh by (simp add: hole_stack_unlink_def)
  have "\<not> (node_end (mm_nodes m) h > a \<or> he < a + z)" using pos by auto
  then have "reserve_loop x (a + z) (h # hs) m = Some (0, ?m')"
    unfolding reserve_loop.simps hse bind.bind_lunit Let_def n(1)
    using d by (subst s2) (simp_all add: s3 del: upd_node_simps)
  moreover have fr: "mm_frame m x ?m'" using xh by (simp add: mm_frame_def)
  moreover have "mm_ok ?m' \<and> mm_blocks ?m' = (mm_blocks m)(x \<mapsto> (unat a, unat z))"
  proof (rule insert_ok [OF ok r xr _ fr])
    show "mm_ring ?m' = as @ h # x # bs" using node_list_add_split(2) [OF r, of x] d by simp
    show "node_sound (mm_nodes ?m' x)" using nc n xh by (auto simp: node_sound_def node_clear_def)
    have "x \<notin> set (mm_hole_stack m)" using hst(2) xr by auto
    then show "distinct (mm_hole_stack ?m')" using hst(1) by simp
    show "set (mm_hole_stack ?m') = set (mm_hole_stack m) - {h} \<union>
        {y. (y = h \<or> y = x) \<and> nd_hole_follows (mm_nodes ?m' y)}"
      using hst(1,2) hr fh xh by (auto simp: node_end_def)
  qed (use pos he n xh fh lk in \<open>auto simp: node_end_def\<close>)
  ultimately show ?thesis by blast
qed

lemma reserve_loop_spec:
  assumes ok: "mm_ok m" and nc: "node_clear m x"
    and n: "nd_start (mm_nodes m x) = a" "nd_size (mm_nodes m x) = z" "z \<noteq> 0" "a \<le> a + z"
    and hs: "set hs \<subseteq> set (mm_hole_stack m)"
  shows "\<exists>e m'. reserve_loop x (a + z) hs m = Some (e, m') \<and>
    (e = 0 \<and> mm_ok m' \<and> mm_frame m x m' \<and> mm_blocks m' = (mm_blocks m)(x \<mapsto> (unat a, unat z)) \<and>
       vacant (mm_span m) (mm_blocks m) (unat a) (unat z) \<or>
     e = - ENOSPC \<and> m' = m \<and>
       (\<forall>as h bs. mm_ring m = as @ h # bs \<longrightarrow> h \<in> set hs \<longrightarrow>
          \<not> (node_end (mm_nodes m) h \<le> a \<and> a + z \<le> next_start (mm_nodes m) bs (mm_hi m))))"
  using hs
proof (induction hs)
  case (Cons h hs)
  from Cons.prems have "h \<in> set (mm_hole_stack m)" by simp
  from holeE [OF ok this] obtain as bs where h: "mm_ring m = as @ h # bs"
    "nd_hole_follows (mm_nodes m h)" "drm_mm_hole_node_start m h = Some (node_end (mm_nodes m) h)"
    "drm_mm_hole_node_end m h = Some (next_start (mm_nodes m) bs (mm_hi m))" by blast
  show ?case
  proof (cases "node_end (mm_nodes m) h \<le> a \<and> a + z \<le> next_start (mm_nodes m) bs (mm_hi m)")
    case True
    have "vacant (mm_span m) (mm_blocks m) (unat a) (unat z)"
      by (rule hole_vacant [OF ok h(1)]) (use True n(4) [unfolded unat_plus_simple] in \<open>auto simp: word_le_nat_alt\<close>)
    with True link_reserved [OF ok h(1) nc h(2) refl n _ _ h(3,4), of hs] show ?thesis by blast
  next
    case False
    have bs: "bs' = bs" if "mm_ring m = as' @ h # bs'" for as' bs'
      using ring_unique [OF h(1) that mm_okD(1) [OF ok]] by simp
    have "reserve_loop x (a + z) (h # hs) m = reserve_loop x (a + z) hs m"
      using False h(3,4) n(1) by (auto simp: not_le)
    with Cons False bs show ?thesis by auto
  qed
qed simp

lemma reserve_spec:
  assumes ok: "mm_ok m" and nc: "node_clear m x"
    and n: "nd_size (mm_nodes m x) \<noteq> 0"
      "nd_start (mm_nodes m x) \<le> nd_start (mm_nodes m x) + nd_size (mm_nodes m x)"
  shows "\<exists>e m'. drm_mm_reserve_node x m = Some (e, m') \<and>
    (if vacant (mm_span m) (mm_blocks m) (unat (nd_start (mm_nodes m x))) (unat (nd_size (mm_nodes m x)))
     then e = 0 \<and> mm_ok m' \<and> mm_frame m x m' \<and> mm_blocks m' = (mm_blocks m)
            (x \<mapsto> (unat (nd_start (mm_nodes m x)), unat (nd_size (mm_nodes m x))))
     else e = - ENOSPC \<and> m' = m)"
proof -
  let ?a = "nd_start (mm_nodes m x)" and ?z = "nd_size (mm_nodes m x)"
  from reserve_loop_spec [OF ok nc refl refl n order_refl] obtain e m' where
    l: "reserve_loop x (?a + ?z) (mm_hole_stack m) m = Some (e, m')"
      "e = 0 \<and> mm_ok m' \<and> mm_frame m x m' \<and> mm_blocks m' = (mm_blocks m)(x \<mapsto> (unat ?a, unat ?z)) \<and>
         vacant (mm_span m) (mm_blocks m) (unat ?a) (unat ?z) \<or>
       e = - ENOSPC \<and> m' = m \<and>
         (\<forall>as h bs. mm_ring m = as @ h # bs \<longrightarrow> h \<in> set (mm_hole_stack m) \<longrightarrow>
            \<not> (node_end (mm_nodes m) h \<le> ?a \<and> ?a + ?z \<le> next_start (mm_nodes m) bs (mm_hi m)))"
    by blast
  have sum: "unat (?a + ?z) = unat ?a + unat ?z" using n(2) by (simp add: unat_plus_simple)
  have "\<exists>as h bs. mm_ring m = as @ h # bs \<and> h \<in> set (mm_hole_stack m) \<and>
      node_end (mm_nodes m) h \<le> ?a \<and> ?a + ?z \<le> next_start (mm_nodes m) bs (mm_hi m)"
    if "vacant (mm_span m) (mm_blocks m) (unat ?a) (unat ?z)"
  proof -
    from vacant_hole [OF ok that] obtain as h bs where h: "mm_ring m = as @ h # bs"
      "unat (node_end (mm_nodes m) h) \<le> unat ?a"
      "unat ?a + unat ?z \<le> unat (next_start (mm_nodes m) bs (mm_hi m))" by blast
    have "0 < unat ?z" using n(1) by (simp add: unat_gt_0)
    then have "nd_hole_follows (mm_nodes m h)" using hole_at(2) [OF ok h(1)] h(2,3) by auto
    moreover have "h \<in> set (mm_ring m)" using h(1) by (metis in_set_conv_decomp)
    ultimately have "h \<in> set (mm_hole_stack m)" using holes_okD(2) [OF mm_okD(4) [OF ok]] by blast
    with h sum show ?thesis by (auto simp: word_le_nat_alt)
  qed
  with l show ?thesis unfolding drm_mm_reserve_node_def by auto
qed

section \<open>Moving an allocation\<close>

lemma chain_map:
  "(\<And>x. x \<in> set xs \<Longrightarrow> same_place (g (\<rho> x)) (f x)) \<Longrightarrow> chain g (map \<rho> xs) hi = chain f xs hi"
proof (induction xs)
  case (Cons x xs)
  have "next_start g (map \<rho> xs) hi = next_start f xs hi"
    using Cons.prems by (cases xs) (auto simp: same_place_def)
  with Cons show ?case by (auto simp: seg_def same_place_def)
qed simp

lemma replace_spec:
  assumes ok: "mm_ok m" and old: "old \<in> set (mm_node_list m)" and nc: "node_clear m new"
    and lk: "nd_hole_link (mm_nodes m old) \<noteq> Poisoned"
  shows "\<exists>m'. drm_mm_replace_node old new m = Some m' \<and> mm_ok m' \<and> node_clear m' old \<and>
    mm_span m' = mm_span m \<and> mm_blocks m' = (mm_blocks m)(old := None, new := mm_blocks m old)"
proof -
  let ?n = "mm_nodes m old" and ?r = "\<lambda>x. if x = old then new else x"
  let ?m' = "upd_node new (\<lambda>k. k\<lparr>nd_hole_link := nd_hole_link ?n,
               nd_hole_follows := nd_hole_follows ?n, nd_start := nd_start ?n,
               nd_size := nd_size ?n, nd_color := nd_color ?n, nd_allocated := True\<rparr>)
             (upd_node old (\<lambda>k. k\<lparr>nd_allocated := False\<rparr>)
               (m\<lparr>mm_node_list := list_replace old new (mm_node_list m),
                  mm_hole_stack := list_replace old new (mm_hole_stack m)\<rparr>))"
  have fresh: "new \<notin> set (mm_ring m)" by (rule node_clear_fresh [OF ok nc])
  have o: "old \<noteq> 0" "old \<noteq> new" "new \<noteq> 0"
    using old fresh mm_okD(1) [OF ok] by (metis distinct.simps(2), auto)
  have ring: "mm_ring ?m' = map ?r (mm_ring m)" using o by (simp add: list_replace_def)
  have inj: "inj_on ?r (set (mm_ring m))" using fresh by (auto simp: inj_on_def)
  have sp: "same_place (mm_nodes ?m' (?r x)) (mm_nodes m x)" if "x \<in> set (mm_ring m)" for x
    using that fresh o by (auto simp: same_place_def)
  have hi: "mm_hi ?m' = mm_hi m" using o by simp
  have rep: "drm_mm_replace_node old new m = Some ?m'"
    using old lk by (simp add: drm_mm_replace_node_def Let_def)
  note hs = holes_okD [OF mm_okD(4) [OF ok]]
  have hset: "set (mm_hole_stack m) \<subseteq> set (mm_ring m)" using hs(2) by auto
  have lkd: "(nd_hole_link (mm_nodes ?m' (?r x)) = Linked) = (nd_hole_link (mm_nodes m x) = Linked)"
    "nd_hole_follows (mm_nodes ?m' (?r x)) = nd_hole_follows (mm_nodes m x)"
    if "x \<in> set (mm_ring m)" for x using that fresh o by auto
  have "distinct (mm_ring ?m')"
    unfolding ring by (rule distinct_map [THEN iffD2]) (use mm_okD(1) [OF ok] inj in blast)
  moreover have "chain (mm_nodes ?m') (mm_ring ?m') (mm_hi ?m')"
    using mm_okD(2) [OF ok] chain_map [of "mm_ring m" "mm_nodes ?m'" ?r "mm_nodes m" "mm_hi m", OF sp]
    unfolding ring hi by blast
  moreover have "node_sound (mm_nodes ?m' x)" if "x \<in> set (mm_node_list ?m')" for x
    using that mm_okD(3) [OF ok] nc o old
    by (auto simp: list_replace_def node_sound_def node_clear_def split: if_splits)
  moreover have "holes_ok ?m'"
  proof -
    have st: "mm_hole_stack ?m' = map ?r (mm_hole_stack m)" by (simp add: list_replace_def)
    have "distinct (map ?r (mm_hole_stack m))"
      using hs(1) inj_on_subset [OF inj hset] by (simp add: distinct_map)
    moreover have "y \<in> ?r ` set (mm_hole_stack m) \<longleftrightarrow>
        y \<in> ?r ` set (mm_ring m) \<and> nd_hole_follows (mm_nodes ?m' y)" for y
      using lkd(2) hset unfolding hs(2) by blast
    moreover have "(nd_hole_link (mm_nodes ?m' y) = Linked) = nd_hole_follows (mm_nodes ?m' y)"
      if "y \<in> ?r ` set (mm_ring m)" for y
      using that lkd hs(3) by blast
    ultimately show ?thesis unfolding holes_ok_def ring st set_map by blast
  qed
  ultimately have "mm_ok ?m'" by (simp add: mm_ok_def)
  moreover have "mm_blocks ?m' = (mm_blocks m)(old := None, new := mm_blocks m old)"
    using fresh o old by (auto simp: mm_blocks_def list_replace_def fun_eq_iff)
  moreover have "node_clear ?m' old" using mm_okD(3) [OF ok old] o by (simp add: node_clear_def node_sound_def)
  moreover have "mm_span ?m' = mm_span m" using o by (simp add: mm_span_def hole_node_start'_def)
  ultimately show ?thesis using rep by blast
qed

section \<open>Reporting\<close>

lemma debug_hole_spec:
  assumes ok: "mm_ok m" and r: "mm_ring m = as @ x # bs"
  shows "\<exists>ls. drm_mm_debug_hole m x =
      Some (next_start (mm_nodes m) bs (mm_hi m) - node_end (mm_nodes m) x, ls) \<and>
    (\<forall>l\<in>set ls. \<exists>s e z. l = Free_line s e z \<and> vacant (mm_span m) (mm_blocks m) (unat s) (unat z))"
proof (cases "nd_hole_follows (mm_nodes m x)")
  case True
  let ?hs = "node_end (mm_nodes m) x" and ?he = "next_start (mm_nodes m) bs (mm_hi m)"
  have "?hs \<le> ?he" by (rule hole_at(1) [OF ok r])
  then have "vacant (mm_span m) (mm_blocks m) (unat ?hs) (unat (?he - ?hs))"
    by (intro hole_vacant [OF ok r]) (auto simp: unat_sub word_le_nat_alt)
  then show ?thesis using True hole_end_split [OF r mm_okD(1) [OF ok]]
    by (simp add: drm_mm_debug_hole_def drm_mm_hole_node_start_def hole_node_start'_def node_end_def Let_def)
qed (use hole_at(2) [OF ok r] in \<open>simp add: drm_mm_debug_hole_def\<close>)

abbreviation used_line :: "drm_mm \<Rightarrow> nat \<Rightarrow> table_line" where
  "used_line m x \<equiv> Used_line (nd_start (mm_nodes m x)) (hole_node_start' m x) (nd_size (mm_nodes m x))"

abbreviation is_used :: "table_line \<Rightarrow> bool" where
  "is_used l \<equiv> (case l of Used_line s e z \<Rightarrow> True | _ \<Rightarrow> False)"

definition lines_sound :: "drm_mm \<Rightarrow> nat list \<Rightarrow> table_line list \<Rightarrow> bool" where
  "lines_sound m xs ls = (filter is_used ls = map (used_line m) xs \<and>
     (\<forall>l\<in>set ls. \<not> is_used l \<longrightarrow> (\<exists>s e z. l = Free_line s e z \<and>
        vacant (mm_span m) (mm_blocks m) (unat s) (unat z))))"

lemma debug_loop_spec:
  assumes ok: "mm_ok m" and r: "mm_ring m = as @ xs" "as \<noteq> []"
  shows "\<exists>f' ls. debug_loop m xs u f out = Some (u + sum_list (map (\<lambda>x. nd_size (mm_nodes m x)) xs), f', out @ ls) \<and>
    u + sum_list (map (\<lambda>x. nd_size (mm_nodes m x)) xs) + f' =
      u + f + (mm_hi m - next_start (mm_nodes m) xs (mm_hi m)) \<and> lines_sound m xs ls"
  using r
proof (induction xs arbitrary: as u f out)
  case (Cons x xs)
  from debug_hole_spec [OF ok Cons.prems(1)] obtain ls where
    h: "drm_mm_debug_hole m x =
        Some (next_start (mm_nodes m) xs (mm_hi m) - node_end (mm_nodes m) x, ls)"
      "\<forall>l\<in>set ls. \<exists>s e z. l = Free_line s e z \<and> vacant (mm_span m) (mm_blocks m) (unat s) (unat z)"
    by blast
  have "mm_ring m = (as @ [x]) @ xs" using Cons.prems(1) by simp
  from Cons.IH [OF this, of "u + nd_size (mm_nodes m x)"
      "f + (next_start (mm_nodes m) xs (mm_hi m) - node_end (mm_nodes m) x)"
      "out @ used_line m x # ls"]
  obtain f' ls' where l: "debug_loop m xs (u + nd_size (mm_nodes m x))
      (f + (next_start (mm_nodes m) xs (mm_hi m) - node_end (mm_nodes m) x)) (out @ used_line m x # ls) =
      Some (u + nd_size (mm_nodes m x) + sum_list (map (\<lambda>x. nd_size (mm_nodes m x)) xs), f',
        (out @ used_line m x # ls) @ ls')"
    "u + nd_size (mm_nodes m x) + sum_list (map (\<lambda>x. nd_size (mm_nodes m x)) xs) + f' =
      u + nd_size (mm_nodes m x) + (f + (next_start (mm_nodes m) xs (mm_hi m) - node_end (mm_nodes m) x))
        + (mm_hi m - next_start (mm_nodes m) xs (mm_hi m))" "lines_sound m xs ls'" by auto
  have "filter is_used ls = []" using h(2) by (auto simp: filter_empty_conv)
  then have "lines_sound m (x # xs) (used_line m x # ls @ ls')"
    using l(3) h(2) by (auto simp: lines_sound_def)
  moreover have "u + f + (mm_hi m - nd_start (mm_nodes m x)) =
      u + nd_size (mm_nodes m x) + sum_list (map (\<lambda>x. nd_size (mm_nodes m x)) xs) + f'"
    unfolding l(2) by (simp add: node_end_def algebra_simps)
  ultimately show ?case using l(1) h(1)
    by (intro exI [of _ f'] exI [of _ "used_line m x # ls @ ls'"])
      (simp add: hole_node_start'_def Let_def algebra_simps)
qed (simp add: lines_sound_def)

section \<open>The interface\<close>

definition drm_inv :: "drm_mm \<Rightarrow> bool" where
  "drm_inv m = (mm_ok m \<and> mm_scanned_blocks m = 0 \<and> mm_small m \<and> mm_color_adjust m = None)"

type_synonym drm_request = "ulong \<times> 32 word \<times> ulong \<times> ulong \<times> bool"

definition drm_valid :: "drm_request \<Rightarrow> bool" where
  "drm_valid r = (case r of (z, al, rs, re, bm) \<Rightarrow> z \<noteq> 0 \<and> unat z \<le> 2 ^ 62 \<and> unat rs \<le> 2 ^ 62)"

definition drm_place :: "drm_request \<Rightarrow> nat \<Rightarrow> nat \<Rightarrow> bool" where
  "drm_place r a w = (case r of (z, al, rs, re, bm) \<Rightarrow>
     w = unat z \<and> aligned al a \<and> unat rs \<le> a \<and> a + w \<le> unat re)"

definition drm_alloc :: "nat \<Rightarrow> drm_request \<Rightarrow> drm_mm \<Rightarrow> (bool \<times> drm_mm) option" where
  "drm_alloc x r m = (case r of (z, al, rs, re, bm) \<Rightarrow>
     map_option (map_prod (\<lambda>e. e = 0) id) (drm_mm_insert_node_in_range_generic x z al 0 rs re bm m))"

lemma frame_inv:
  assumes "drm_inv m" "mm_ok m'" "mm_frame m x m'" "x \<noteq> 0"
  shows "drm_inv m'" "\<And>y. y \<noteq> x \<Longrightarrow> node_clear m y \<Longrightarrow> node_clear m' y"
proof -
  have s: "same_but_hole (mm_nodes m y) (mm_nodes m' y)" if "y \<noteq> x" for y
    using assms(3) that by (simp add: mm_frame_def)
  show "drm_inv m'" using assms same_but_holeD(1,2) [OF s [of 0]]
    by (simp add: drm_inv_def mm_small_def mm_frame_def)
  show "node_clear m' y" if "y \<noteq> x" "node_clear m y" for y
    using s [OF that(1)] that(2) unfolding node_clear_def same_but_hole_def
    by (cases "mm_nodes m' y"; cases "mm_nodes m y") simp
qed

lemma drm_alloc_law:
  assumes "drm_inv m" "node_clear m x" "drm_valid r"
  shows "\<exists>b m'. drm_alloc x r m = Some (b, m') \<and> drm_inv m' \<and> mm_span m' = mm_span m \<and>
     (if b then \<exists>a z. drm_place r a z \<and> vacant (mm_span m) (mm_blocks m) a z \<and>
               mm_blocks m' = (mm_blocks m)(x \<mapsto> (a, z)) \<and> (\<forall>j. j \<noteq> x \<longrightarrow> node_clear m j \<longrightarrow> node_clear m' j)
      else m' = m \<and> (\<forall>a z. drm_place r a z \<longrightarrow> \<not> vacant (mm_span m) (mm_blocks m) a z))"
proof -
  obtain z al rs re bm where r: "r = (z, al, rs, re, bm)" by (cases r)
  have v: "unat rs \<le> 2 ^ 62" "unat z \<le> 2 ^ 62" "z \<noteq> 0" using assms(3) r by (simp_all add: drm_valid_def)
  have i: "mm_ok m" "mm_scanned_blocks m = 0" "mm_small m" "mm_color_adjust m = None" "color_narrows m"
    using assms(1) by (simp_all add: drm_inv_def color_narrows_def)
  have x: "x \<noteq> 0" using assms(2) by (simp add: node_clear_def)
  from insert_range_spec [OF i(1-3) assms(2) i(5) v, of al 0 re bm] obtain e m' where
    e: "drm_mm_insert_node_in_range_generic x z al 0 rs re bm m = Some (e, m')"
      "e = 0 \<and> mm_ok m' \<and> mm_frame m x m' \<and>
        (\<exists>a. mm_blocks m' = (mm_blocks m)(x \<mapsto> (a, unat z)) \<and> aligned al a \<and>
          unat rs \<le> a \<and> a + unat z \<le> unat re \<and> vacant (mm_span m) (mm_blocks m) a (unat z)) \<or>
       e = - ENOSPC \<and> m' = m \<and> (\<forall>y\<in>set (mm_hole_stack m). \<not> hole_fits m rs re z al 0 y)" by blast
  have al: "drm_alloc x r m = Some (e = 0, m')" using e(1) r by (simp add: drm_alloc_def)
  show ?thesis
  proof (cases "e = 0")
    case True
    with e(2) have "mm_ok m'" "mm_frame m x m'" by (auto simp: ENOSPC_def)
    from frame_inv [OF assms(1) this x] mm_frame_span [OF this(2) x] True e(2) al show ?thesis
      by (auto simp: r drm_place_def ENOSPC_def)
  next
    case False
    with e(2) have "m' = m" "\<forall>y\<in>set (mm_hole_stack m). \<not> hole_fits m rs re z al 0 y" by auto
    with al False assms(1) no_fit_full [OF i(1,3,4) v this(2)] show ?thesis
      by (auto simp: r drm_place_def)
  qed
qed

interpretation dm: range_allocator drm_inv mm_blocks mm_span node_clear drm_valid drm_place
  drm_alloc drm_mm_remove_node
proof (unfold_locales, goal_cases)
  case (1 m)
  then show ?case using mm_ok_apart by (simp add: drm_inv_def)
next
  case (2 m x r)
  then show ?case using drm_alloc_law [OF 2] by (auto split: if_splits)
next
  case (3 m x)
  then have m: "mm_ok m" "x \<in> set (mm_node_list m)"
    by (auto simp: drm_inv_def mm_blocks_def split: if_splits)
  have x: "x \<noteq> 0" using m(2) mm_okD(1) [OF m(1)] by (metis distinct.simps(2))
  from mm_remove_node_spec [OF m] obtain m' where
    m': "drm_mm_remove_node x m = Some m'" "mm_ok m'" "mm_frame m x m'" "node_clear m' x"
      "mm_blocks m' = (mm_blocks m)(x := None)" by blast
  have "node_clear m' j" if "node_clear m j" for j
    using frame_inv(2) [OF 3(1) m'(2,3) x _ that] m'(4) by (cases "j = x") simp_all
  with m' frame_inv(1) [OF 3(1) m'(2,3) x] mm_frame_span [OF m'(3) x] show ?case by blast
next
  case (4 m x r m' a z)
  then show ?case using drm_alloc_law [OF 4(1-3)] by (auto split: if_splits)
qed

section \<open>Properties\<close>

text \<open>
  C6: inserting a node of nonzero size, with or without a range restriction, always returns
  (for addresses and sizes of at most \<^verbatim>\<open>2 ^ 62\<close>, and a managed range of a size other than 1).  It
  either places the node at an aligned address inside the range where every address was
  vacant, changes no other block and keeps the invariant; or it reports \<^verbatim>\<open>-ENOSPC\<close> and
  changes nothing, and then, unless the driver's \<^verbatim>\<open>color_adjust\<close> narrowed the holes, no
  aligned address in the range could have held the block.
\<close>

theorem drm_insert:
  assumes "mm_ok m" "mm_scanned_blocks m = 0" "mm_small m" "node_clear m x" "color_narrows m"
    "unat rs \<le> 2 ^ 62" "unat z \<le> 2 ^ 62" "z \<noteq> 0"
  shows "(\<exists>e m'. drm_mm_insert_node_in_range_generic x z al c rs re bm m = Some (e, m') \<and>
      (e = 0 \<and> mm_ok m' \<and> mm_span m' = mm_span m \<and>
         (\<exists>a. mm_blocks m' = (mm_blocks m)(x \<mapsto> (a, unat z)) \<and> aligned al a \<and> unat rs \<le> a \<and>
            a + unat z \<le> unat re \<and> vacant (mm_span m) (mm_blocks m) a (unat z)) \<or>
       e = - ENOSPC \<and> m' = m \<and> (mm_color_adjust m = None \<longrightarrow>
         (\<forall>a. aligned al a \<longrightarrow> unat rs \<le> a \<longrightarrow> a + unat z \<le> unat re \<longrightarrow>
            \<not> vacant (mm_span m) (mm_blocks m) a (unat z))))) \<and>
    drm_mm_insert_node_generic x z al c bm m =
      drm_mm_insert_node_in_range_generic x z al c 0 (- 1) bm m"
proof -
  from insert_range_spec [OF assms(1-5) assms(6-8), of al c re bm] obtain e m' where
    e: "drm_mm_insert_node_in_range_generic x z al c rs re bm m = Some (e, m')"
      "e = 0 \<and> mm_ok m' \<and> mm_frame m x m' \<and>
        (\<exists>a. mm_blocks m' = (mm_blocks m)(x \<mapsto> (a, unat z)) \<and> aligned al a \<and>
          unat rs \<le> a \<and> a + unat z \<le> unat re \<and> vacant (mm_span m) (mm_blocks m) a (unat z)) \<or>
       e = - ENOSPC \<and> m' = m \<and> (\<forall>y\<in>set (mm_hole_stack m). \<not> hole_fits m rs re z al c y)" by blast
  moreover have "mm_span m' = mm_span m" if "mm_frame m x m'"
    using mm_frame_span [OF that] assms(4) by (simp add: node_clear_def)
  moreover note insert_generic_range no_fit_full [OF assms(1,3) _ assms(6-8)]
  ultimately show ?thesis by blast
qed

definition blank_node :: mm_node where
  "blank_node = \<lparr>nd_hole_link = Self, nd_prev = 0, nd_next = None, nd_hole_follows = False,
     nd_scanned_block = False, nd_scanned_prev_free = False, nd_scanned_next_free = False,
     nd_scanned_preceeds_hole = False, nd_allocated = False, nd_color = 0, nd_start = 0, nd_size = 0\<rparr>"

definition blank_mm :: drm_mm where
  "blank_mm = \<lparr>mm_nodes = (\<lambda>_. blank_node), mm_node_list = [], mm_hole_stack = [],
     mm_scan_check_range = False, mm_scan_alignment = 0, mm_scan_color = 0, mm_scan_size = 0,
     mm_scan_hit_start = 0, mm_scan_hit_end = 0, mm_scanned_blocks = 0, mm_scan_start = 0,
     mm_scan_end = 0, mm_prev_scanned_node = None, mm_color_adjust = None\<rparr>"

lemma blank_init:
  "mm_ok (drm_mm_init 0 1000 blank_mm)" "mm_blocks (drm_mm_init 0 1000 blank_mm) = Map.empty"
  "mm_scanned_blocks (drm_mm_init 0 1000 blank_mm) = 0" "mm_small (drm_mm_init 0 1000 blank_mm)"
  "color_narrows (drm_mm_init 0 1000 blank_mm)" "mm_span (drm_mm_init 0 1000 blank_mm) = (0, 1000)"
  "x \<noteq> 0 \<Longrightarrow> node_clear (drm_mm_init 0 1000 blank_mm) x"
  "mm_color_adjust (drm_mm_init 0 1000 blank_mm) = None"
  using init_spec [of 1000 0 blank_mm]
  by (simp_all add: mm_small_def color_narrows_def node_clear_def drm_mm_init_def blank_mm_def
      blank_node_def)

theorem drm_insert_witness:
  "\<exists>a m'. drm_mm_insert_node_in_range_generic 1 64 16 0 100 200 False (drm_mm_init 0 1000 blank_mm) =
      Some (0, m') \<and> mm_blocks m' = [1 \<mapsto> (a, 64)] \<and> 16 dvd a \<and> 100 \<le> a \<and> a + 64 \<le> 200"
proof -
  let ?m = "drm_mm_init 0 1000 blank_mm"
  have v: "vacant (mm_span ?m) (mm_blocks ?m) 112 (unat (64 :: ulong))"
    by (simp add: blank_init vacant_def)
  have c: "node_clear ?m 1" by (rule blank_init(7)) simp
  have n: "unat (100 :: ulong) \<le> 2 ^ 62" "unat (64 :: ulong) \<le> 2 ^ 62" "(64 :: ulong) \<noteq> 0"
    "aligned 16 112" by (simp_all add: aligned_def)
  have "112 + unat (64 :: ulong) \<le> unat (200 :: ulong)" "unat (100 :: ulong) \<le> 112" by simp_all
  with drm_insert [OF blank_init(1,3,4) c blank_init(5) n(1-3), of 16 0 200 False] blank_init(8) v n(4)
  have "\<exists>m' a. drm_mm_insert_node_in_range_generic 1 64 16 0 100 200 False ?m = Some (0, m') \<and>
      mm_blocks m' = (mm_blocks ?m)(1 \<mapsto> (a, unat (64 :: ulong))) \<and> aligned 16 a \<and>
      unat (100 :: ulong) \<le> a \<and> a + unat (64 :: ulong) \<le> unat (200 :: ulong)"
    by blast
  then show ?thesis by (auto simp: blank_init aligned_def)
qed

text \<open>
  C7: on a new allocator that manages a range of at least two addresses, any sequence of
  insertions of nonempty blocks (with any alignment, range and search mode) and removals by a set of
  cleared nodes runs to its end; the blocks are then pairwise disjoint and inside the
  managed range, and once all of them have been removed the free space has merged again:
  every such request that fits the whole range is granted.  Addresses and sizes are at most
  \<^verbatim>\<open>2 ^ 62\<close>.  Sequences with empty blocks are excluded because they can end in a \<^verbatim>\<open>BUG_ON\<close> (see
  \<^verbatim>\<open>empty_node_breaks_removal\<close>), and a range of one address because the best-fit search never finds
  its hole (see \<^verbatim>\<open>unit_range_best_fails\<close>).
\<close>

theorem drm_sequences:
  assumes "z \<noteq> 0" "z \<noteq> 1" "unat s + unat z \<le> 2 ^ 62" "\<forall>k\<in>K. node_clear m k"
    "\<forall>op\<in>set ops. case op of Alloc k r \<Rightarrow> k \<in> K \<and> drm_valid r | Release k \<Rightarrow> k \<in> K"
  shows "\<exists>m'. run_ranges mm_blocks drm_alloc drm_mm_remove_node ops (drm_mm_init s z m) = Some m' \<and>
    blocks_apart (unat s, unat s + unat z) (mm_blocks m') \<and>
    (mm_blocks m' = Map.empty \<longrightarrow> (\<forall>k\<in>K. \<forall>r a w. drm_valid r \<longrightarrow> drm_place r a w \<longrightarrow>
       unat s \<le> a \<longrightarrow> a + w \<le> unat s + unat z \<longrightarrow> (\<exists>t. drm_alloc k r m' = Some (True, t))))"
proof -
  have nw: "unat (s + z) = unat s + unat z" using assms(3) by (simp add: unat_plus_if')
  then have le: "s \<le> s + z" by (simp add: word_le_nat_alt)
  note i = init_spec [OF assms(1) le, of m]
  have "- z \<noteq> - 1" using assms(2) by simp
  then have "drm_inv (drm_mm_init s z m)" using i nw assms(3) by (simp add: drm_inv_def mm_small_def)
  moreover have "dm.owners_ok K (drm_mm_init s z m)"
    using assms(4) by (auto simp: dm.owners_ok_def node_clear_def drm_mm_init_def)
  moreover have "\<forall>op\<in>set ops. dm.op_ok K op" using assms(5) by (simp add: dm.op_ok_def)
  ultimately show ?thesis using dm.run_apart [of "drm_mm_init s z m" K ops] i(3) by simp
qed

theorem drm_sequences_witness:
  "\<exists>m'. run_ranges mm_blocks drm_alloc drm_mm_remove_node
      [Alloc 1 (600, 0, 0, - 1, False), Alloc 2 (300, 8, 0, - 1, True), Release 1]
      (drm_mm_init 0 1000 blank_mm) = Some m' \<and> blocks_apart (0, 1000) (mm_blocks m')"
  using drm_sequences [of 1000 0 "{1, 2}" blank_mm "[Alloc 1 (600, 0, 0, - 1, False),
      Alloc 2 (300, 8, 0, - 1, True), Release 1]"]
  by (force simp: drm_valid_def node_clear_def blank_mm_def blank_node_def)

text \<open>
  C22: \<^verbatim>\<open>drm_mm_reserve_node\<close> places a node at the address it asks for exactly when that
  range is vacant, and otherwise reports \<^verbatim>\<open>-ENOSPC\<close> and changes nothing.
\<close>

theorem drm_reserve:
  assumes "mm_ok m" "node_clear m x" "nd_start (mm_nodes m x) = a" "nd_size (mm_nodes m x) = z"
    "z \<noteq> 0" "a \<le> a + z"
  shows "\<exists>e m'. drm_mm_reserve_node x m = Some (e, m') \<and>
    (if vacant (mm_span m) (mm_blocks m) (unat a) (unat z)
     then e = 0 \<and> mm_ok m' \<and> mm_span m' = mm_span m \<and>
       mm_blocks m' = (mm_blocks m)(x \<mapsto> (unat a, unat z))
     else e = - ENOSPC \<and> m' = m)"
proof -
  have "x \<noteq> 0" using assms(2) by (simp add: node_clear_def)
  with reserve_spec [OF assms(1,2)] assms(3-6) show ?thesis by (auto intro: mm_frame_span split: if_splits)
qed

theorem drm_reserve_witness:
  "\<exists>m'. drm_mm_reserve_node 3
      (upd_node 3 (\<lambda>n. n\<lparr>nd_start := 500, nd_size := 20\<rparr>) (drm_mm_init 0 1000 blank_mm)) = Some (0, m') \<and>
    mm_blocks m' = [3 \<mapsto> (500, 20)]"
proof -
  let ?m = "upd_node 3 (\<lambda>n. n\<lparr>nd_start := 500, nd_size := 20\<rparr>) (drm_mm_init 0 1000 blank_mm)"
  have "mm_ok ?m" "node_clear ?m 3" "mm_blocks ?m = Map.empty" "mm_span ?m = (0, 1000)"
    by (auto simp: mm_ok_def drm_mm_init_def seg_def holes_ok_def node_clear_def blank_mm_def
        blank_node_def mm_blocks_def mm_span_def hole_node_start'_def)
  with drm_reserve [of ?m 3 500 20] show ?thesis by (auto simp: vacant_def)
qed

text \<open>
  \<^verbatim>\<open>drm_mm_replace_node\<close> hands the block of one node over to a cleared node: the
  allocator stays well formed, the new node owns the same range and the old one is
  cleared.  It needs the old node's \<^verbatim>\<open>hole_stack\<close> link to be a valid one, and without
  that it does not return.
\<close>

theorem drm_replace:
  assumes "mm_ok m" "old \<in> set (mm_node_list m)" "node_clear m new"
  shows "case drm_mm_replace_node old new m of
      None \<Rightarrow> nd_hole_link (mm_nodes m old) = Poisoned
    | Some m' \<Rightarrow> nd_hole_link (mm_nodes m old) \<noteq> Poisoned \<and> mm_ok m' \<and> node_clear m' old \<and>
        mm_span m' = mm_span m \<and> mm_blocks m' = (mm_blocks m)(old := None, new := mm_blocks m old)"
proof (cases "nd_hole_link (mm_nodes m old) = Poisoned")
  case True
  then show ?thesis by (simp add: drm_mm_replace_node_def)
next
  case False
  with replace_spec [OF assms] show ?thesis by auto
qed

theorem drm_replace_witness:
  "\<exists>m m'. drm_mm_insert_node_generic 1 64 0 0 False (drm_mm_init 0 1000 blank_mm) = Some (0, m) \<and>
     drm_mm_replace_node 1 2 m = Some m' \<and> mm_ok m' \<and> mm_node_list m' = [2]"
proof -
  have c: "node_clear (drm_mm_init 0 1000 blank_mm) 1" by (rule blank_init(7)) simp
  have n: "unat (0 :: ulong) \<le> 2 ^ 62" "unat (64 :: ulong) \<le> 2 ^ 62" "(64 :: ulong) \<noteq> 0" by simp_all
  from insert_range_spec [OF blank_init(1,3,4) c blank_init(5) n, of 0 0 "- 1" False]
  obtain e m where i: "drm_mm_insert_node_generic 1 64 0 0 False (drm_mm_init 0 1000 blank_mm) = Some (e, m)"
    "e = 0 \<longrightarrow> mm_ok m" by (auto simp: ENOSPC_def insert_generic_range)
  have ev: "map_option (\<lambda>(e, m). (e, mm_node_list m, map (\<lambda>x. (nd_hole_link (mm_nodes m x),
      nd_allocated (mm_nodes m x), nd_scanned_block (mm_nodes m x), nd_scanned_prev_free (mm_nodes m x),
      nd_scanned_next_free (mm_nodes m x))) [1, 2]))
      (drm_mm_insert_node_generic 1 64 0 0 False (drm_mm_init 0 1000 blank_mm)) =
    Some (0, [1], [(Linked, True, False, False, False), (Self, False, False, False, False)])"
    by code_simp
  with i have m: "e = 0" "mm_node_list m = [1]" "nd_hole_link (mm_nodes m 1) = Linked" "node_clear m 2"
    by (simp_all add: node_clear_def)
  with i have "case drm_mm_replace_node 1 2 m of None \<Rightarrow> False | Some m' \<Rightarrow> mm_ok m'"
    using drm_replace [of m 1 2] by (auto split: option.splits)
  with i m show ?thesis
    by (auto simp: drm_mm_replace_node_def Let_def list_replace_def split: option.splits)
qed

text \<open>
  the tables printed by \<^verbatim>\<open>drm_mm_debug_table\<close> are complete: every node appears once, in
  address order, every line reported free is vacant, and used and free space add up to
  the managed range.
\<close>

theorem drm_debug_table:
  assumes "mm_ok m"
  shows "\<exists>ls used free. drm_mm_debug_table m = Some (ls @ [Total_line (free + used) used free]) \<and>
    lines_sound m (mm_node_list m) ls \<and> used = (\<Sum>x\<leftarrow>mm_node_list m. nd_size (mm_nodes m x)) \<and>
    free + used = mm_hi m - hole_node_start' m 0"
proof -
  have r: "mm_ring m = [] @ 0 # mm_node_list m" "mm_ring m = [0] @ mm_node_list m" by simp_all
  from debug_hole_spec [OF assms r(1)] obtain ls where
    h: "drm_mm_debug_hole m 0 = Some (next_start (mm_nodes m) (mm_node_list m) (mm_hi m) -
        node_end (mm_nodes m) 0, ls)"
      "\<forall>l\<in>set ls. \<exists>s e z. l = Free_line s e z \<and> vacant (mm_span m) (mm_blocks m) (unat s) (unat z)"
    by blast
  have nu: "filter is_used ls = []" using h(2) by (auto simp: filter_empty_conv)
  from debug_loop_spec [OF assms r(2), of 0 "next_start (mm_nodes m) (mm_node_list m) (mm_hi m) -
      node_end (mm_nodes m) 0" ls]
  obtain f' ls' where l: "debug_loop m (mm_node_list m) 0 (next_start (mm_nodes m) (mm_node_list m) (mm_hi m) -
        node_end (mm_nodes m) 0) ls = Some (\<Sum>x\<leftarrow>mm_node_list m. nd_size (mm_nodes m x), f', ls @ ls')"
      "(\<Sum>x\<leftarrow>mm_node_list m. nd_size (mm_nodes m x)) + f' = mm_hi m - node_end (mm_nodes m) 0"
      "lines_sound m (mm_node_list m) ls'" by auto
  have "lines_sound m (mm_node_list m) (ls @ ls')"
    using l(3) h(2) nu by (auto simp: lines_sound_def)
  with h(1) l show ?thesis
    by (simp add: drm_mm_debug_table_def node_end_def hole_node_start'_def add.commute)
qed

theorem drm_debug_table_witness:
  "\<exists>ls used free. drm_mm_debug_table (drm_mm_init 0 1000 blank_mm) =
      Some (ls @ [Total_line 1000 used free]) \<and> used = 0"
  using drm_debug_table [OF blank_init(1)] by (auto simp: drm_mm_init_def hole_node_start'_def)

section \<open>Limits of the code\<close>

text \<open>
  \<^verbatim>\<open>DRM_MM_SEARCH_BEST\<close> compares the size of the node in front of a hole, not of the hole:
  with a hole of exactly 8 after node 1 it takes the hole of 577 after node 5.
\<close>

fun insert_all :: "(nat \<times> ulong) list \<Rightarrow> drm_mm \<Rightarrow> drm_mm option" where
  "insert_all [] m = Some m"
| "insert_all ((x, z) # xs) m =
     do { (e, m') \<leftarrow> drm_mm_insert_node_generic x z 0 0 False m; insert_all xs m' }"

lemma best_search_not_best:
  "do { m \<leftarrow> insert_all [(1, 100), (2, 8), (3, 10), (4, 300), (5, 5)] (drm_mm_init 0 1000 blank_mm);
        m \<leftarrow> drm_mm_remove_node 2 m;
        m \<leftarrow> drm_mm_remove_node 4 m;
        h \<leftarrow> drm_mm_search_free m 8 0 True;
        h1 \<leftarrow> drm_mm_debug_hole m 1;
        h5 \<leftarrow> drm_mm_debug_hole m 5;
        Some (h, fst h1, fst h5) } = Some (Some 5, 8, 577)"
  by code_simp

text \<open>
  A node whose hole has been filled by \<^verbatim>\<open>drm_mm_insert_node\<close> keeps a poisoned link, and
  replacing it follows that link.
\<close>

lemma replace_after_fill_faults:
  "do { m \<leftarrow> insert_all [(1, 100), (2, 8)] (drm_mm_init 0 1000 blank_mm);
        Some (mm_node_list m, drm_mm_replace_node 1 3 m = None) } = Some ([1, 2], True)"
  by code_simp

text \<open>\<^verbatim>\<open>drm_mm_clean\<close> holds with one node allocated.\<close>

lemma clean_with_one_node:
  "do { m \<leftarrow> insert_all [(1, 100)] (drm_mm_init 0 1000 blank_mm);
        Some (drm_mm_clean m, drm_mm_takedown m) } = Some (True, True)"
  by code_simp

text \<open>
  A request of size 0 is accepted; removing the node again leaves an empty hole, on
  which removing its predecessor stops at a \<^verbatim>\<open>BUG_ON\<close>.
\<close>

lemma empty_node_breaks_removal:
  "do { m \<leftarrow> insert_all [(1, 16), (2, 0), (3, 16)] (drm_mm_init 0 1000 blank_mm);
        m \<leftarrow> drm_mm_remove_node 2 m;
        Some (mm_node_list m, drm_mm_remove_node 1 m = None) } = Some ([1, 3], True)"
  by code_simp

text \<open>
  In a range of one address the head node has the size \<^verbatim>\<open>-1\<close>, which is not below the initial \<^verbatim>\<open>best_size\<close>: a best-fit
  search passes over the only hole, a first-fit search takes it.
\<close>

lemma unit_range_best_fails:
  "map_option fst (drm_mm_insert_node_generic 1 1 0 0 True (drm_mm_init 0 1 blank_mm)) = Some (- ENOSPC) \<and>
   map_option fst (drm_mm_insert_node_generic 1 1 0 0 False (drm_mm_init 0 1 blank_mm)) = Some 0"
  by code_simp

end
