(* ===== verification/DrmMM_Scan.thy ===== *)
theory DrmMM_Scan
  imports DrmMM_Main
begin

text \<open>
  The eviction scan of the range allocator.  Scanning unlinks nodes from the node list;
  taking them back in the opposite order restores the allocator, and the value
  returned for each node says whether its block overlaps the hole that was found.
\<close>

section \<open>States that differ in scan bookkeeping only\<close>

definition node_eq :: "mm_node \<Rightarrow> mm_node \<Rightarrow> bool" where
  "node_eq a b = (b\<lparr>nd_prev := nd_prev a, nd_next := nd_next a,
     nd_scanned_preceeds_hole := nd_scanned_preceeds_hole a\<rparr> = a)"

definition scan_same :: "drm_mm \<Rightarrow> drm_mm \<Rightarrow> bool" where
  "scan_same m m' = (mm_node_list m' = mm_node_list m \<and> mm_hole_stack m' = mm_hole_stack m \<and>
     mm_scan_check_range m' = mm_scan_check_range m \<and> mm_scan_alignment m' = mm_scan_alignment m \<and>
     mm_scan_color m' = mm_scan_color m \<and> mm_scan_size m' = mm_scan_size m \<and>
     mm_scan_start m' = mm_scan_start m \<and> mm_scan_end m' = mm_scan_end m \<and>
     mm_scanned_blocks m' = mm_scanned_blocks m \<and> mm_color_adjust m' = mm_color_adjust m \<and>
     (\<forall>x. node_eq (mm_nodes m x) (mm_nodes m' x)) \<and>
     (\<forall>x. x \<notin> set (mm_ring m) \<longrightarrow> mm_nodes m' x = mm_nodes m x))"

lemma node_eqD:
  assumes "node_eq a b"
  shows "nd_start b = nd_start a" "nd_size b = nd_size a" "nd_hole_follows b = nd_hole_follows a"
    "nd_hole_link b = nd_hole_link a" "node_sound b = node_sound a"
    "nd_allocated b = nd_allocated a" "nd_scanned_block b = nd_scanned_block a"
    "nd_scanned_prev_free b = nd_scanned_prev_free a" "nd_scanned_next_free b = nd_scanned_next_free a"
  using assms unfolding node_eq_def by (cases a; cases b; simp add: node_sound_def)+

lemma node_eq_refl [simp]: "node_eq a a"
  by (simp add: node_eq_def)

lemma node_eq_fields [simp]:
  "node_eq a (b\<lparr>nd_prev := p\<rparr>) = node_eq a b" "node_eq a (b\<lparr>nd_next := n\<rparr>) = node_eq a b"
  "node_eq a (b\<lparr>nd_scanned_preceeds_hole := h\<rparr>) = node_eq a b"
  by (simp_all add: node_eq_def)

lemma node_eq_restore:
  "node_eq (a\<lparr>nd_hole_follows := t\<rparr>) b \<Longrightarrow> node_eq a (b\<lparr>nd_hole_follows := nd_hole_follows a\<rparr>)"
  by (cases a; cases b) (simp add: node_eq_def)

lemma node_eq_unscan:
  "\<not> nd_scanned_block a \<Longrightarrow> node_eq a (a\<lparr>nd_scanned_preceeds_hole := h, nd_prev := p, nd_next := q,
     nd_scanned_block := False\<rparr>)"
  by (cases a) (simp add: node_eq_def)

lemma scan_same_refl [simp]: "scan_same m m"
  by (simp add: scan_same_def)

lemma scan_same_ok:
  assumes "scan_same m m'"
  shows "mm_ok m' = mm_ok m" "mm_blocks m' = mm_blocks m" "mm_span m' = mm_span m"
    "mm_small m' = mm_small m" "node_clear m' x = node_clear m x"
proof -
  have l: "mm_node_list m' = mm_node_list m" "mm_hole_stack m' = mm_hole_stack m"
    and e: "node_eq (mm_nodes m y) (mm_nodes m' y)" for y
    using assms by (simp_all add: scan_same_def)
  note n = node_eqD [OF e]
  have "chain (mm_nodes m') (mm_ring m) hi = chain (mm_nodes m) (mm_ring m) hi" for hi
    by (rule chain_cong) (simp add: same_place_def n)
  then show "mm_ok m' = mm_ok m" by (simp add: mm_ok_def holes_ok_def l n del: chain.simps)
  show "mm_blocks m' = mm_blocks m" "mm_span m' = mm_span m" "mm_small m' = mm_small m"
    "node_clear m' x = node_clear m x"
    by (auto simp: mm_blocks_def mm_span_def hole_node_start'_def mm_small_def node_clear_def l n)
qed

section \<open>One node\<close>

lemma upd_node_scan_simps [simp]:
  "mm_scan_check_range (upd_node x f m) = mm_scan_check_range m"
  "mm_scan_alignment (upd_node x f m) = mm_scan_alignment m"
  "mm_scan_color (upd_node x f m) = mm_scan_color m"
  "mm_scan_size (upd_node x f m) = mm_scan_size m"
  "mm_scan_start (upd_node x f m) = mm_scan_start m"
  "mm_scan_end (upd_node x f m) = mm_scan_end m"
  "mm_scan_hit_start (upd_node x f m) = mm_scan_hit_start m"
  "mm_scan_hit_end (upd_node x f m) = mm_scan_hit_end m"
  by (simp_all add: upd_node_def)

lemma scan_unlink_simps [simp]:
  "mm_node_list (scan_unlink x p m) = remove1 x (mm_node_list m)"
  "mm_hole_stack (scan_unlink x p m) = mm_hole_stack m"
  "mm_scan_check_range (scan_unlink x p m) = mm_scan_check_range m"
  "mm_scan_alignment (scan_unlink x p m) = mm_scan_alignment m"
  "mm_scan_color (scan_unlink x p m) = mm_scan_color m"
  "mm_scan_size (scan_unlink x p m) = mm_scan_size m"
  "mm_scan_start (scan_unlink x p m) = mm_scan_start m"
  "mm_scan_end (scan_unlink x p m) = mm_scan_end m"
  "mm_scan_hit_start (scan_unlink x p m) = mm_scan_hit_start m"
  "mm_scan_hit_end (scan_unlink x p m) = mm_scan_hit_end m"
  "mm_scanned_blocks (scan_unlink x p m) = mm_scanned_blocks m"
  "mm_color_adjust (scan_unlink x p m) = mm_color_adjust m"
  by (simp_all add: scan_unlink_def upd_node_def Let_def)

lemma scan_unlink_nodes:
  assumes "x \<noteq> p"
  shows "mm_nodes (scan_unlink x p m) y =
    (if y = x then (mm_nodes m x)\<lparr>nd_scanned_block := True,
         nd_scanned_preceeds_hole := nd_hole_follows (mm_nodes m p), nd_prev := p,
         nd_next := mm_prev_scanned_node m\<rparr>
     else if y = p then (mm_nodes m p)\<lparr>nd_hole_follows := True\<rparr> else mm_nodes m y)"
  using assms by (simp add: scan_unlink_def Let_def)

lemma remove1_ring:
  assumes "mm_ring m = as @ p # x # bs" "distinct (mm_ring m)"
  shows "0 # remove1 x (mm_node_list m) = as @ p # bs"
proof -
  have d: "distinct (as @ p # x # bs)" using assms by metis
  have "remove1 x (mm_ring m) = as @ p # bs" using d by (simp add: assms(1) remove1_append)
  moreover have "x \<noteq> 0" using assms d by (cases as) auto
  ultimately show ?thesis by simp
qed

lemma scan_add_spec:
  assumes r: "mm_ring m = as @ p # x # bs" and d: "distinct (mm_ring m)"
    and ns: "\<not> nd_scanned_block (mm_nodes m x)"
  obtains b m' where "drm_mm_scan_add_block x m = Some (b, m')" "mm_ring m' = as @ p # bs"
    "\<And>y. mm_nodes m' y = mm_nodes (scan_unlink x p m) y"
    "mm_hole_stack m' = mm_hole_stack m" "mm_scanned_blocks m' = mm_scanned_blocks m + 1"
    "mm_color_adjust m' = mm_color_adjust m" "mm_scan_check_range m' = mm_scan_check_range m"
    "mm_scan_alignment m' = mm_scan_alignment m" "mm_scan_color m' = mm_scan_color m"
    "mm_scan_size m' = mm_scan_size m" "mm_scan_start m' = mm_scan_start m"
    "mm_scan_end m' = mm_scan_end m"
    "b = (case scan_bounds m' p (node_end (mm_nodes m) p, next_start (mm_nodes m) bs (mm_hi m)) of
        (s, e) \<Rightarrow> check_free_hole s e (mm_scan_size m) (mm_scan_alignment m))"
    "(mm_scan_hit_start m', mm_scan_hit_end m') = (if b
       then (node_end (mm_nodes m) p, next_start (mm_nodes m) bs (mm_hi m))
       else (mm_scan_hit_start m, mm_scan_hit_end m))"
proof -
  let ?m1 = "scan_unlink x p (m\<lparr>mm_scanned_blocks := mm_scanned_blocks m + 1\<rparr>)"
  let ?hs = "node_end (mm_nodes m) p" and ?he = "next_start (mm_nodes m) bs (mm_hi m)"
  have ds: "distinct (as @ p # x # bs)" using r d by metis
  have px: "x \<noteq> p" "x \<notin> set bs" using ds by auto
  have x0: "x \<noteq> 0" using r ds by (cases as) auto
  have xl: "x \<in> set (mm_node_list m)" using r x0 by (cases as) auto
  have pl: "prev_link 0 (mm_node_list m) x = Some p"
  proof (rule ring_prev [OF xl d])
    fix as' p' bs' assume a: "mm_ring m = as' @ p' # x # bs'" "prev_link 0 (mm_node_list m) x = Some p'"
    have "mm_ring m = (as @ [p]) @ x # bs" "mm_ring m = (as' @ [p']) @ x # bs'" using a r by simp_all
    from ring_unique [OF this d] a(2) show ?thesis by simp
  qed
  have r1: "mm_ring ?m1 = as @ p # bs" using remove1_ring [OF r d] by simp
  have d1: "distinct (mm_ring ?m1)" unfolding r1 using ds by simp
  have nd: "mm_nodes ?m1 y = mm_nodes (scan_unlink x p m) y" for y
    using px by (simp add: scan_unlink_nodes)
  have hs: "drm_mm_hole_node_start ?m1 p = Some ?hs"
    using px by (simp add: drm_mm_hole_node_start_def hole_node_start'_def scan_unlink_nodes node_end_def)
  have "next_start (mm_nodes ?m1) bs (mm_hi ?m1) = ?he"
    using px x0 by (cases bs) (auto simp: scan_unlink_nodes)
  then have he: "drm_mm_hole_node_end ?m1 p = Some ?he" using hole_end_split [OF r1 d1] by simp
  obtain s e where se: "scan_bounds ?m1 p (?hs, ?he) = (s, e)" by fastforce
  define b where "b = check_free_hole s e (mm_scan_size m) (mm_scan_alignment m)"
  define m' where "m' = (if b then ?m1\<lparr>mm_scan_hit_start := ?hs, mm_scan_hit_end := ?he\<rparr> else ?m1)"
  have sb: "scan_bounds m' p = scan_bounds ?m1 p"
    by (simp add: m'_def scan_bounds_def color_adjusted_def fun_eq_iff split: option.split)
  have add: "drm_mm_scan_add_block x m = Some (b, m')"
    using ns pl hs he se by (simp add: drm_mm_scan_add_block_def Let_def b_def m'_def)
  have bb: "b = (case scan_bounds m' p (?hs, ?he) of
        (s, e) \<Rightarrow> check_free_hole s e (mm_scan_size m) (mm_scan_alignment m))"
    using se by (simp add: sb b_def)
  have r': "mm_ring m' = as @ p # bs" using r1 by (simp add: m'_def)
  have nd': "mm_nodes m' y = mm_nodes (scan_unlink x p m) y" for y using nd by (simp add: m'_def)
  show thesis by (rule that [OF add r' nd' _ _ _ _ _ _ _ _ _ bb]) (simp_all add: m'_def)
qed

lemma scan_remove_spec:
  assumes r: "mm_ring m = as @ p # x # bs" and d: "distinct (mm_ring m)"
    and ns: "\<not> nd_scanned_block (mm_nodes m x)"
    and add: "drm_mm_scan_add_block x m = Some (b, m1)" and same: "scan_same m1 m2"
  shows "\<exists>m3. drm_mm_scan_remove_block x m2 =
      Some (mm_scan_hit_start m2 < next_start (mm_nodes m) bs (mm_hi m) \<and>
            nd_start (mm_nodes m x) < mm_scan_hit_end m2, m3) \<and>
    scan_same m m3 \<and> mm_scan_hit_start m3 = mm_scan_hit_start m2 \<and>
    mm_scan_hit_end m3 = mm_scan_hit_end m2"
proof (rule scan_add_spec [OF r d ns], goal_cases)
  case (1 b' m1')
  then have m1: "m1' = m1" using add by simp
  note a = 1(2-12) [unfolded m1]
  have ds: "distinct (as @ p # x # bs)" using r d by metis
  have px: "x \<noteq> p" "p \<noteq> x" "x \<notin> set bs" using ds by auto
  have x0: "x \<noteq> 0" using r ds by (cases as) auto
  have fresh: "x \<notin> set (mm_ring m1)" using a(1) ds by auto
  have nx: "mm_nodes m2 x = mm_nodes m1 x" using same fresh by (simp add: scan_same_def)
  have eq: "node_eq (mm_nodes m1 y) (mm_nodes m2 y)" for y using same by (simp add: scan_same_def)
  have l2: "mm_node_list m2 = mm_node_list m1" using same by (simp add: scan_same_def)
  let ?f = "\<lambda>n. n\<lparr>nd_hole_follows := nd_hole_follows (mm_nodes m p)\<rparr>"
  let ?m2 = "upd_node p ?f (upd_node x (\<lambda>n. n\<lparr>nd_scanned_block := False\<rparr>)
      (m2\<lparr>mm_scanned_blocks := mm_scanned_blocks m2 - 1\<rparr>))"
  let ?m3 = "?m2\<lparr>mm_node_list := tl (as @ p # x # bs)\<rparr>"
  have "mm_ring ?m2 = as @ p # bs" using a(1) l2 by simp
  from node_list_add_split [OF this, of x] ds
  have la: "node_list_add x p ?m2 = Some ?m3" and r3: "mm_ring ?m3 = mm_ring m" using r by simp_all
  have ne: "node_eq (mm_nodes m y) (mm_nodes ?m3 y)" for y
    using eq [of y] nx px ns unfolding a(2)
    by (cases "y = p"; cases "y = x") (auto simp: scan_unlink_nodes node_eq_restore node_eq_unscan)
  have r3': "mm_ring ?m3 = (as @ [p]) @ x # bs" using r3 r by simp
  have "drm_mm_hole_node_end ?m3 x = Some (next_start (mm_nodes ?m3) bs (mm_hi ?m3))"
    by (rule hole_end_split [OF r3']) (use r3 d in metis)
  moreover have "next_start (mm_nodes ?m3) bs hi = next_start (mm_nodes m) bs hi" for hi
    by (rule next_start_cong) (rule node_eqD(1) [OF ne])
  ultimately have he: "drm_mm_hole_node_end ?m3 x = Some (next_start (mm_nodes m) bs (mm_hi m))"
    using node_eqD(1) [OF ne [of 0]] by simp
  have sc: "nd_scanned_block (mm_nodes m2 x)" "nd_prev (mm_nodes m2 x) = p"
    "nd_scanned_preceeds_hole (mm_nodes m2 x) = nd_hole_follows (mm_nodes m p)"
    using px unfolding nx a(2) by (simp_all add: scan_unlink_nodes)
  have st: "nd_start (mm_nodes ?m3 x) = nd_start (mm_nodes m x)" by (rule node_eqD(1) [OF ne])
  have "drm_mm_scan_remove_block x m2 = Some (mm_scan_hit_start m2 < next_start (mm_nodes m) bs (mm_hi m) \<and>
      nd_start (mm_nodes m x) < mm_scan_hit_end m2, ?m3)"
    unfolding drm_mm_scan_remove_block_def Let_def sc
    using he st sc(1) by (simp add: la del: upd_node_simps(1))
  moreover have "mm_nodes ?m3 y = mm_nodes m y" if "y \<notin> set (mm_ring m)" for y
  proof -
    have y: "y \<noteq> x" "y \<noteq> p" "y \<notin> set (mm_ring m1)" using that r a(1) by auto
    then have "mm_nodes m2 y = mm_nodes m1 y" using same by (simp add: scan_same_def)
    then show ?thesis using y px by (simp add: a(2) scan_unlink_nodes)
  qed
  then have "scan_same m ?m3"
    using same a ne r3 unfolding scan_same_def by (simp del: upd_node_simps(1))
  ultimately show ?case by (intro exI [of _ ?m3]) simp
qed

section \<open>The stack of scanned nodes\<close>

text \<open>
  \<^verbatim>\<open>scan_stack m0 us m\<close>: \<^verbatim>\<open>m\<close> arises from \<^verbatim>\<open>m0\<close> by adding the nodes \<^verbatim>\<open>us\<close> to the scan, the last
  one added first.
\<close>

fun scan_stack :: "drm_mm \<Rightarrow> nat list \<Rightarrow> drm_mm \<Rightarrow> bool" where
  "scan_stack m0 [] m = (m = m0)"
| "scan_stack m0 (x # us) m = (\<exists>m1 b. scan_stack m0 us m1 \<and> x \<in> set (mm_node_list m1) \<and>
     drm_mm_scan_add_block x m1 = Some (b, m))"

definition scan_inv :: "drm_mm \<Rightarrow> nat list \<Rightarrow> drm_mm \<Rightarrow> bool" where
  "scan_inv m0 us m =
     ((\<forall>y. nd_start (mm_nodes m y) = nd_start (mm_nodes m0 y) \<and> nd_size (mm_nodes m y) = nd_size (mm_nodes m0 y)) \<and>
     mm_node_list m = filter (\<lambda>y. y \<notin> set us) (mm_node_list m0) \<and> set us \<subseteq> set (mm_node_list m0) \<and>
     (\<forall>y\<in>set (mm_node_list m). \<not> nd_scanned_block (mm_nodes m y)) \<and>
     mm_scan_check_range m = mm_scan_check_range m0 \<and> mm_scan_alignment m = mm_scan_alignment m0 \<and>
     mm_scan_size m = mm_scan_size m0 \<and> mm_scan_start m = mm_scan_start m0 \<and>
     mm_scan_end m = mm_scan_end m0 \<and> mm_color_adjust m = mm_color_adjust m0)"

lemma scan_invD:
  assumes ok: "mm_ok m0" and i: "scan_inv m0 us m"
  shows "distinct (mm_ring m)" "nd_start (mm_nodes m y) = nd_start (mm_nodes m0 y)"
    "nd_size (mm_nodes m y) = nd_size (mm_nodes m0 y)"
    "set (mm_node_list m) = set (mm_node_list m0) - set us" "set us \<subseteq> set (mm_node_list m0)"
    "y \<in> set (mm_node_list m) \<Longrightarrow> \<not> nd_scanned_block (mm_nodes m y)"
    "sorted_wrt (\<lambda>x y. node_end (mm_nodes m0) x \<le> nd_start (mm_nodes m0 y)) (mm_ring m)"
    "set (mm_ring m) = set (mm_ring m0) - set us"
proof -
  have l: "mm_node_list m = filter (\<lambda>y. y \<notin> set us) (mm_node_list m0)"
    and u: "set us \<subseteq> set (mm_node_list m0)" using i by (simp_all add: scan_inv_def)
  show "distinct (mm_ring m)" using mm_okD(1) [OF ok] unfolding l by simp
  show sl: "set (mm_node_list m) = set (mm_node_list m0) - set us" unfolding l by auto
  show "set (mm_ring m) = set (mm_ring m0) - set us" using sl u mm_okD(1) [OF ok] by auto
  show "sorted_wrt (\<lambda>x y. node_end (mm_nodes m0) x \<le> nd_start (mm_nodes m0 y)) (mm_ring m)"
    using ring_sorted [OF ok] sl unfolding l by (auto intro: sorted_wrt_filter)
qed (use i in \<open>simp_all add: scan_inv_def\<close>)

lemma scan_stack_inv:
  assumes "mm_ok m0" "scan_stack m0 us m"
  shows "scan_inv m0 us m"
  using assms(2)
proof (induction us arbitrary: m)
  case Nil
  then show ?case using mm_okD(3) [OF assms(1)] by (auto simp: scan_inv_def node_sound_def)
next
  case (Cons x us)
  then obtain m1 b where s: "scan_stack m0 us m1" "x \<in> set (mm_node_list m1)"
    "drm_mm_scan_add_block x m1 = Some (b, m)" by auto
  note i = Cons.IH [OF s(1)] and iD = scan_invD [OF assms(1) Cons.IH [OF s(1)]]
  from ring_prev [OF s(2) iD(1)] obtain as p bs where r: "mm_ring m1 = as @ p # x # bs" by blast
  have d: "distinct (as @ p # x # bs)" using iD(1) r by metis
  show ?case
  proof (rule scan_add_spec [OF r iD(1) iD(6) [OF s(2)]], goal_cases)
    case (1 b' m')
    then have m': "m' = m" using s(3) by simp
    note a = 1(2-12) [unfolded m']
    have px: "x \<noteq> p" using d by auto
    have "0 # mm_node_list m = 0 # remove1 x (mm_node_list m1)"
      using a(1) remove1_ring [OF r iD(1)] by simp
    then have l: "mm_node_list m = filter ((\<noteq>) x) (mm_node_list m1)"
      using iD(1) by (simp add: distinct_remove1_removeAll removeAll_filter_not_eq)
    have l0: "filter ((\<noteq>) x) (mm_node_list m1) = filter (\<lambda>y. y \<notin> set (x # us)) (mm_node_list m0)"
      using i by (auto simp: scan_inv_def intro: filter_cong)
    have "\<not> nd_scanned_block (mm_nodes m y)" if "y \<in> set (mm_node_list m)" for y
      using that iD(6) [of y] px by (auto simp: a(2) scan_unlink_nodes l)
    moreover have "nd_start (mm_nodes m y) = nd_start (mm_nodes m0 y)"
      "nd_size (mm_nodes m y) = nd_size (mm_nodes m0 y)" for y
      using iD(2,3) px by (simp_all add: a(2) scan_unlink_nodes)
    moreover have "set (x # us) \<subseteq> set (mm_node_list m0)" using s(2) iD(4,5) by auto
    ultimately show ?case using i a l l0 unfolding scan_inv_def by simp
  qed
qed

lemma sound_lt:
  assumes "mm_ok m" "y \<in> set (mm_node_list m)"
  shows "nd_start (mm_nodes m y) < node_end (mm_nodes m) y"
  using sound_end [OF mm_okD(3) [OF assms]] mm_okD(3) [OF assms]
  by (simp add: node_sound_def word_less_nat_alt unat_gt_0)

text \<open>The start of the next node lies behind a hit exactly when the node's own end does.\<close>

lemma scan_next_start:
  assumes ok: "mm_ok m0" and i: "scan_inv m0 us m" and r: "mm_ring m = cs @ x # ds"
    and x: "x \<in> set (mm_node_list m0)" and p: "p \<in> set (cs @ ds)"
  shows "node_end (mm_nodes m0) p < next_start (mm_nodes m0) ds (mm_hi m0) \<longleftrightarrow>
    node_end (mm_nodes m0) p < node_end (mm_nodes m0) x"
proof -
  let ?f = "mm_nodes m0"
  note srt = scan_invD(7) [OF ok i, unfolded r]
  have lx: "nd_start (?f x) < node_end ?f x" by (rule sound_lt [OF ok x])
  have memb: "y \<in> set (mm_node_list m0)" if "y \<in> set ds" for y
    using that r scan_invD(4) [OF ok i] by (cases cs) auto
  have ex: "node_end ?f x \<le> next_start ?f ds (mm_hi m0)"
    using srt ring_bounds(3) [OF ok x] by (cases ds) (auto simp: sorted_wrt_append)
  show ?thesis
  proof (cases "p \<in> set cs")
    case True
    then have "node_end ?f p \<le> nd_start (?f x)" using srt by (auto simp: sorted_wrt_append)
    with lx ex show ?thesis by (meson le_less_trans less_le_trans)
  next
    case False
    then have pd: "p \<in> set ds" using p by simp
    then obtain q qs where q: "ds = q # qs" by (cases ds) auto
    have lp: "nd_start (?f p) < node_end ?f p" by (rule sound_lt [OF ok memb [OF pd]])
    have lq: "nd_start (?f q) < node_end ?f q" by (rule sound_lt [OF ok memb]) (simp add: q)
    have "p = q \<or> node_end ?f q \<le> nd_start (?f p)" using pd q srt by (auto simp: sorted_wrt_append)
    then have "next_start ?f ds (mm_hi m0) \<le> node_end ?f p" using lp lq q by auto
    with ex show ?thesis by auto
  qed
qed

lemma scan_pop:
  assumes ok: "mm_ok m0" and st: "scan_stack m0 (x # us) m" and same: "scan_same m m2"
    and hit: "mm_scan_hit_end m2 = 0 \<or>
      (\<exists>p\<in>set (mm_ring m). mm_scan_hit_start m2 = node_end (mm_nodes m0) p)"
  shows "\<exists>m3 mu. scan_stack m0 us mu \<and> scan_same mu m3 \<and> set (mm_ring m) \<subseteq> set (mm_ring mu) \<and>
    drm_mm_scan_remove_block x m2 = Some (mm_scan_hit_start m2 < node_end (mm_nodes m0) x \<and>
      nd_start (mm_nodes m0 x) < mm_scan_hit_end m2, m3) \<and>
    mm_scan_hit_start m3 = mm_scan_hit_start m2 \<and> mm_scan_hit_end m3 = mm_scan_hit_end m2"
proof -
  from st obtain m1 b where s: "scan_stack m0 us m1" "x \<in> set (mm_node_list m1)"
    "drm_mm_scan_add_block x m1 = Some (b, m)" by auto
  note i1 = scan_stack_inv [OF ok s(1)] and i = scan_stack_inv [OF ok st]
  have d: "distinct (mm_ring m1)" and ns: "\<not> nd_scanned_block (mm_nodes m1 x)"
    using scan_invD(1,6) [OF ok i1] s(2) by blast+
  from ring_prev [OF s(2) d] obtain as p' bs where r: "mm_ring m1 = as @ p' # x # bs" by blast
  then have r': "mm_ring m1 = (as @ [p']) @ x # bs" by simp
  from scan_remove_spec [OF r d ns s(3) same] obtain m3 where
    m3: "drm_mm_scan_remove_block x m2 =
        Some (mm_scan_hit_start m2 < next_start (mm_nodes m1) bs (mm_hi m1) \<and>
          nd_start (mm_nodes m1 x) < mm_scan_hit_end m2, m3)" "scan_same m1 m3"
      "mm_scan_hit_start m3 = mm_scan_hit_start m2" "mm_scan_hit_end m3 = mm_scan_hit_end m2" by blast
  have geo: "nd_start (mm_nodes m1 y) = nd_start (mm_nodes m0 y)" for y by (rule scan_invD(2) [OF ok i1])
  have sub: "set (mm_ring m) = set (mm_ring m1) - {x}"
    using scan_invD(8) [OF ok i] scan_invD(8) [OF ok i1] by auto
  have "next_start (mm_nodes m1) bs (mm_hi m1) = next_start (mm_nodes m0) bs (mm_hi m0)"
    using next_start_cong [of bs "mm_nodes m1" "mm_nodes m0"] geo by simp
  moreover have "mm_scan_hit_start m2 < next_start (mm_nodes m0) bs (mm_hi m0) \<and>
        nd_start (mm_nodes m0 x) < mm_scan_hit_end m2 \<longleftrightarrow>
      mm_scan_hit_start m2 < node_end (mm_nodes m0) x \<and> nd_start (mm_nodes m0 x) < mm_scan_hit_end m2"
    using hit
  proof
    assume "\<exists>p\<in>set (mm_ring m). mm_scan_hit_start m2 = node_end (mm_nodes m0) p"
    then obtain p where p: "p \<in> set (mm_ring m1) - {x}" "mm_scan_hit_start m2 = node_end (mm_nodes m0) p"
      using sub by blast
    have x0: "x \<in> set (mm_node_list m0)" using s(2) scan_invD(4) [OF ok i1] by blast
    have "p \<in> set ((as @ [p']) @ bs)" using p(1) unfolding r' by auto
    from scan_next_start [OF ok i1 r' x0 this] p(2)
    show ?thesis by simp
  qed simp
  ultimately have "drm_mm_scan_remove_block x m2 = Some (mm_scan_hit_start m2 < node_end (mm_nodes m0) x \<and>
      nd_start (mm_nodes m0 x) < mm_scan_hit_end m2, m3)" using m3(1) geo [of x] by simp
  moreover have "set (mm_ring m) \<subseteq> set (mm_ring m1)" using sub by blast
  ultimately show ?thesis using s(1) m3(2-4) by blast
qed

section \<open>Properties\<close>

fun scan_add_all :: "nat list \<Rightarrow> drm_mm \<Rightarrow> drm_mm option" where
  "scan_add_all [] m = Some m"
| "scan_add_all (x # xs) m = do { (b, m') \<leftarrow> drm_mm_scan_add_block x m; scan_add_all xs m' }"

fun scan_remove_all :: "nat list \<Rightarrow> drm_mm \<Rightarrow> drm_mm option" where
  "scan_remove_all [] m = Some m"
| "scan_remove_all (x # xs) m = do { (b, m') \<leftarrow> drm_mm_scan_remove_block x m; scan_remove_all xs m' }"

lemma scan_remove_all_append:
  "scan_remove_all (xs @ ys) m = do { m' \<leftarrow> scan_remove_all xs m; scan_remove_all ys m' }"
  by (induction xs arbitrary: m) (auto split: bind_splits prod.splits)

lemma scan_add_remove:
  assumes "distinct (mm_ring m)" "\<forall>y\<in>set (mm_node_list m). \<not> nd_scanned_block (mm_nodes m y)"
    "distinct xs" "set xs \<subseteq> set (mm_node_list m)"
  shows "\<exists>m1. scan_add_all xs m = Some m1 \<and> (\<forall>m2. scan_same m1 m2 \<longrightarrow>
    (\<exists>m3. scan_remove_all (rev xs) m2 = Some m3 \<and> scan_same m m3))"
  using assms
proof (induction xs arbitrary: m)
  case (Cons x xs)
  have x: "x \<in> set (mm_node_list m)" using Cons.prems(4) by simp
  then have ns: "\<not> nd_scanned_block (mm_nodes m x)" using Cons.prems(2) by blast
  from ring_prev [OF x Cons.prems(1)] obtain as p bs where r: "mm_ring m = as @ p # x # bs" by blast
  have d: "distinct (as @ p # x # bs)" using r Cons.prems(1) by metis
  show ?case
  proof (rule scan_add_spec [OF r Cons.prems(1) ns], goal_cases)
    case (1 b ma)
    have px: "x \<noteq> p" "x \<noteq> 0" using d r by (auto, cases as, auto)
    have "mm_ring ma = 0 # remove1 x (mm_node_list m)" using 1(2) remove1_ring [OF r Cons.prems(1)] by simp
    then have l: "set (mm_node_list ma) = set (mm_node_list m) - {x}" using Cons.prems(1) by simp
    have dm: "distinct (mm_ring ma)" unfolding 1(2) using d by simp
    have nm: "\<forall>y\<in>set (mm_node_list ma). \<not> nd_scanned_block (mm_nodes ma y)"
      using l Cons.prems(2) px by (auto simp: 1(3) scan_unlink_nodes)
    have dx: "distinct xs" "set xs \<subseteq> set (mm_node_list ma)" using Cons.prems(3,4) l by auto
    from Cons.IH [OF dm nm dx] obtain m1 where m1: "scan_add_all xs ma = Some m1"
      "\<And>m2. scan_same m1 m2 \<Longrightarrow> \<exists>m3. scan_remove_all (rev xs) m2 = Some m3 \<and> scan_same ma m3" by blast
    have "\<exists>m4. scan_remove_all (rev (x # xs)) m2 = Some m4 \<and> scan_same m m4" if "scan_same m1 m2" for m2
    proof -
      from m1(2) [OF that] obtain m3 where m3: "scan_remove_all (rev xs) m2 = Some m3" "scan_same ma m3" by blast
      from scan_remove_spec [OF r Cons.prems(1) ns 1(1) m3(2)] m3(1) show ?thesis
        by (auto simp: scan_remove_all_append)
    qed
    with 1(1) m1(1) show ?case by auto
  qed
qed auto

text \<open>
  C24: adding any nodes of a well-formed allocator to a scan and taking them back in the
  opposite order never stops at an assertion and restores the allocator: its lists, its
  holes and every node, up to the fields that only the scan uses.
\<close>

theorem drm_scan_roundtrip:
  assumes "mm_ok m" "distinct xs" "set xs \<subseteq> set (mm_node_list m)"
  shows "\<exists>m1 m2. scan_add_all xs m = Some m1 \<and> scan_remove_all (rev xs) m1 = Some m2 \<and>
    mm_ok m2 \<and> mm_blocks m2 = mm_blocks m \<and> mm_node_list m2 = mm_node_list m \<and>
    mm_hole_stack m2 = mm_hole_stack m \<and> mm_scanned_blocks m2 = mm_scanned_blocks m \<and>
    (\<forall>x. node_eq (mm_nodes m x) (mm_nodes m2 x))"
proof -
  have "\<forall>y\<in>set (mm_node_list m). \<not> nd_scanned_block (mm_nodes m y)"
    using mm_okD(3) [OF assms(1)] by (simp add: node_sound_def)
  from scan_add_remove [OF mm_okD(1) [OF assms(1)] this assms(2,3)] obtain m1 m2 where
    m: "scan_add_all xs m = Some m1" "scan_remove_all (rev xs) m1 = Some m2" "scan_same m m2"
    using scan_same_refl by blast
  with scan_same_ok [OF m(3)] assms(1) show ?thesis by (auto simp: scan_same_def)
qed

theorem drm_scan_roundtrip_witness:
  "\<exists>m m1 m2. insert_all [(1, 100), (2, 50)] (drm_mm_init 0 1000 blank_mm) = Some m \<and>
     scan_add_all [2, 1] m = Some m1 \<and> mm_node_list m1 = [] \<and>
     scan_remove_all [1, 2] m1 = Some m2 \<and> mm_node_list m2 = [1, 2]"
proof -
  let ?m0 = "drm_mm_init 0 1000 blank_mm"
  have i: "drm_inv ?m0" using blank_init by (simp add: drm_inv_def)
  have n: "unat (0 :: ulong) \<le> 2 ^ 62" "unat (100 :: ulong) \<le> 2 ^ 62" "(100 :: ulong) \<noteq> 0"
    "unat (50 :: ulong) \<le> 2 ^ 62" "(50 :: ulong) \<noteq> 0" by simp_all
  have ev: "do { (e1, m1) \<leftarrow> drm_mm_insert_node_generic 1 100 0 0 False ?m0;
      (e2, m2) \<leftarrow> drm_mm_insert_node_generic 2 50 0 0 False m1;
      m3 \<leftarrow> scan_add_all [2, 1] m2;
      Some (e1, e2, mm_node_list m2, mm_node_list m3) } = Some (0, 0, [1, 2], [])" by code_simp
  then obtain m1 m2 m3 where m: "drm_mm_insert_node_generic 1 100 0 0 False ?m0 = Some (0, m1)"
    "drm_mm_insert_node_generic 2 50 0 0 False m1 = Some (0, m2)" "mm_node_list m2 = [1, 2]"
    "scan_add_all [2, 1] m2 = Some m3" "mm_node_list m3 = []"
    by (auto split: bind_splits prod.splits)
  have c: "node_clear ?m0 1" "node_clear ?m0 2" by (rule blank_init(7), simp)+
  from insert_range_spec [OF blank_init(1,3,4) c(1) blank_init(5) n(1-3), of 0 0 "- 1" False] m(1)
  have k1: "mm_ok m1" "mm_frame ?m0 1 m1" by (auto simp: ENOSPC_def insert_generic_range)
  have d1: "drm_inv m1" "node_clear m1 2" using frame_inv [OF i k1] c(2) by simp_all
  then have "mm_scanned_blocks m1 = 0" "mm_small m1" "color_narrows m1"
    by (simp_all add: drm_inv_def color_narrows_def)
  from insert_range_spec [OF k1(1) this(1,2) d1(2) this(3) n(1,4,5), of 0 0 "- 1" False] m(2)
  have "mm_ok m2" by (auto simp: ENOSPC_def insert_generic_range)
  from drm_scan_roundtrip [OF this, of "[2, 1]"] m show ?thesis by auto
qed

text \<open>
  The comment at \<^verbatim>\<open>drm_mm_scan_remove_block\<close> asks for the same order as they were added.  In
  that order the node list is not restored.
\<close>

lemma scan_same_order_breaks:
  "do { m \<leftarrow> insert_all [(1, 100), (2, 50)] (drm_mm_init 0 1000 blank_mm);
        m1 \<leftarrow> scan_add_all [1, 2] m;
        m2 \<leftarrow> scan_remove_all [1, 2] m1;
        Some (mm_node_list m, mm_node_list m2) } = Some ([1, 2], [2, 1])"
  by code_simp

end
