(* ===== verification/GemEvict.thy ===== *)
theory GemEvict
  imports DrmMM_Scan
begin

text \<open>
  Eviction from a GEM address space (\<^verbatim>\<open>src/gfx_gem_mm/i915_gem_evict.c\<close>), the client of the
  range allocator's scan.

  A \<^verbatim>\<open>struct i915_vma\<close> is named by the number of the \<^verbatim>\<open>drm_mm_node\<close> embedded in it.
  \<^verbatim>\<open>vma_on_exec\<close> says that its \<^verbatim>\<open>exec_list\<close> link is not empty, and \<^verbatim>\<open>vma_refs\<close> counts the references
  to its object.  The functions of other files are parameters: \<^verbatim>\<open>idle\<close> for
  \<^verbatim>\<open>i915_gpu_idle\<close>, \<^verbatim>\<open>retire\<close> for \<^verbatim>\<open>i915_gem_retire_requests\<close>, \<^verbatim>\<open>unbind\<close> for \<^verbatim>\<open>i915_vma_unbind\<close>, and
  \<^verbatim>\<open>pending\<close> for \<^verbatim>\<open>intel_has_pending_fb_unpin\<close>; \<^verbatim>\<open>unbind_ok\<close> states what the code relies on.
  A \<^verbatim>\<open>BUG_ON\<close> that fires is \<^verbatim>\<open>None\<close>.
\<close>

section \<open>State\<close>

record i915_vma =
  vma_pin_count :: nat
  vma_on_exec :: bool
  vma_refs :: int

record i915_vm =
  vm_mm :: drm_mm
  vm_total :: ulong
  vm_inactive :: "nat list"
  vm_active :: "nat list"
  vm_vma :: "nat \<Rightarrow> i915_vma"

definition upd_vma :: "nat \<Rightarrow> (i915_vma \<Rightarrow> i915_vma) \<Rightarrow> i915_vm \<Rightarrow> i915_vm" where
  "upd_vma x f vm = vm\<lparr>vm_vma := (vm_vma vm)(x := f (vm_vma vm x))\<rparr>"

definition EAGAIN :: int where
  "EAGAIN = 11"

section \<open>Marking and unwinding\<close>

definition mark_free :: "nat \<Rightarrow> nat list \<Rightarrow> i915_vm \<Rightarrow> (bool \<times> nat list \<times> i915_vm) option" where
  "mark_free x unwind vm =
     (if vma_pin_count (vm_vma vm x) \<noteq> 0 then Some (False, unwind, vm)
      else if vma_on_exec (vm_vma vm x) then Some (False, unwind, vm)
      else do {
        let vm1 = upd_vma x (\<lambda>v. v\<lparr>vma_on_exec := True\<rparr>) vm;
        (b, mm) \<leftarrow> drm_mm_scan_add_block x (vm_mm vm1);
        Some (b, x # unwind, vm1\<lparr>vm_mm := mm\<rparr>) })"

fun mark_loop :: "nat list \<Rightarrow> nat list \<Rightarrow> i915_vm \<Rightarrow> (bool \<times> nat list \<times> i915_vm) option" where
  "mark_loop [] unwind vm = Some (False, unwind, vm)"
| "mark_loop (x # xs) unwind vm =
     do { (found, unwind', vm') \<leftarrow> mark_free x unwind vm;
          if found then Some (True, unwind', vm') else mark_loop xs unwind' vm' }"

definition search_lists :: "bool \<Rightarrow> i915_vm \<Rightarrow> (bool \<times> nat list \<times> i915_vm) option" where
  "search_lists nonblock vm =
     do { (found, unwind, vm1) \<leftarrow> mark_loop (vm_inactive vm) [] vm;
          if found then Some (True, unwind, vm1)
          else if nonblock then Some (False, unwind, vm1)
          else mark_loop (vm_active vm1) unwind vm1 }"

fun unwind_none :: "nat list \<Rightarrow> i915_vm \<Rightarrow> i915_vm option" where
  "unwind_none [] vm = Some vm"
| "unwind_none (x # unwind) vm =
     do { (ret, mm) \<leftarrow> drm_mm_scan_remove_block x (vm_mm vm);
          if ret then None
          else unwind_none unwind (upd_vma x (\<lambda>v. v\<lparr>vma_on_exec := False\<rparr>) (vm\<lparr>vm_mm := mm\<rparr>)) }"

fun unwind_found :: "nat list \<Rightarrow> nat list \<Rightarrow> i915_vm \<Rightarrow> (nat list \<times> i915_vm) option" where
  "unwind_found [] eviction vm = Some (eviction, vm)"
| "unwind_found (x # unwind) eviction vm =
     do { (evict, mm) \<leftarrow> drm_mm_scan_remove_block x (vm_mm vm);
          if evict then
            unwind_found unwind (x # eviction)
              (upd_vma x (\<lambda>v. v\<lparr>vma_refs := vma_refs v + 1\<rparr>) (vm\<lparr>vm_mm := mm\<rparr>))
          else unwind_found unwind eviction
              (upd_vma x (\<lambda>v. v\<lparr>vma_on_exec := False\<rparr>) (vm\<lparr>vm_mm := mm\<rparr>)) }"

fun unbind_all :: "(nat \<Rightarrow> i915_vm \<Rightarrow> int \<times> i915_vm) \<Rightarrow> nat list \<Rightarrow> int \<Rightarrow> i915_vm \<Rightarrow> int \<times> i915_vm" where
  "unbind_all unbind [] ret vm = (ret, vm)"
| "unbind_all unbind (x # eviction) ret vm =
     (let vm1 = upd_vma x (\<lambda>v. v\<lparr>vma_on_exec := False\<rparr>) vm;
          (ret', vm2) = (if ret = 0 then unbind x vm1 else (ret, vm1))
      in unbind_all unbind eviction ret' (upd_vma x (\<lambda>v. v\<lparr>vma_refs := vma_refs v - 1\<rparr>) vm2))"

section \<open>Evicting\<close>

text \<open>
  One pass of the search: either the result of an eviction, or the address space after
  everything has been unwound.
\<close>

datatype pass_result = Done int i915_vm | Nothing_found i915_vm

definition search_pass ::
  "(nat \<Rightarrow> i915_vm \<Rightarrow> int \<times> i915_vm) \<Rightarrow> bool \<Rightarrow> i915_vm \<Rightarrow> pass_result option" where
  "search_pass unbind nonblock vm =
     do { (found, unwind, vm1) \<leftarrow> search_lists nonblock vm;
          if found then
            do { (eviction, vm2) \<leftarrow> unwind_found unwind [] vm1;
                 Some (case unbind_all unbind eviction 0 vm2 of (ret, vm3) \<Rightarrow> Done ret vm3) }
          else map_option Nothing_found (unwind_none unwind vm1) }"

definition i915_gem_evict_something ::
  "(i915_vm \<Rightarrow> int \<times> i915_vm) \<Rightarrow> (i915_vm \<Rightarrow> i915_vm) \<Rightarrow> (nat \<Rightarrow> i915_vm \<Rightarrow> int \<times> i915_vm) \<Rightarrow> bool \<Rightarrow>
   32 word \<Rightarrow> 32 word \<Rightarrow> ulong \<Rightarrow> ulong \<Rightarrow> ulong \<Rightarrow> bool \<Rightarrow> i915_vm \<Rightarrow> (int \<times> i915_vm) option" where
  "i915_gem_evict_something idle retire unbind pending min_size alignment cache_level start end' nonblock vm =
     do { let mm = (if start \<noteq> 0 \<or> end' \<noteq> vm_total vm
            then drm_mm_init_scan_with_range (scast min_size) alignment cache_level start end' (vm_mm vm)
            else drm_mm_init_scan (scast min_size) alignment cache_level (vm_mm vm));
          r \<leftarrow> search_pass unbind nonblock (vm\<lparr>vm_mm := mm\<rparr>);
          case r of
            Done ret vm1 \<Rightarrow> Some (ret, vm1)
          | Nothing_found vm1 \<Rightarrow>
              if nonblock then Some (- ENOSPC, vm1)
              else (case idle vm1 of (ret, vm2) \<Rightarrow>
                if ret \<noteq> 0 then Some (ret, vm2)
                else do {
                  r2 \<leftarrow> search_pass unbind nonblock (retire vm2);
                  case r2 of
                    Done ret vm3 \<Rightarrow> Some (ret, vm3)
                  | Nothing_found vm3 \<Rightarrow> Some (if pending then - EAGAIN else - ENOSPC, vm3) }) }"

fun evict_loop :: "(nat \<Rightarrow> i915_vm \<Rightarrow> int \<times> i915_vm) \<Rightarrow> nat list \<Rightarrow> i915_vm \<Rightarrow> i915_vm" where
  "evict_loop unbind [] vm = vm"
| "evict_loop unbind (x # xs) vm =
     evict_loop unbind xs (if vma_pin_count (vm_vma vm x) = 0 then snd (unbind x vm) else vm)"

definition i915_gem_evict_vm ::
  "(i915_vm \<Rightarrow> int \<times> i915_vm) \<Rightarrow> (i915_vm \<Rightarrow> i915_vm) \<Rightarrow> (nat \<Rightarrow> i915_vm \<Rightarrow> int \<times> i915_vm) \<Rightarrow> bool \<Rightarrow>
   i915_vm \<Rightarrow> int \<times> i915_vm" where
  "i915_gem_evict_vm idle retire unbind do_idle vm =
     (if do_idle then
        (case idle vm of (ret, vm1) \<Rightarrow>
           if ret \<noteq> 0 then (ret, vm1)
           else (0, evict_loop unbind (vm_inactive (retire vm1)) (retire vm1)))
      else (0, evict_loop unbind (vm_inactive vm) vm))"

fun lists_empty_loop :: "bool \<Rightarrow> i915_vm list \<Rightarrow> bool" where
  "lists_empty_loop lists_empty [] = lists_empty"
| "lists_empty_loop lists_empty (vm # vms) =
     (let e = (vm_inactive vm = [] \<and> vm_active vm = [])
      in lists_empty_loop (if \<not> e then False else e) vms)"

definition i915_gem_evict_everything ::
  "(i915_vm list \<Rightarrow> int \<times> i915_vm list) \<Rightarrow> (i915_vm list \<Rightarrow> i915_vm list) \<Rightarrow>
   (i915_vm \<Rightarrow> int \<times> i915_vm) \<Rightarrow> (i915_vm \<Rightarrow> i915_vm) \<Rightarrow> (nat \<Rightarrow> i915_vm \<Rightarrow> int \<times> i915_vm) \<Rightarrow>
   i915_vm list \<Rightarrow> int \<times> i915_vm list" where
  "i915_gem_evict_everything dev_idle dev_retire idle retire unbind vms =
     (if lists_empty_loop True vms then (- ENOSPC, vms)
      else (case dev_idle vms of (ret, vms1) \<Rightarrow>
        if ret \<noteq> 0 then (ret, vms1)
        else (0, map (\<lambda>vm. snd (i915_gem_evict_vm idle retire unbind False vm)) (dev_retire vms1))))"

end
