(* ===== verification/GemEvict_Props.thy ===== *)
theory GemEvict_Props
  imports GemEvict
begin

text \<open>
  Correctness of the eviction: the marking and unwinding loops keep the allocator's
  scan stack, none of the assertions fires, and a successful eviction leaves room for
  the requested block.
\<close>

section \<open>Marking\<close>

text \<open>
  A well-formed address space with no scan in progress.  Any of its vmas may be pinned, and any may be on the
  \<^verbatim>\<open>exec_list\<close> of its user, as \<^verbatim>\<open>i915_gem_execbuffer.c\<close> puts them there.
\<close>

definition gem_ok :: "i915_vm \<Rightarrow> bool" where
  "gem_ok vm = (mm_ok (vm_mm vm) \<and> mm_scanned_blocks (vm_mm vm) = 0 \<and> mm_small (vm_mm vm) \<and>
     set (vm_inactive vm) \<union> set (vm_active vm) \<subseteq> set (mm_node_list (vm_mm vm)))"

text \<open>The vmas on some \<^verbatim>\<open>exec_list\<close>: those that were there before the search, and those of the list \<^verbatim>\<open>us\<close>.\<close>

definition busy :: "i915_vm \<Rightarrow> nat list \<Rightarrow> nat \<Rightarrow> bool" where
  "busy v0 us x \<longleftrightarrow> vma_on_exec (vm_vma v0 x) \<or> x \<in> set us"

abbreviation unlisted :: "i915_vm \<Rightarrow> nat list \<Rightarrow> bool" where
  "unlisted v0 us \<equiv> \<forall>x\<in>set us. \<not> vma_on_exec (vm_vma v0 x)"

lemma busy_simps:
  "busy v0 (us @ vs) = (\<lambda>x. busy v0 us x \<or> busy v0 vs x)" "(busy v0 us)(x := True) = busy v0 (x # us)"
  "\<not> vma_on_exec (vm_vma v0 x) \<Longrightarrow> x \<notin> set us \<Longrightarrow> (busy v0 (x # us))(x := False) = busy v0 us"
  by (auto simp: busy_def fun_eq_iff)

definition marked :: "i915_vm \<Rightarrow> (nat \<Rightarrow> bool) \<Rightarrow> (nat \<Rightarrow> int) \<Rightarrow> drm_mm \<Rightarrow> i915_vm" where
  "marked v0 on refs m = v0\<lparr>vm_mm := m, vm_vma := (\<lambda>x. (vm_vma v0 x)\<lparr>vma_on_exec := on x,
     vma_refs := vma_refs (vm_vma v0 x) + refs x\<rparr>)\<rparr>"

lemma marked_simps [simp]:
  "vm_mm (marked v0 on refs m) = m" "vm_inactive (marked v0 on refs m) = vm_inactive v0"
  "vm_active (marked v0 on refs m) = vm_active v0"
  "vma_on_exec (vm_vma (marked v0 on refs m) x) = on x"
  "vma_pin_count (vm_vma (marked v0 on refs m) x) = vma_pin_count (vm_vma v0 x)"
  "(marked v0 on refs m)\<lparr>vm_mm := m'\<rparr> = marked v0 on refs m'"
  "upd_vma x (\<lambda>v. v\<lparr>vma_on_exec := b\<rparr>) (marked v0 on refs m) = marked v0 (on(x := b)) refs m"
  "upd_vma x (\<lambda>v. v\<lparr>vma_refs := vma_refs v + 1\<rparr>) (marked v0 on refs m) =
     marked v0 on (refs(x := refs x + 1)) m"
  by (auto simp: marked_def upd_vma_def fun_eq_iff)

lemma marked_none: "marked v0 (busy v0 []) (\<lambda>_. 0) m = v0\<lparr>vm_mm := m\<rparr>"
proof -
  have "(\<lambda>x. (vm_vma v0 x)\<lparr>vma_on_exec := busy v0 [] x, vma_refs := vma_refs (vm_vma v0 x) + 0\<rparr>) = vm_vma v0"
    by (intro ext) (simp add: busy_def)
  then show ?thesis by (simp add: marked_def)
qed

text \<open>The scan stands on a hit: the hole behind \<^verbatim>\<open>p\<close> passed the size test.\<close>

definition hit_found :: "drm_mm \<Rightarrow> drm_mm \<Rightarrow> bool" where
  "hit_found m0 m = (\<exists>as p bs. mm_ring m = as @ p # bs \<and>
     mm_scan_hit_start m = node_end (mm_nodes m0) p \<and>
     mm_scan_hit_end m = next_start (mm_nodes m0) bs (mm_hi m0) \<and>
     (case scan_bounds m p (mm_scan_hit_start m, mm_scan_hit_end m) of
        (s, e) \<Rightarrow> check_free_hole s e (mm_scan_size m0) (mm_scan_alignment m0)))"

lemma scan_push:
  assumes ok: "mm_ok m0" and st: "scan_stack m0 us m" and x: "x \<in> set (mm_node_list m0)" "x \<notin> set us"
  shows "\<exists>b m'. drm_mm_scan_add_block x m = Some (b, m') \<and> scan_stack m0 (x # us) m' \<and>
    (if b then hit_found m0 m'
     else mm_scan_hit_start m' = mm_scan_hit_start m \<and> mm_scan_hit_end m' = mm_scan_hit_end m)"
proof -
  note i = scan_stack_inv [OF ok st] and iD = scan_invD [OF ok scan_stack_inv [OF ok st]]
  have xm: "x \<in> set (mm_node_list m)" using x iD(4) by blast
  from ring_prev [OF xm iD(1)] obtain as p bs where r: "mm_ring m = as @ p # x # bs" by blast
  have hs: "node_end (mm_nodes m) p = node_end (mm_nodes m0) p" using iD(2,3) by (simp add: node_end_def)
  have he: "next_start (mm_nodes m) bs (mm_hi m) = next_start (mm_nodes m0) bs (mm_hi m0)"
    using next_start_cong [of bs "mm_nodes m" "mm_nodes m0"] iD(2) by simp
  have par: "mm_scan_size m = mm_scan_size m0" "mm_scan_alignment m = mm_scan_alignment m0"
    using i by (simp_all add: scan_inv_def)
  show ?thesis
  proof (rule scan_add_spec [OF r iD(1) iD(6) [OF xm]], goal_cases)
    case (1 b m')
    have st': "scan_stack m0 (x # us) m'" using st xm 1(1) by auto
    show ?case
    proof (cases b)
      case True
      then have "mm_scan_hit_start m' = node_end (mm_nodes m0) p"
        "mm_scan_hit_end m' = next_start (mm_nodes m0) bs (mm_hi m0)" using 1(14) hs he by simp_all
      moreover from this True 1(13) have "case scan_bounds m' p (mm_scan_hit_start m', mm_scan_hit_end m') of
          (s, e) \<Rightarrow> check_free_hole s e (mm_scan_size m0) (mm_scan_alignment m0)"
        using hs he par by simp
      ultimately have "hit_found m0 m'"
        unfolding hit_found_def using 1(2) by (intro exI [of _ as] exI [of _ p] exI [of _ bs] conjI)
      with 1(1) st' True show ?thesis by auto
    next
      case False
      with 1(1,14) st' show ?thesis by auto
    qed
  qed
qed

lemma mark_loop_spec:
  assumes ok: "mm_ok m0" and xs: "set xs \<subseteq> set (mm_node_list m0)" and st: "scan_stack m0 us m" and un: "unlisted v0 us"
  shows "\<exists>found us' m'. mark_loop xs us (marked v0 (busy v0 us) (\<lambda>_. 0) m) =
      Some (found, us', marked v0 (busy v0 us') (\<lambda>_. 0) m') \<and> scan_stack m0 us' m' \<and> unlisted v0 us' \<and>
    (if found then hit_found m0 m'
     else mm_scan_hit_start m' = mm_scan_hit_start m \<and> mm_scan_hit_end m' = mm_scan_hit_end m)"
  using xs st un
proof (induction xs arbitrary: us m)
  case (Cons x xs)
  show ?case
  proof (cases "vma_pin_count (vm_vma v0 x) \<noteq> 0 \<or> busy v0 us x")
    case True
    then have "mark_loop (x # xs) us (marked v0 (busy v0 us) (\<lambda>_. 0) m) =
        mark_loop xs us (marked v0 (busy v0 us) (\<lambda>_. 0) m)" by (auto simp: mark_free_def)
    with Cons show ?thesis by auto
  next
    case False
    then have xu: "x \<notin> set us" "\<not> vma_on_exec (vm_vma v0 x)" by (simp_all add: busy_def)
    from Cons.prems xu scan_push [OF ok Cons.prems(2), of x] obtain b m' where
      a: "drm_mm_scan_add_block x m = Some (b, m')" "scan_stack m0 (x # us) m'"
        "if b then hit_found m0 m'
         else mm_scan_hit_start m' = mm_scan_hit_start m \<and> mm_scan_hit_end m' = mm_scan_hit_end m" by auto
    have un': "unlisted v0 (x # us)" using Cons.prems(3) xu by simp
    have f: "mark_free x us (marked v0 (busy v0 us) (\<lambda>_. 0) m) =
        Some (b, x # us, marked v0 (busy v0 (x # us)) (\<lambda>_. 0) m')"
      using False a(1) by (simp add: mark_free_def busy_simps)
    from Cons.IH [OF _ a(2) un'] Cons.prems(1) obtain found us' m'' where
      IH: "mark_loop xs (x # us) (marked v0 (busy v0 (x # us)) (\<lambda>_. 0) m') =
          Some (found, us', marked v0 (busy v0 us') (\<lambda>_. 0) m'')" "scan_stack m0 us' m''" "unlisted v0 us'"
        "if found then hit_found m0 m''
         else mm_scan_hit_start m'' = mm_scan_hit_start m' \<and> mm_scan_hit_end m'' = mm_scan_hit_end m'" by auto
    show ?thesis
    proof (cases b)
      case True
      with f a un' show ?thesis by (simp del: set_simps scan_stack.simps) blast
    next
      case False
      with f a(3) IH show ?thesis
        by (auto simp del: set_simps scan_stack.simps split: if_splits)
    qed
  qed
qed (auto intro!: exI [of _ False])

section \<open>Unwinding\<close>

lemma stack_distinct:
  assumes "mm_ok m0" "scan_stack m0 (x # us) m"
  shows "x \<notin> set us"
  using assms scan_invD(4) [OF assms(1) scan_stack_inv [OF assms(1)]] by fastforce

lemma unwind_none_spec:
  assumes ok: "mm_ok m0" and "scan_stack m0 us mu" "scan_same mu m" "mm_scan_hit_end m = 0" "unlisted v0 us"
  shows "\<exists>m'. unwind_none us (marked v0 (busy v0 us) (\<lambda>_. 0) m) = Some (v0\<lparr>vm_mm := m'\<rparr>) \<and>
    scan_same m0 m' \<and> mm_scan_hit_end m' = 0"
  using assms(2-5)
proof (induction us arbitrary: mu m)
  case (Cons x us)
  from scan_pop [OF ok Cons.prems(1,2)] Cons.prems(3) obtain m3 mu' where
    p: "scan_stack m0 us mu'" "scan_same mu' m3" "drm_mm_scan_remove_block x m = Some (False, m3)"
      "mm_scan_hit_end m3 = 0" by auto
  have on: "(busy v0 (x # us))(x := False) = busy v0 us"
    using stack_distinct [OF ok Cons.prems(1)] Cons.prems(4) by (simp add: busy_simps)
  from Cons.IH [OF p(1,2,4)] Cons.prems(4) p(3) show ?case by (simp add: on)
qed (auto simp: marked_none)

definition overlaps :: "drm_mm \<Rightarrow> drm_mm \<Rightarrow> nat \<Rightarrow> bool" where
  "overlaps m0 m x = (mm_scan_hit_start m < node_end (mm_nodes m0) x \<and>
     nd_start (mm_nodes m0 x) < mm_scan_hit_end m)"

definition one_if :: "nat set \<Rightarrow> nat \<Rightarrow> int" where
  "one_if A x = (if x \<in> A then 1 else 0)"

lemma one_if_empty [simp]: "one_if {} = (\<lambda>_. 0)"
  by (simp add: one_if_def fun_eq_iff)

lemma unwind_found_spec:
  assumes ok: "mm_ok m0" and "scan_stack m0 us mu" "scan_same mu m"
    "\<exists>p\<in>set (mm_ring mu). mm_scan_hit_start m = node_end (mm_nodes m0) p" "set us \<inter> set ev = {}" "unlisted v0 us"
  shows "\<exists>m' ev'. unwind_found us ev (marked v0 (busy v0 (us @ ev)) (one_if (set ev)) m) =
      Some (ev', marked v0 (busy v0 ev') (one_if (set ev')) m') \<and> scan_same m0 m' \<and>
    ev' = rev (filter (overlaps m0 m) us) @ ev"
  using assms(2-6)
proof (induction us arbitrary: mu m ev)
  case (Cons x us)
  from scan_pop [OF ok Cons.prems(1,2)] Cons.prems(3) obtain m3 mu' where
    p: "scan_stack m0 us mu'" "scan_same mu' m3" "set (mm_ring mu) \<subseteq> set (mm_ring mu')"
      "drm_mm_scan_remove_block x m = Some (overlaps m0 m x, m3)"
      "mm_scan_hit_start m3 = mm_scan_hit_start m" "mm_scan_hit_end m3 = mm_scan_hit_end m"
    by (auto simp: overlaps_def)
  have hit: "\<exists>p\<in>set (mm_ring mu'). mm_scan_hit_start m3 = node_end (mm_nodes m0) p"
    using Cons.prems(3) p(3,5) by auto
  have ov: "overlaps m0 m3 = overlaps m0 m" using p(5,6) by (simp add: overlaps_def fun_eq_iff)
  have xu: "x \<notin> set us" "x \<notin> set ev" using stack_distinct [OF ok Cons.prems(1)] Cons.prems(4) by auto
  have un: "unlisted v0 us" using Cons.prems(5) by simp
  show ?case
  proof (cases "overlaps m0 m x")
    case True
    have o1: "busy v0 ((x # us) @ ev) = busy v0 (us @ x # ev)" by (auto simp: busy_def fun_eq_iff)
    have o2: "(one_if (set ev))(x := one_if (set ev) x + 1) = one_if (set (x # ev))"
      using xu by (auto simp: one_if_def fun_eq_iff)
    have "set us \<inter> set (x # ev) = {}" using Cons.prems(4) xu by auto
    from Cons.IH [OF p(1,2) hit this un] p(4) True show ?thesis
      unfolding o1 by (simp add: o2 ov del: set_simps)
  next
    case False
    have on: "(busy v0 ((x # us) @ ev))(x := False) = busy v0 (us @ ev)"
      using xu Cons.prems(5) by (auto simp: busy_def fun_eq_iff)
    have "set us \<inter> set ev = {}" using Cons.prems(4) by auto
    from Cons.IH [OF p(1,2) hit this un] p(4) False on show ?thesis
      by (simp add: ov del: set_simps)
  qed
qed auto

text \<open>A hole of the scanned list: where it lies, and what the other nodes keep clear of.\<close>

lemma scan_hole:
  assumes ok: "mm_ok m0" and i: "scan_inv m0 us m" and r: "mm_ring m = as @ p # bs"
  shows "node_end (mm_nodes m0) 0 \<le> node_end (mm_nodes m0) p"
    "node_end (mm_nodes m0) p \<le> next_start (mm_nodes m0) bs (mm_hi m0)"
    "next_start (mm_nodes m0) bs (mm_hi m0) \<le> mm_hi m0"
    "y \<in> set (mm_node_list m) \<Longrightarrow> node_end (mm_nodes m0) y \<le> node_end (mm_nodes m0) p \<or>
       next_start (mm_nodes m0) bs (mm_hi m0) \<le> nd_start (mm_nodes m0 y)"
proof -
  let ?f = "mm_nodes m0"
  let ?s = "node_end ?f p" and ?e = "next_start ?f bs (mm_hi m0)"
  note iD = scan_invD [OF ok i]
  note srt = iD(7) [unfolded r]
  have pm: "p = 0 \<or> p \<in> set (mm_node_list m0)" using iD(8) r by (metis Diff_iff in_set_conv_decomp set_ConsD)
  have pl: "p \<in> set (mm_node_list m0)" if "as \<noteq> []" using pm that r iD(1) by (cases as) auto
  have bl: "y \<in> set (mm_node_list m0)" if "y \<in> set bs" for y using that r iD(4) by (cases as) auto
  show "node_end ?f 0 \<le> ?s"
    using pm ring_bounds(2) [OF ok] sound_lt [OF ok] by (meson less_imp_le order_refl order_trans)
  show "?s \<le> ?e" using srt pm ring_bounds(1,3) [OF ok] by (cases bs) (auto simp: sorted_wrt_append)
  show "?e \<le> mm_hi m0"
  proof (cases bs)
    case (Cons q qs)
    then have "q \<in> set (mm_node_list m0)" by (intro bl) simp
    with Cons ring_bounds(3) [OF ok this] sound_lt [OF ok this] show ?thesis by simp
  qed simp
  assume "y \<in> set (mm_node_list m)"
  then have "y \<in> set (as @ p # bs)" using r by (metis list.set_intros(2))
  then consider "y \<in> set as" | "y = p" | "y \<in> set bs" by auto
  then show "node_end ?f y \<le> ?s \<or> ?e \<le> nd_start (?f y)"
  proof cases
    case 1
    then have "node_end ?f y \<le> nd_start (?f p)" using srt by (auto simp: sorted_wrt_append)
    moreover have "nd_start (?f p) < ?s" using 1 by (intro sound_lt [OF ok pl]) auto
    ultimately show ?thesis by auto
  next
    case 3
    then obtain q qs where q: "bs = q # qs" by (cases bs) auto
    have "q = y \<or> node_end ?f q \<le> nd_start (?f y)" using 3 q srt by (auto simp: sorted_wrt_append)
    moreover have "nd_start (?f q) < node_end ?f q" by (rule sound_lt [OF ok bl]) (simp add: q)
    ultimately show ?thesis using q by auto
  qed simp
qed

text \<open>When the overlapping blocks are gone, the place the scan found is vacant.\<close>

lemma hit_vacant:
  assumes ok: "mm_ok m0" and sm: "mm_small m0" and st: "scan_stack m0 us m" and hit: "hit_found m0 m"
    and cn: "mm_color_adjust m0 = None"
    and z: "unat (mm_scan_size m0) \<le> 2 ^ 62" "mm_scan_check_range m0 \<longrightarrow> unat (mm_scan_start m0) \<le> 2 ^ 62"
    and b: "\<And>x s w. blocks x = Some (s, w) \<Longrightarrow>
      mm_blocks m0 x = Some (s, w) \<and> \<not> (x \<in> set us \<and> overlaps m0 m x)"
  shows "\<exists>a. aligned (mm_scan_alignment m0) a \<and> vacant (mm_span m0) blocks a (unat (mm_scan_size m0)) \<and>
    (mm_scan_check_range m0 \<longrightarrow> unat (mm_scan_start m0) \<le> a \<and>
       a + unat (mm_scan_size m0) \<le> unat (mm_scan_end m0))"
proof -
  note i = scan_stack_inv [OF ok st]
  note iD = scan_invD [OF ok i]
  let ?f = "mm_nodes m0"
  from hit obtain as p bs where r: "mm_ring m = as @ p # bs"
    and hs: "mm_scan_hit_start m = node_end ?f p" "mm_scan_hit_end m = next_start ?f bs (mm_hi m0)"
    and ck: "case scan_bounds m p (node_end ?f p, next_start ?f bs (mm_hi m0)) of
        (s, e) \<Rightarrow> check_free_hole s e (mm_scan_size m0) (mm_scan_alignment m0)"
    unfolding hit_found_def by auto
  let ?s = "node_end ?f p" and ?e = "next_start ?f bs (mm_hi m0)"
  note gap = scan_hole [OF ok i r]
  have sep: "node_end ?f y \<le> ?s \<or> ?e \<le> nd_start (?f y)" if "mm_blocks m0 y \<noteq> None" "y \<notin> set us" for y
    using that iD(4) gap(4) [of y] by (auto simp: mm_blocks_def split: if_splits)
  obtain s' e' where b': "scan_bounds m p (?s, ?e) = (s', e')" by fastforce
  have par: "mm_scan_check_range m = mm_scan_check_range m0" "mm_scan_start m = mm_scan_start m0"
    "mm_scan_end m = mm_scan_end m0" "mm_color_adjust m = None" using i cn by (simp_all add: scan_inv_def)
  have rng: "?s \<le> s'" "e' \<le> ?e" "s' = ?s \<or> mm_scan_check_range m0 \<and> s' = mm_scan_start m0"
    "mm_scan_check_range m0 \<longrightarrow> mm_scan_start m0 \<le> s' \<and> e' \<le> mm_scan_end m0"
    using b' par by (auto simp: scan_bounds_def color_adjusted_def range_clip_def split: if_splits)
  have hi: "unat (mm_hi m0) \<le> 2 ^ 62" using sm by (simp add: mm_small_def)
  have u: "unat e' \<le> 2 ^ 62" "unat s' \<le> 2 ^ 62"
    using rng gap(2,3) hi z(2) by (auto simp: word_le_nat_alt)
  from ck b' check_free_hole_ex [OF u(2,1) z(1)] obtain a where
    a: "aligned (mm_scan_alignment m0) a" "unat s' \<le> a" "a + unat (mm_scan_size m0) \<le> unat e'" by auto
  have "a + unat (mm_scan_size m0) \<le> s \<or> s + w \<le> a" if "blocks x = Some (s, w)" for x s w
  proof -
    note bx = b [OF that]
    have "node_end ?f x \<le> ?s \<or> ?e \<le> nd_start (?f x)"
      using bx sep [of x] hs by (auto simp: overlaps_def not_less)
    moreover have "s = unat (nd_start (?f x))" "s + w = unat (node_end ?f x)"
      using bx sound_end [OF mm_okD(3) [OF ok, of x]] by (auto simp: mm_blocks_def split: if_splits)
    ultimately show ?thesis using a rng by (auto simp: word_le_nat_alt)
  qed
  then have "vacant (mm_span m0) blocks a (unat (mm_scan_size m0))"
    using a rng gap(1,3) by (auto simp: vacant_def mm_span_def word_le_nat_alt hole_node_start'_def node_end_def)
  then show ?thesis using a rng by (auto simp: word_le_nat_alt)
qed

section \<open>Unbinding\<close>

text \<open>
  What the code relies on of \<^verbatim>\<open>i915_vma_unbind\<close>: a bound vma is either taken out of its
  address space and of the lists, with result 0, or nothing changes.
\<close>

definition unbind_ok :: "(nat \<Rightarrow> i915_vm \<Rightarrow> int \<times> i915_vm) \<Rightarrow> bool" where
  "unbind_ok unbind = (\<forall>x vm. x \<in> set (mm_node_list (vm_mm vm)) \<longrightarrow>
     (case unbind x vm of (r, vm') \<Rightarrow>
        if r = 0 then drm_mm_remove_node x (vm_mm vm) = Some (vm_mm vm') \<and>
          vm' = vm\<lparr>vm_mm := vm_mm vm', vm_inactive := removeAll x (vm_inactive vm),
                   vm_active := removeAll x (vm_active vm)\<rparr>
        else vm' = vm))"

lemma upd_vma_simps [simp]:
  "vm_mm (upd_vma x f vm) = vm_mm vm" "vm_inactive (upd_vma x f vm) = vm_inactive vm"
  "vm_active (upd_vma x f vm) = vm_active vm"
  "vm_vma (upd_vma x f vm) y = (if y = x then f (vm_vma vm x) else vm_vma vm y)"
  by (simp_all add: upd_vma_def)

lemma gem_ok_upd [simp]: "gem_ok (upd_vma x f vm) = gem_ok vm"
  by (simp add: gem_ok_def)

lemma blocks_dom: "mm_blocks m x \<noteq> None \<longleftrightarrow> x \<in> set (mm_node_list m)"
  by (simp add: mm_blocks_def)

lemma unbind_step:
  assumes u: "unbind_ok unbind" and c: "gem_ok vm" and x: "mm_blocks (vm_mm vm) x \<noteq> None"
    and r: "unbind x vm = (r, vm')"
  shows "gem_ok vm' \<and> vm_vma vm' = vm_vma vm \<and> mm_span (vm_mm vm') = mm_span (vm_mm vm) \<and>
    mm_color_adjust (vm_mm vm') = mm_color_adjust (vm_mm vm) \<and>
    (if r = 0 then mm_blocks (vm_mm vm') = (mm_blocks (vm_mm vm))(x := None) else vm' = vm)"
proof (cases "r = 0")
  case True
  have xl: "x \<in> set (mm_node_list (vm_mm vm))" using x blocks_dom by blast
  have ok: "mm_ok (vm_mm vm)" using c by (simp add: gem_ok_def)
  have x0: "x \<noteq> 0" using xl mm_okD(1) [OF ok] by (metis distinct.simps(2))
  have v: "drm_mm_remove_node x (vm_mm vm) = Some (vm_mm vm')"
    "vm' = vm\<lparr>vm_mm := vm_mm vm', vm_inactive := removeAll x (vm_inactive vm),
       vm_active := removeAll x (vm_active vm)\<rparr>"
    using u xl r True by (auto simp: unbind_ok_def split: prod.splits)
  have vs: "vm_inactive vm' = removeAll x (vm_inactive vm)" "vm_active vm' = removeAll x (vm_active vm)"
    "vm_vma vm' = vm_vma vm"
    using arg_cong [OF v(2), of vm_inactive] arg_cong [OF v(2), of vm_active] arg_cong [OF v(2), of vm_vma]
    by simp_all
  from mm_remove_node_spec [OF ok xl] v(1) have m: "mm_ok (vm_mm vm')" "mm_frame (vm_mm vm) x (vm_mm vm')"
    "mm_blocks (vm_mm vm') = (mm_blocks (vm_mm vm))(x := None)" by auto
  have "y \<in> set (mm_node_list (vm_mm vm')) \<longleftrightarrow> y \<in> set (mm_node_list (vm_mm vm)) \<and> y \<noteq> x" for y
    unfolding blocks_dom [symmetric] m(3) by simp
  then have "set (mm_node_list (vm_mm vm')) = set (mm_node_list (vm_mm vm)) - {x}" by auto
  moreover have "same_but_hole (mm_nodes (vm_mm vm) 0) (mm_nodes (vm_mm vm') 0)" using m(2) x0 by (simp add: mm_frame_def)
  ultimately have "gem_ok vm'" using c m(1,2) vs same_but_holeD(1,2)
    by (auto simp: gem_ok_def mm_small_def mm_frame_def)
  with True m(2,3) vs(3) mm_frame_span [OF m(2) x0] show ?thesis by (simp add: mm_frame_def)
next
  case False
  have "x \<in> set (mm_node_list (vm_mm vm))" using x blocks_dom by blast
  with False u r have "vm' = vm" by (auto simp: unbind_ok_def split: prod.splits)
  with c False show ?thesis by simp
qed

lemma unbind_all_spec:
  assumes u: "unbind_ok unbind" and "gem_ok vm" "\<forall>x\<in>set ev. mm_blocks (vm_mm vm) x \<noteq> None" "distinct ev"
    "unbind_all unbind ev ret vm = (r, vm')"
  shows "gem_ok vm' \<and> mm_span (vm_mm vm') = mm_span (vm_mm vm) \<and>
    mm_color_adjust (vm_mm vm') = mm_color_adjust (vm_mm vm) \<and> (ret \<noteq> 0 \<longrightarrow> r = ret) \<and>
    (r = 0 \<longrightarrow> mm_blocks (vm_mm vm') = (\<lambda>x. if x \<in> set ev then None else mm_blocks (vm_mm vm) x)) \<and>
    (\<forall>x. vm_vma vm' x = (if x \<in> set ev then (vm_vma vm x)\<lparr>vma_on_exec := False,
       vma_refs := vma_refs (vm_vma vm x) - 1\<rparr> else vm_vma vm x))"
  using assms(2-5)
proof (induction ev arbitrary: ret vm)
  case (Cons x ev)
  let ?vm1 = "upd_vma x (\<lambda>v. v\<lparr>vma_on_exec := False\<rparr>) vm"
  obtain r1 vm2 where r1: "(if ret = 0 then unbind x ?vm1 else (ret, ?vm1)) = (r1, vm2)" by fastforce
  let ?vm3 = "upd_vma x (\<lambda>v. v\<lparr>vma_refs := vma_refs v - 1\<rparr>) vm2"
  have s: "gem_ok vm2 \<and> vm_vma vm2 = vm_vma ?vm1 \<and> mm_span (vm_mm vm2) = mm_span (vm_mm vm) \<and>
    mm_color_adjust (vm_mm vm2) = mm_color_adjust (vm_mm vm) \<and>
    (ret \<noteq> 0 \<longrightarrow> r1 = ret) \<and> (r1 \<noteq> 0 \<longrightarrow> vm2 = ?vm1) \<and>
    (r1 = 0 \<longrightarrow> mm_blocks (vm_mm vm2) = (mm_blocks (vm_mm vm))(x := None))"
  proof (cases "ret = 0")
    case True
    with r1 have "unbind x ?vm1 = (r1, vm2)" by simp
    from unbind_step [OF u _ _ this] Cons.prems(1,2) True show ?thesis by (auto split: if_splits)
  qed (use r1 Cons.prems(1) in auto)
  have core: "gem_ok ?vm3" using s by simp
  have bl: "\<forall>y\<in>set ev. mm_blocks (vm_mm ?vm3) y \<noteq> None"
    using s Cons.prems(2,3) by (cases "r1 = 0") auto
  have run: "unbind_all unbind ev r1 ?vm3 = (r, vm')" using Cons.prems(4) r1 by (simp add: Let_def)
  have d: "distinct ev" using Cons.prems(3) by simp
  note IH = Cons.IH [OF core bl d run]
  have "vm_vma vm' y = (if y \<in> set (x # ev) then (vm_vma vm y)\<lparr>vma_on_exec := False,
       vma_refs := vma_refs (vm_vma vm y) - 1\<rparr> else vm_vma vm y)" for y
  proof -
    from IH have "vm_vma vm' y = (if y \<in> set ev then (vm_vma ?vm3 y)\<lparr>vma_on_exec := False,
       vma_refs := vma_refs (vm_vma ?vm3 y) - 1\<rparr> else vm_vma ?vm3 y)" by blast
    then show ?thesis using s Cons.prems(3) by (cases "y = x"; cases "y \<in> set ev") auto
  qed
  moreover have "mm_blocks (vm_mm vm') = (\<lambda>y. if y \<in> set (x # ev) then None else mm_blocks (vm_mm vm) y)"
    if "r = 0"
  proof
    fix y
    have "r1 = 0" "mm_blocks (vm_mm vm') y = (if y \<in> set ev then None else mm_blocks (vm_mm ?vm3) y)"
      using IH that by auto
    then show "mm_blocks (vm_mm vm') y = (if y \<in> set (x # ev) then None else mm_blocks (vm_mm vm) y)"
      using s by (cases "y = x"; cases "y \<in> set ev") auto
  qed
  moreover have "gem_ok vm'" "mm_span (vm_mm vm') = mm_span (vm_mm vm)" "ret \<noteq> 0 \<longrightarrow> r = ret"
    "mm_color_adjust (vm_mm vm') = mm_color_adjust (vm_mm vm)"
    using IH s by auto
  ultimately show ?case by blast
qed auto

section \<open>A pass of the search\<close>

definition room_for :: "drm_mm \<Rightarrow> drm_mm \<Rightarrow> bool" where
  "room_for m0 m = (\<exists>a. aligned (mm_scan_alignment m0) a \<and>
     vacant (mm_span m) (mm_blocks m) a (unat (mm_scan_size m0)) \<and>
     (mm_scan_check_range m0 \<longrightarrow> unat (mm_scan_start m0) \<le> a \<and>
        a + unat (mm_scan_size m0) \<le> unat (mm_scan_end m0)))"

definition scan_small :: "drm_mm \<Rightarrow> bool" where
  "scan_small m = (mm_scan_hit_end m = 0 \<and> unat (mm_scan_size m) \<le> 2 ^ 62 \<and>
     (mm_scan_check_range m \<longrightarrow> unat (mm_scan_start m) \<le> 2 ^ 62))"

lemma search_lists_spec:
  assumes ok: "gem_ok vm"
  shows "\<exists>found us m. search_lists nb vm = Some (found, us, marked vm (busy vm us) (\<lambda>_. 0) m) \<and>
    scan_stack (vm_mm vm) us m \<and> unlisted vm us \<and>
    (if found then hit_found (vm_mm vm) m
     else mm_scan_hit_end m = mm_scan_hit_end (vm_mm vm))"
proof -
  let ?m0 = "vm_mm vm"
  have m0: "mm_ok ?m0" and l: "set (vm_inactive vm) \<subseteq> set (mm_node_list ?m0)"
      "set (vm_active vm) \<subseteq> set (mm_node_list ?m0)"
    using ok by (auto simp: gem_ok_def)
  have id: "marked vm (busy vm []) (\<lambda>_. 0) ?m0 = vm" by (simp add: marked_none)
  from mark_loop_spec [OF m0 l(1), of "[]" ?m0 vm] obtain found us m where
    a: "mark_loop (vm_inactive vm) [] vm = Some (found, us, marked vm (busy vm us) (\<lambda>_. 0) m)"
      "scan_stack ?m0 us m" "unlisted vm us"
      "if found then hit_found ?m0 m else mm_scan_hit_end m = mm_scan_hit_end ?m0"
    unfolding id by (auto split: if_splits)
  from mark_loop_spec [OF m0 l(2) a(2,3)] obtain f2 us2 m2 where
    b: "mark_loop (vm_active vm) us (marked vm (busy vm us) (\<lambda>_. 0) m) =
        Some (f2, us2, marked vm (busy vm us2) (\<lambda>_. 0) m2)" "scan_stack ?m0 us2 m2" "unlisted vm us2"
      "if f2 then hit_found ?m0 m2 else mm_scan_hit_end m2 = mm_scan_hit_end m"
    by (auto split: if_splits)
  show ?thesis using a b by (cases found; cases nb; cases f2) (auto simp: search_lists_def)
qed

lemma stack_distinct_all: "mm_ok m0 \<Longrightarrow> scan_stack m0 us m \<Longrightarrow> distinct us"
proof (induction us arbitrary: m)
  case (Cons y ys)
  then show ?case using stack_distinct [OF Cons.prems] by auto
qed simp

text \<open>What remains to be done when the search has found a place: the eviction list, and unbinding it.\<close>

lemma evict_found:
  assumes ok: "gem_ok vm" and sm: "scan_small (vm_mm vm)" and u: "unbind_ok unbind"
    and s: "scan_stack (vm_mm vm) us m" "unlisted vm us" and h: "hit_found (vm_mm vm) m"
  shows "\<exists>ev vm2 ret vm'. unwind_found us [] (marked vm (busy vm us) (\<lambda>_. 0) m) = Some (ev, vm2) \<and>
    unbind_all unbind ev 0 vm2 = (ret, vm') \<and> gem_ok vm' \<and> (\<forall>x. vm_vma vm' x = vm_vma vm x) \<and>
    mm_color_adjust (vm_mm vm') = mm_color_adjust (vm_mm vm) \<and>
    (ret = 0 \<and> mm_color_adjust (vm_mm vm) = None \<longrightarrow> room_for (vm_mm vm) (vm_mm vm'))"
proof -
  let ?m0 = "vm_mm vm"
  have m0: "mm_ok ?m0" "mm_small ?m0" using ok by (auto simp: gem_ok_def)
  have "\<exists>p\<in>set (mm_ring m). mm_scan_hit_start m = node_end (mm_nodes ?m0) p"
    using h unfolding hit_found_def by (metis in_set_conv_decomp)
  from unwind_found_spec [OF m0(1) s(1) scan_same_refl this, of "[]" vm] s(2) obtain m' ev where
    w: "unwind_found us [] (marked vm (busy vm us) (\<lambda>_. 0) m) = Some (ev, marked vm (busy vm ev) (one_if (set ev)) m')"
      "scan_same ?m0 m'" "ev = rev (filter (overlaps ?m0 m) us)" by auto
  let ?vm2 = "marked vm (busy vm ev) (one_if (set ev)) m'"
  obtain ret vm' where r: "unbind_all unbind ev 0 ?vm2 = (ret, vm')" by fastforce
  have core: "gem_ok ?vm2" using ok scan_same_ok [OF w(2)] w(2) by (simp add: gem_ok_def scan_same_def)
  have inus: "set ev \<subseteq> set us" using w(3) by auto
  have "set us \<subseteq> set (mm_node_list ?m0)" using scan_stack_inv [OF m0(1) s(1)] by (simp add: scan_inv_def)
  then have bl: "\<forall>x\<in>set ev. mm_blocks (vm_mm ?vm2) x \<noteq> None"
    using inus blocks_dom scan_same_ok(2) [OF w(2)] by auto
  have d: "distinct ev" using stack_distinct_all [OF m0(1) s(1)] w(3) by simp
  note U = unbind_all_spec [OF u core bl d r]
  have vma: "vm_vma vm' x = vm_vma vm x" for x
    using U inus s(2) by (cases "x \<in> set ev") (auto simp: marked_def one_if_def busy_def)
  have color: "mm_color_adjust (vm_mm vm') = mm_color_adjust ?m0" using U w(2) by (simp add: scan_same_def)
  have room: "room_for ?m0 (vm_mm vm')" if "ret = 0" "mm_color_adjust ?m0 = None"
  proof -
    have "mm_span (vm_mm vm') = mm_span ?m0" using U scan_same_ok(3) [OF w(2)] by simp
    moreover have "mm_blocks ?m0 x = Some (a, b) \<and> \<not> (x \<in> set us \<and> overlaps ?m0 m x)"
      if "mm_blocks (vm_mm vm') x = Some (a, b)" for x a b
      using that U \<open>ret = 0\<close> scan_same_ok(2) [OF w(2)] w(3) by (auto split: if_splits)
    ultimately show ?thesis
      using hit_vacant [OF m0 s(1) h that(2), of "mm_blocks (vm_mm vm')"] sm
      by (simp add: room_for_def scan_small_def)
  qed
  have "gem_ok vm'" using U by blast
  with w(1) r vma color room show ?thesis by (intro exI [of _ ev] exI [of _ ?vm2] exI [of _ ret] exI [of _ vm']) simp
qed

lemma search_pass_spec:
  assumes ok: "gem_ok vm" and sm: "scan_small (vm_mm vm)" and u: "unbind_ok unbind"
  shows "\<exists>r. search_pass unbind nb vm = Some r \<and>
    (case r of
       Nothing_found vm' \<Rightarrow> scan_same (vm_mm vm) (vm_mm vm') \<and> mm_scan_hit_end (vm_mm vm') = 0 \<and>
         vm' = vm\<lparr>vm_mm := vm_mm vm'\<rparr>
     | Done ret vm' \<Rightarrow> gem_ok vm' \<and> (\<forall>x. vm_vma vm' x = vm_vma vm x) \<and>
         mm_color_adjust (vm_mm vm') = mm_color_adjust (vm_mm vm) \<and>
         (ret = 0 \<and> mm_color_adjust (vm_mm vm) = None \<longrightarrow> room_for (vm_mm vm) (vm_mm vm')))"
proof -
  let ?m0 = "vm_mm vm"
  have m0: "mm_ok ?m0" using ok by (simp add: gem_ok_def)
  from search_lists_spec [OF ok, of nb] obtain found us m where
    s: "search_lists nb vm = Some (found, us, marked vm (busy vm us) (\<lambda>_. 0) m)" "scan_stack ?m0 us m" "unlisted vm us"
      "if found then hit_found ?m0 m else mm_scan_hit_end m = mm_scan_hit_end ?m0" by blast
  show ?thesis
  proof (cases found)
    case False
    then have "mm_scan_hit_end m = 0" using s(4) sm by (simp add: scan_small_def)
    from unwind_none_spec [OF m0 s(2) scan_same_refl this s(3)] False s(1) show ?thesis
      by (auto simp: search_pass_def)
  next
    case True
    then have h: "hit_found ?m0 m" using s(4) by simp
    from evict_found [OF ok sm u s(2,3) h] True s(1) show ?thesis by (auto simp: search_pass_def)
  qed
qed

section \<open>Properties\<close>

text \<open>
  What the code relies on of the functions that wait for the GPU: they keep the address
  space well formed, leave a prepared scan alone, do not change the \<^verbatim>\<open>color_adjust\<close> hook, and put no vma on an
  \<^verbatim>\<open>exec_list\<close> and take none off.
\<close>

definition env_keeps :: "(i915_vm \<Rightarrow> i915_vm) \<Rightarrow> bool" where
  "env_keeps f = (\<forall>vm. gem_ok vm \<longrightarrow> gem_ok (f vm) \<and>
     mm_scan_check_range (vm_mm (f vm)) = mm_scan_check_range (vm_mm vm) \<and>
     mm_scan_alignment (vm_mm (f vm)) = mm_scan_alignment (vm_mm vm) \<and>
     mm_scan_size (vm_mm (f vm)) = mm_scan_size (vm_mm vm) \<and>
     mm_scan_start (vm_mm (f vm)) = mm_scan_start (vm_mm vm) \<and>
     mm_scan_end (vm_mm (f vm)) = mm_scan_end (vm_mm vm) \<and>
     mm_scan_hit_end (vm_mm (f vm)) = mm_scan_hit_end (vm_mm vm) \<and>
     mm_color_adjust (vm_mm (f vm)) = mm_color_adjust (vm_mm vm) \<and>
     (\<forall>x. vma_on_exec (vm_vma (f vm) x) = vma_on_exec (vm_vma vm x)))"

lemma scan_same_gem:
  assumes "gem_ok vm" "scan_same (vm_mm vm) (vm_mm vm')" "vm' = vm\<lparr>vm_mm := vm_mm vm'\<rparr>"
  shows "gem_ok vm'"
proof -
  have v: "vm_inactive vm' = vm_inactive vm" "vm_active vm' = vm_active vm" "vm_vma vm' = vm_vma vm"
    using arg_cong [OF assms(3), of vm_inactive] arg_cong [OF assms(3), of vm_active]
      arg_cong [OF assms(3), of vm_vma] by simp_all
  from assms(1,2) scan_same_ok [OF assms(2)] show ?thesis
    unfolding gem_ok_def v by (simp add: scan_same_def)
qed

definition evict_scan :: "32 word \<Rightarrow> 32 word \<Rightarrow> ulong \<Rightarrow> ulong \<Rightarrow> ulong \<Rightarrow> i915_vm \<Rightarrow> drm_mm" where
  "evict_scan min_size alignment cache_level start end' vm =
     (if start \<noteq> 0 \<or> end' \<noteq> vm_total vm
      then drm_mm_init_scan_with_range (scast min_size) alignment cache_level start end' (vm_mm vm)
      else drm_mm_init_scan (scast min_size) alignment cache_level (vm_mm vm))"

lemma evict_scan_ok:
  assumes "gem_ok vm"
  shows "gem_ok (vm\<lparr>vm_mm := evict_scan z al c s e vm\<rparr>)"
proof -
  have "mm_ok (evict_scan z al c s e vm) = mm_ok (vm_mm vm)"
    "mm_small (evict_scan z al c s e vm) = mm_small (vm_mm vm)"
    by (simp_all add: evict_scan_def drm_mm_init_scan_def drm_mm_init_scan_with_range_def mm_ok_def
        holes_ok_def mm_small_def)
  with assms show ?thesis
    by (simp add: gem_ok_def)
      (simp add: evict_scan_def drm_mm_init_scan_def drm_mm_init_scan_with_range_def)
qed

lemma room_insert:
  assumes di: "drm_inv m" and nc: "node_clear m x" and room: "room_for m0 m"
    and z: "mm_scan_size m0 \<noteq> 0" "unat (mm_scan_size m0) \<le> 2 ^ 62" "unat rs \<le> 2 ^ 62"
    and rng: "if mm_scan_check_range m0 then rs = mm_scan_start m0 \<and> re = mm_scan_end m0 else rs = 0 \<and> re = - 1"
  shows "\<exists>m'. drm_mm_insert_node_in_range_generic x (mm_scan_size m0) (mm_scan_alignment m0) 0 rs re bm m = Some (0, m')"
proof -
  let ?z = "mm_scan_size m0" and ?al = "mm_scan_alignment m0"
  from room obtain a where a: "aligned ?al a" "vacant (mm_span m) (mm_blocks m) a (unat ?z)"
    "mm_scan_check_range m0 \<longrightarrow> unat (mm_scan_start m0) \<le> a \<and> a + unat ?z \<le> unat (mm_scan_end m0)"
    by (auto simp: room_for_def)
  have hi: "a + unat ?z \<le> unat (mm_hi m)" using a(2) by (simp add: vacant_def mm_span_def)
  have "unat (mm_hi m) \<le> unat (- 1 :: ulong)" by (simp add: word_le_nat_alt [symmetric])
  then have "drm_place (?z, ?al, rs, re, bm) a (unat ?z)"
    using a rng hi by (auto simp: drm_place_def split: if_splits)
  then have fits: "\<exists>a z. drm_place (?z, ?al, rs, re, bm) a z \<and> vacant (mm_span m) (mm_blocks m) a z"
    using a(2) by blast
  have "drm_valid (?z, ?al, rs, re, bm)" using z by (simp add: drm_valid_def)
  from drm_alloc_law [OF di nc this] obtain b m' where m': "drm_alloc x (?z, ?al, rs, re, bm) m = Some (b, m')"
    "if b then True else \<forall>a z. drm_place (?z, ?al, rs, re, bm) a z \<longrightarrow> \<not> vacant (mm_span m) (mm_blocks m) a z"
    by (auto split: if_splits)
  with fits have b by (auto split: if_splits)
  with m' show ?thesis by (auto simp: drm_alloc_def)
qed

text \<open>The scan is prepared for a block of size \<^verbatim>\<open>z\<close>, in a range when \<^verbatim>\<open>lim\<close> holds.\<close>

definition scan_for :: "ulong \<Rightarrow> 32 word \<Rightarrow> bool \<Rightarrow> ulong \<Rightarrow> ulong \<Rightarrow> drm_mm \<Rightarrow> bool" where
  "scan_for z al lim rs re m = (mm_scan_check_range m = lim \<and> mm_scan_alignment m = al \<and>
     mm_scan_size m = z \<and> (lim \<longrightarrow> mm_scan_start m = rs \<and> mm_scan_end m = re) \<and>
     (\<not> lim \<longrightarrow> rs = 0 \<and> re = - 1) \<and> scan_small m)"

definition insertable :: "ulong \<Rightarrow> 32 word \<Rightarrow> ulong \<Rightarrow> ulong \<Rightarrow> drm_mm \<Rightarrow> bool" where
  "insertable z al rs re m = (\<forall>x bm. node_clear m x \<longrightarrow>
     (\<exists>m'. drm_mm_insert_node_in_range_generic x z al 0 rs re bm m = Some (0, m')))"

text \<open>The colour hook and the \<^verbatim>\<open>exec_list\<close>s are the same in both address spaces.\<close>

definition alike :: "i915_vm \<Rightarrow> i915_vm \<Rightarrow> bool" where
  "alike v v' \<longleftrightarrow> mm_color_adjust (vm_mm v') = mm_color_adjust (vm_mm v) \<and>
     (\<forall>x. vma_on_exec (vm_vma v' x) = vma_on_exec (vm_vma v x))"

lemma alike_trans: "alike u v \<Longrightarrow> alike v w \<Longrightarrow> alike u w"
  by (simp add: alike_def)

lemma pass_makes_room:
  assumes v: "gem_ok v" "scan_for z al lim rs re (vm_mm v)" and u: "unbind_ok unbind"
    and z: "z \<noteq> 0" "unat z \<le> 2 ^ 62" "unat rs \<le> 2 ^ 62"
  obtains ret v' where "search_pass unbind nb v = Some (Done ret v')" "gem_ok v'" "alike v v'"
      "ret = 0 \<and> mm_color_adjust (vm_mm v) = None \<longrightarrow> insertable z al rs re (vm_mm v')"
    | v' where "search_pass unbind nb v = Some (Nothing_found v')" "gem_ok v'" "alike v v'"
      "scan_for z al lim rs re (vm_mm v')"
proof -
  from v(2) have "scan_small (vm_mm v)" by (simp add: scan_for_def)
  from search_pass_spec [OF v(1) this u, of nb] obtain r where r: "search_pass unbind nb v = Some r"
    "case r of Nothing_found vm' \<Rightarrow> scan_same (vm_mm v) (vm_mm vm') \<and> mm_scan_hit_end (vm_mm vm') = 0 \<and>
       vm' = v\<lparr>vm_mm := vm_mm vm'\<rparr>
     | Done ret vm' \<Rightarrow> gem_ok vm' \<and> (\<forall>x. vm_vma vm' x = vm_vma v x) \<and>
       mm_color_adjust (vm_mm vm') = mm_color_adjust (vm_mm v) \<and>
       (ret = 0 \<and> mm_color_adjust (vm_mm v) = None \<longrightarrow> room_for (vm_mm v) (vm_mm vm'))" by blast
  show thesis
  proof (cases r)
    case (Done ret v')
    have "insertable z al rs re (vm_mm v')" if "ret = 0" "mm_color_adjust (vm_mm v) = None"
    proof -
      have d: "drm_inv (vm_mm v')" and rm: "room_for (vm_mm v) (vm_mm v')"
        using r(2) Done that by (simp_all add: gem_ok_def drm_inv_def)
      show ?thesis using room_insert [OF d _ rm, of _ rs re] v(2) z
        by (auto simp: insertable_def scan_for_def split: if_splits)
    qed
    with r Done that(1) show ?thesis by (auto simp: alike_def)
  next
    case (Nothing_found v')
    with r(2) have s: "scan_same (vm_mm v) (vm_mm v')" "mm_scan_hit_end (vm_mm v') = 0"
      "v' = v\<lparr>vm_mm := vm_mm v'\<rparr>" by simp_all
    have "mm_scan_check_range (vm_mm v') = mm_scan_check_range (vm_mm v)"
      "mm_scan_alignment (vm_mm v') = mm_scan_alignment (vm_mm v)"
      "mm_scan_size (vm_mm v') = mm_scan_size (vm_mm v)" "mm_scan_start (vm_mm v') = mm_scan_start (vm_mm v)"
      "mm_scan_end (vm_mm v') = mm_scan_end (vm_mm v)" "mm_color_adjust (vm_mm v') = mm_color_adjust (vm_mm v)"
      using s(1) by (simp_all add: scan_same_def)
    moreover have "vm_vma v' = vm_vma v" using arg_cong [OF s(3), of vm_vma] by simp
    ultimately have "scan_for z al lim rs re (vm_mm v')" "alike v v'"
      using s(2) v(2) unfolding scan_for_def scan_small_def alike_def by auto
    with r(1) Nothing_found scan_same_gem [OF v(1) s(1,3)] that(2) show ?thesis by blast
  qed
qed

lemma evict_something_scan:
  "i915_gem_evict_something idle retire unbind pending min_size alignment c start end' nb vm =
     do { r \<leftarrow> search_pass unbind nb (vm\<lparr>vm_mm := evict_scan min_size alignment c start end' vm\<rparr>);
          case r of
            Done ret vm1 \<Rightarrow> Some (ret, vm1)
          | Nothing_found vm1 \<Rightarrow>
              if nb then Some (- ENOSPC, vm1)
              else (case idle vm1 of (ret, vm2) \<Rightarrow>
                if ret \<noteq> 0 then Some (ret, vm2)
                else do {
                  r2 \<leftarrow> search_pass unbind nb (retire vm2);
                  case r2 of
                    Done ret vm3 \<Rightarrow> Some (ret, vm3)
                  | Nothing_found vm3 \<Rightarrow> Some (if pending then - EAGAIN else - ENOSPC, vm3) }) }"
  unfolding i915_gem_evict_something_def evict_scan_def Let_def by (rule refl)

lemma env_keeps_scan:
  "env_keeps f \<Longrightarrow> gem_ok v \<Longrightarrow> scan_for z al lim rs re (vm_mm v) \<Longrightarrow>
    gem_ok (f v) \<and> scan_for z al lim rs re (vm_mm (f v)) \<and> alike v (f v)"
  unfolding env_keeps_def scan_for_def scan_small_def alike_def by auto

text \<open>
  C8: \<^verbatim>\<open>i915_gem_evict_something\<close>, called for a block of nonzero size on a well-formed address space whose addresses are at most
  \<^verbatim>\<open>2 ^ 62\<close>, returns: none of the assertions of the scan fires, whichever vmas are pinned, whichever are already on an
  \<^verbatim>\<open>exec_list\<close> (the search warns about those and passes over them), whatever the driver's \<^verbatim>\<open>color_adjust\<close> does, and whichever
  pass finds a hole.  It leaves a well-formed address space, and every \<^verbatim>\<open>exec_list\<close> as it was.  When it reports success
  and no \<^verbatim>\<open>color_adjust\<close> hook is set, the next insertion with the requested size, alignment and range succeeds.
\<close>

theorem gem_evict_something:
  assumes ok: "gem_ok vm" and u: "unbind_ok unbind" and env: "env_keeps (\<lambda>v. snd (idle v))" "env_keeps retire"
    and z: "z = scast min_size" "z \<noteq> 0" "unat z \<le> 2 ^ 62" "unat start \<le> 2 ^ 62"
    and rng: "(rs, re) = (if start \<noteq> 0 \<or> end' \<noteq> vm_total vm then (start, end') else (0, - 1))"
  shows "\<exists>ret vm'. i915_gem_evict_something idle retire unbind pending min_size alignment c start end' nb vm =
      Some (ret, vm') \<and> gem_ok vm' \<and> (\<forall>x. vma_on_exec (vm_vma vm' x) = vma_on_exec (vm_vma vm x)) \<and>
      (ret = 0 \<and> mm_color_adjust (vm_mm vm) = None \<longrightarrow> (\<forall>x bm. node_clear (vm_mm vm') x \<longrightarrow>
       (\<exists>m'. drm_mm_insert_node_in_range_generic x z alignment 0 rs re bm (vm_mm vm') = Some (0, m'))))"
proof -
  let ?v0 = "vm\<lparr>vm_mm := evict_scan min_size alignment c start end' vm\<rparr>"
  let ?lim = "start \<noteq> 0 \<or> end' \<noteq> vm_total vm"
  have rs: "unat rs \<le> 2 ^ 62" using rng z(4) by (auto split: if_splits)
  note room = pass_makes_room [OF _ _ u z(2,3) rs, of _ alignment ?lim re nb]
  have g0: "scan_for z alignment ?lim rs re (vm_mm ?v0)" using z rng
    by (auto simp: scan_for_def evict_scan_def drm_mm_init_scan_def drm_mm_init_scan_with_range_def
        scan_small_def split: if_splits)
  have a0: "alike vm ?v0"
    by (simp add: alike_def evict_scan_def drm_mm_init_scan_def drm_mm_init_scan_with_range_def)
  have "\<exists>ret vm'. i915_gem_evict_something idle retire unbind pending min_size alignment c start end' nb vm =
      Some (ret, vm') \<and> gem_ok vm' \<and> alike vm vm' \<and>
      (ret = 0 \<and> mm_color_adjust (vm_mm vm) = None \<longrightarrow> insertable z alignment rs re (vm_mm vm'))"
  proof (rule room [OF evict_scan_ok [OF ok] g0], goal_cases)
    case (1 ret v')
    then show ?case using alike_trans [OF a0 1(3)] a0 by (simp add: evict_something_scan alike_def)
  next
    case (2 v1)
    obtain ri v2 where i: "idle v1 = (ri, v2)" by fastforce
    have k: "gem_ok v2" "scan_for z alignment ?lim rs re (vm_mm v2)" "alike v1 v2"
      using env_keeps_scan [OF env(1) 2(2,4)] i by simp_all
    have k2: "gem_ok (retire v2)" "scan_for z alignment ?lim rs re (vm_mm (retire v2))" "alike v2 (retire v2)"
      using env_keeps_scan [OF env(2) k(1,2)] by simp_all
    have al: "alike vm v1" "alike vm v2" "alike vm (retire v2)"
      using a0 2(3) k(3) k2(3) alike_trans by blast+
    show ?case
      by (rule room [OF k2(1,2)])
        (use 2(1,2) i k(1) al in \<open>auto simp: evict_something_scan ENOSPC_def EAGAIN_def alike_def\<close>)
  qed
  then show ?thesis unfolding insertable_def alike_def by blast
qed

text \<open>
  A concrete address space with two bound vmas, the second of which is on an \<^verbatim>\<open>exec_list\<close>, and an \<^verbatim>\<open>unbind\<close> that always
  succeeds.
\<close>

definition unbind_sample :: "nat \<Rightarrow> i915_vm \<Rightarrow> int \<times> i915_vm" where
  "unbind_sample x vm = (case drm_mm_remove_node x (vm_mm vm) of
       Some m \<Rightarrow> (0, vm\<lparr>vm_mm := m, vm_inactive := removeAll x (vm_inactive vm),
                       vm_active := removeAll x (vm_active vm)\<rparr>)
     | None \<Rightarrow> (1, vm))"

definition sample_vm :: "drm_mm \<Rightarrow> i915_vm" where
  "sample_vm m = \<lparr>vm_mm = m, vm_total = 1000, vm_inactive = [2, 1], vm_active = [],
     vm_vma = (\<lambda>x. \<lparr>vma_pin_count = 0, vma_on_exec = (x = 2), vma_refs = 1\<rparr>)\<rparr>"

lemma unbind_sample_ok: "unbind_ok unbind_sample"
  by (auto simp: unbind_ok_def unbind_sample_def split: option.splits)

definition two_bound :: "drm_mm option" where
  "two_bound = do { (e, m1) \<leftarrow> drm_mm_insert_node_generic 1 600 0 0 False (drm_mm_init 0 1000 blank_mm);
     (e', m) \<leftarrow> drm_mm_insert_node_generic 2 200 0 0 False m1;
     if e = 0 \<and> e' = 0 then Some m else None }"

lemma two_bound_ok:
  assumes "two_bound = Some m"
  shows "mm_ok m" "mm_scanned_blocks m = 0" "mm_small m" "mm_color_adjust m = None"
proof -
  let ?m0 = "drm_mm_init 0 1000 blank_mm"
  from assms obtain m1 where i: "drm_mm_insert_node_generic 1 600 0 0 False ?m0 = Some (0, m1)"
    "drm_mm_insert_node_generic 2 200 0 0 False m1 = Some (0, m)"
    unfolding two_bound_def by (auto split: bind_splits if_splits)
  have n: "unat (0 :: ulong) \<le> 2 ^ 62" "unat (600 :: ulong) \<le> 2 ^ 62" "(600 :: ulong) \<noteq> 0"
    "unat (200 :: ulong) \<le> 2 ^ 62" "(200 :: ulong) \<noteq> 0" by simp_all
  have c: "node_clear ?m0 1" "node_clear ?m0 2" by (rule blank_init(7), simp)+
  have d0: "drm_inv ?m0" using blank_init by (simp add: drm_inv_def)
  from insert_range_spec [OF blank_init(1,3,4) c(1) blank_init(5) n(1-3), of 0 0 "- 1" False] i(1)
  have f1: "mm_ok m1" "mm_frame ?m0 1 m1" by (auto simp: ENOSPC_def insert_generic_range)
  have d1: "drm_inv m1" and c1: "node_clear m1 2" using frame_inv [OF d0 f1] c(2) by simp_all
  have j1: "mm_scanned_blocks m1 = 0" "mm_small m1" "color_narrows m1" using d1 by (simp_all add: drm_inv_def color_narrows_def)
  from insert_range_spec [OF f1(1) j1(1,2) c1 j1(3) n(1,4,5), of 0 0 "- 1" False] i(2)
  have "mm_ok m" "mm_frame m1 2 m" by (auto simp: ENOSPC_def insert_generic_range)
  then have "drm_inv m" using frame_inv(1) [OF d1] by simp
  then show "mm_ok m" "mm_scanned_blocks m = 0" "mm_small m" "mm_color_adjust m = None" by (simp_all add: drm_inv_def)
qed

theorem gem_evict_something_witness:
  "\<exists>m vm' m'. two_bound = Some m \<and>
     i915_gem_evict_something (Pair 0) id unbind_sample False 500 0 0 0 1000 False (sample_vm m) = Some (0, vm') \<and>
     vma_on_exec (vm_vma vm' 2) \<and>
     drm_mm_insert_node_in_range_generic 1 500 0 0 0 (- 1) False (vm_mm vm') = Some (0, m')"
proof -
  have "do { m \<leftarrow> two_bound;
      (r, vm) \<leftarrow> i915_gem_evict_something (Pair 0) id unbind_sample False 500 0 0 0 1000 False (sample_vm m);
      Some (mm_node_list m, r, nd_allocated (mm_nodes (vm_mm vm) 1), nd_scanned_block (mm_nodes (vm_mm vm) 1),
        nd_scanned_prev_free (mm_nodes (vm_mm vm) 1), nd_scanned_next_free (mm_nodes (vm_mm vm) 1)) } =
    Some ([1, 2], 0, False, False, False, False)" by code_simp
  then obtain m vm where m: "two_bound = Some m" "mm_node_list m = [1, 2]"
    "i915_gem_evict_something (Pair 0) id unbind_sample False 500 0 0 0 1000 False (sample_vm m) = Some (0, vm)"
    "node_clear (vm_mm vm) 1"
    by (auto simp: node_clear_def split: bind_splits prod.splits)
  note b = two_bound_ok [OF m(1)]
  have "gem_ok (sample_vm m)" using b m(2) by (simp add: gem_ok_def sample_vm_def)
  moreover have "env_keeps (\<lambda>v. snd ((0 :: int), v))" "env_keeps id" by (simp_all add: env_keeps_def)
  ultimately have "\<exists>ret vm'. i915_gem_evict_something (Pair 0) id unbind_sample False 500 0 0 0 1000 False
      (sample_vm m) = Some (ret, vm') \<and> gem_ok vm' \<and>
      (\<forall>x. vma_on_exec (vm_vma vm' x) = vma_on_exec (vm_vma (sample_vm m) x)) \<and>
      (ret = 0 \<and> mm_color_adjust (vm_mm (sample_vm m)) = None \<longrightarrow> (\<forall>x bm. node_clear (vm_mm vm') x \<longrightarrow>
       (\<exists>m'. drm_mm_insert_node_in_range_generic x 500 0 0 0 (- 1) bm (vm_mm vm') = Some (0, m'))))"
    by (intro gem_evict_something [OF _ unbind_sample_ok]) (simp_all add: sample_vm_def)
  then obtain ret vm' where e:
    "i915_gem_evict_something (Pair 0) id unbind_sample False 500 0 0 0 1000 False (sample_vm m) = Some (ret, vm')"
    "\<forall>x. vma_on_exec (vm_vma vm' x) = vma_on_exec (vm_vma (sample_vm m) x)"
    "ret = 0 \<and> mm_color_adjust (vm_mm (sample_vm m)) = None \<longrightarrow> (\<forall>x bm. node_clear (vm_mm vm') x \<longrightarrow>
       (\<exists>m'. drm_mm_insert_node_in_range_generic x 500 0 0 0 (- 1) bm (vm_mm vm') = Some (0, m')))"
    by blast
  from e(1) m(3) have v: "ret = 0" "vm' = vm" by simp_all
  have "mm_color_adjust (vm_mm (sample_vm m)) = None" using b(4) by (simp add: sample_vm_def)
  with e(3) m(4) v obtain m' where
    "drm_mm_insert_node_in_range_generic 1 500 0 0 0 (- 1) False (vm_mm vm) = Some (0, m')" by blast
  moreover have "vma_on_exec (vm_vma vm 2)" using e(2) v(2) by (simp add: sample_vm_def)
  ultimately show ?thesis using m(1,3) by blast
qed

text \<open>
  C23: \<^verbatim>\<open>i915_gem_evict_everything\<close> reports \<^verbatim>\<open>-ENOSPC\<close> without evicting anything exactly when the
  address space that is last in the list is empty (or there is none): the loop
  overwrites its flag in every iteration, so objects in the other address spaces do not
  count.  Otherwise, if the GPU becomes idle, it evicts from every address space.
\<close>

theorem gem_evict_everything:
  assumes "vms \<noteq> []"
  shows "i915_gem_evict_everything dev_idle dev_retire idle retire unbind vms =
    (if vm_inactive (last vms) = [] \<and> vm_active (last vms) = [] then (- ENOSPC, vms)
     else if fst (dev_idle vms) \<noteq> 0 then dev_idle vms
     else (0, map (\<lambda>vm. evict_loop unbind (vm_inactive vm) vm) (dev_retire (snd (dev_idle vms)))))"
proof -
  have "lists_empty_loop b vs = (if vs = [] then b else vm_inactive (last vs) = [] \<and> vm_active (last vs) = [])"
    for b vs by (induction b vs rule: lists_empty_loop.induct) (auto simp: Let_def)
  then show ?thesis using assms
    by (auto simp: i915_gem_evict_everything_def i915_gem_evict_vm_def split: prod.splits)
qed

theorem gem_evict_everything_witness:
  "i915_gem_evict_everything (Pair 0) id (Pair 0) id unbind_sample
     [sample_vm blank_mm, (sample_vm blank_mm)\<lparr>vm_inactive := []\<rparr>] =
   (- ENOSPC, [sample_vm blank_mm, (sample_vm blank_mm)\<lparr>vm_inactive := []\<rparr>])"
  using gem_evict_everything [of "[sample_vm blank_mm, (sample_vm blank_mm)\<lparr>vm_inactive := []\<rparr>]"
      "Pair 0" id "Pair 0" id unbind_sample]
  by (simp add: sample_vm_def)

end
