(* ===== verification/Highmem.thy ===== *)
theory Highmem
  imports Prelude
begin

text \<open>
  Permanent kernel mappings of high memory (\<^verbatim>\<open>src/ulk_pkmap/highmem.c\<close> and
  \<^verbatim>\<open>highmem_32.c\<close>).

  Pages are named by numbers.  The mapping window has \<^verbatim>\<open>LAST_PKMAP\<close> slots, a power of two;
  \<^verbatim>\<open>pkmap_count\<close> and \<^verbatim>\<open>pkmap_page_table\<close> are arrays of that length, a page table entry being the
  page it maps or none.  \<^verbatim>\<open>pk_tlb\<close> records for each slot the pages to which a processor may
  still translate its address: writing an entry adds the page, \<^verbatim>\<open>flush_tlb_kernel_range\<close>
  leaves only what the page table holds at that moment.  The page address hash keeps, per bucket, the indices of the
  \<^verbatim>\<open>page_address_map\<close> entries on the bucket's list.

  \<^verbatim>\<open>map_new_virtual\<close> may sleep with the lock dropped; the model returns at that point, and the
  rest of the function is the continuation \<^verbatim>\<open>map_resume\<close>.  The configuration \<^verbatim>\<open>pk_config\<close>
  holds what other files define: the window's order and base, which pages are high
  memory, the addresses of low memory, and the hash of a page pointer.  A \<^verbatim>\<open>BUG\<close> is \<^verbatim>\<open>None\<close>.
\<close>

section \<open>Configuration and state\<close>

type_synonym vaddr = "32 word"

record pk_config =
  pc_order :: nat
  pc_base :: vaddr
  pc_highmem :: "nat \<Rightarrow> bool"
  pc_lowmem_address :: "nat \<Rightarrow> vaddr"
  pc_virt_to_page :: "vaddr \<Rightarrow> nat"
  pc_hash :: "nat \<Rightarrow> nat"

record pk_state =
  pk_count :: "int list"
  pk_last :: nat
  pk_table :: "nat option list"
  pk_tlb :: "nat list list"
  pa_maps :: "(nat \<times> vaddr) list"
  pa_htable :: "nat list list"

abbreviation LAST_PKMAP :: "pk_config \<Rightarrow> nat" where
  "LAST_PKMAP c \<equiv> 2 ^ pc_order c"

definition PKMAP_ADDR :: "pk_config \<Rightarrow> nat \<Rightarrow> vaddr" where
  "PKMAP_ADDR c nr = pc_base c + push_bit 12 (word_of_nat nr)"

definition PKMAP_NR :: "pk_config \<Rightarrow> vaddr \<Rightarrow> nat" where
  "PKMAP_NR c v = unat (drop_bit 12 (v - pc_base c))"

section \<open>The page address hash\<close>

fun find_map :: "(nat \<times> vaddr) list \<Rightarrow> nat \<Rightarrow> nat list \<Rightarrow> nat option" where
  "find_map maps page [] = None"
| "find_map maps page (i # is) =
     (if fst (maps ! i) = page then Some i else find_map maps page is)"

definition page_address :: "pk_config \<Rightarrow> nat \<Rightarrow> pk_state \<Rightarrow> vaddr" where
  "page_address c page s =
     (if \<not> pc_highmem c page then pc_lowmem_address c page
      else case find_map (pa_maps s) page (pa_htable s ! pc_hash c page) of
             None \<Rightarrow> 0 | Some i \<Rightarrow> snd (pa_maps s ! i))"

definition set_page_address :: "pk_config \<Rightarrow> nat \<Rightarrow> vaddr \<Rightarrow> pk_state \<Rightarrow> pk_state option" where
  "set_page_address c page v s =
     (if \<not> pc_highmem c page then None
      else let h = pc_hash c page; lh = pa_htable s ! h in
        if v \<noteq> 0 then
          do { maps \<leftarrow> arr_set (pa_maps s) (PKMAP_NR c v) (page, v);
               ht \<leftarrow> arr_set (pa_htable s) h (lh @ [PKMAP_NR c v]);
               Some (s\<lparr>pa_maps := maps, pa_htable := ht\<rparr>) }
        else (case find_map (pa_maps s) page lh of
                None \<Rightarrow> Some s
              | Some i \<Rightarrow> do { ht \<leftarrow> arr_set (pa_htable s) h (remove1 i lh);
                               Some (s\<lparr>pa_htable := ht\<rparr>) }))"

definition page_address_init :: "pk_state \<Rightarrow> pk_state" where
  "page_address_init s = s\<lparr>pa_htable := map (\<lambda>_. []) (pa_htable s)\<rparr>"

section \<open>Flushing\<close>

definition flush_tlb_kernel_range :: "pk_state \<Rightarrow> pk_state" where
  "flush_tlb_kernel_range s = s\<lparr>pk_tlb := map (\<lambda>e. case e of None \<Rightarrow> [] | Some p \<Rightarrow> [p]) (pk_table s)\<rparr>"

fun flush_loop :: "pk_config \<Rightarrow> nat list \<Rightarrow> bool \<Rightarrow> pk_state \<Rightarrow> (bool \<times> pk_state) option" where
  "flush_loop c [] need_flush s = Some (need_flush, s)"
| "flush_loop c (i # is) need_flush s =
     do { n \<leftarrow> arr_get (pk_count s) i;
          if n \<noteq> 1 then flush_loop c is need_flush s
          else do {
            counts \<leftarrow> arr_set (pk_count s) i 0;
            entry \<leftarrow> arr_get (pk_table s) i;
            page \<leftarrow> entry;
            table \<leftarrow> arr_set (pk_table s) i None;
            s' \<leftarrow> set_page_address c page 0 (s\<lparr>pk_count := counts, pk_table := table\<rparr>);
            flush_loop c is True s' } }"

definition flush_all_zero_pkmaps :: "pk_config \<Rightarrow> pk_state \<Rightarrow> pk_state option" where
  "flush_all_zero_pkmaps c s =
     do { (need_flush, s') \<leftarrow> flush_loop c [0..<LAST_PKMAP c] False s;
          Some (if need_flush then flush_tlb_kernel_range s' else s') }"

definition kmap_flush_unused :: "pk_config \<Rightarrow> pk_state \<Rightarrow> pk_state option" where
  "kmap_flush_unused c s = flush_all_zero_pkmaps c s"

section \<open>Mapping\<close>

text \<open>The search for a usable slot: found, or every slot is in use and the task must sleep.\<close>

datatype slot_search = Found pk_state | Must_sleep pk_state

definition next_nr :: "pk_config \<Rightarrow> nat \<Rightarrow> nat" where
  "next_nr c nr = (nr + 1) AND (LAST_PKMAP c - 1)"

lemma next_nr_mod: "next_nr c nr = (nr + 1) mod LAST_PKMAP c"
  unfolding next_nr_def by (rule nat_and_mask)

function find_slot :: "pk_config \<Rightarrow> nat \<Rightarrow> nat \<Rightarrow> pk_state \<Rightarrow> slot_search option" where
  "find_slot c nr cnt s =
     (let nr' = next_nr c nr;
          s1 = s\<lparr>pk_last := nr'\<rparr> in
      do { s2 \<leftarrow> (if nr' = 0 then flush_all_zero_pkmaps c s1 else Some s1);
           let cnt' = (if nr' = 0 then LAST_PKMAP c else cnt);
           n \<leftarrow> arr_get (pk_count s2) nr';
           if n = 0 then Some (Found s2)
           else if cnt' - 1 = 0 then Some (Must_sleep s2)
           else find_slot c nr' (cnt' - 1) s2 })"
  by pat_completeness auto

text \<open>
  The search ends: the counter restarts only when the slot number wraps to 0, and then
  it runs out before the number wraps again.
\<close>

definition search_left :: "pk_config \<Rightarrow> nat \<Rightarrow> nat \<Rightarrow> nat" where
  "search_left c nr cnt =
     (let d = LAST_PKMAP c - 1 - nr mod LAST_PKMAP c in
      if cnt \<noteq> 0 \<and> cnt \<le> d then cnt else d + LAST_PKMAP c + 1)"

lemma search_left_wrap:
  assumes "next_nr c nr = 0" "LAST_PKMAP c - 1 \<noteq> 0"
  shows "search_left c 0 (LAST_PKMAP c - 1) < search_left c nr cnt"
proof -
  let ?N = "LAST_PKMAP c"
  have N: "0 < ?N" by simp
  have "(nr + 1) mod ?N = 0" using assms(1) by (simp add: next_nr_mod)
  then have "nr mod ?N = ?N - 1" by (metis N Suc_eq_plus1 diff_Suc_1 mod_Suc nat.simps(3))
  then show ?thesis using N assms(2) by (auto simp: search_left_def Let_def)
qed

lemma search_left_step:
  assumes "next_nr c nr \<noteq> 0" "cnt - 1 \<noteq> 0"
  shows "search_left c (next_nr c nr) (cnt - 1) < search_left c nr cnt"
proof -
  let ?N = "LAST_PKMAP c"
  have "nr mod ?N < ?N" "(nr + 1) mod ?N \<noteq> 0" using assms(1) by (simp_all add: next_nr_mod)
  then have "(nr + 1) mod ?N = nr mod ?N + 1" "nr mod ?N + 1 < ?N"
    by (metis Suc_eq_plus1 mod_Suc, metis Suc_eq_plus1 Suc_lessI mod_Suc)
  then show ?thesis using assms(2) by (auto simp: search_left_def Let_def next_nr_mod)
qed

termination find_slot
  by (relation "measure (\<lambda>(c, nr, cnt, s). search_left c nr cnt)")
    (auto simp: search_left_wrap [simplified] search_left_step [simplified] split: if_splits)

declare find_slot.simps [simp del]

definition install_mapping :: "pk_config \<Rightarrow> nat \<Rightarrow> pk_state \<Rightarrow> (vaddr \<times> pk_state) option" where
  "install_mapping c page s =
     do { let nr = pk_last s;
          let v = PKMAP_ADDR c nr;
          table \<leftarrow> arr_set (pk_table s) nr (Some page);
          cached \<leftarrow> arr_get (pk_tlb s) nr;
          tlb \<leftarrow> arr_set (pk_tlb s) nr (page # cached);
          counts \<leftarrow> arr_set (pk_count s) nr 1;
          s' \<leftarrow> set_page_address c page v (s\<lparr>pk_table := table, pk_tlb := tlb, pk_count := counts\<rparr>);
          Some (v, s') }"

datatype map_result = Mapped vaddr pk_state | Sleeping pk_state

definition map_new_virtual :: "pk_config \<Rightarrow> nat \<Rightarrow> pk_state \<Rightarrow> map_result option" where
  "map_new_virtual c page s =
     do { r \<leftarrow> find_slot c (pk_last s) (LAST_PKMAP c) s;
          case r of
            Found s' \<Rightarrow> map_option (\<lambda>(v, t). Mapped v t) (install_mapping c page s')
          | Must_sleep s' \<Rightarrow> Some (Sleeping s') }"

definition map_resume :: "pk_config \<Rightarrow> nat \<Rightarrow> pk_state \<Rightarrow> map_result option" where
  "map_resume c page s =
     (if page_address c page s \<noteq> 0 then Some (Mapped (page_address c page s) s)
      else map_new_virtual c page s)"

text \<open>A user more in a slot's counter, a C \<^verbatim>\<open>int\<close>.\<close>

definition inc_count :: "int \<Rightarrow> int option" where
  "inc_count n = (if n + 1 < 2 ^ 31 then Some (n + 1) else None)"

definition count_user :: "pk_config \<Rightarrow> vaddr \<Rightarrow> pk_state \<Rightarrow> (vaddr \<times> pk_state) option" where
  "count_user c v s =
     do { n \<leftarrow> arr_get (pk_count s) (PKMAP_NR c v);
          n' \<leftarrow> inc_count n;
          counts \<leftarrow> arr_set (pk_count s) (PKMAP_NR c v) n';
          if n' < 2 then None else Some (v, s\<lparr>pk_count := counts\<rparr>) }"

definition finish_kmap :: "pk_config \<Rightarrow> map_result option \<Rightarrow> map_result option" where
  "finish_kmap c r =
     do { m \<leftarrow> r;
          case m of
            Mapped v s \<Rightarrow> map_option (\<lambda>(v, t). Mapped v t) (count_user c v s)
          | Sleeping s \<Rightarrow> Some (Sleeping s) }"

definition kmap_high :: "pk_config \<Rightarrow> nat \<Rightarrow> pk_state \<Rightarrow> map_result option" where
  "kmap_high c page s =
     (let v = page_address c page s in
      finish_kmap c (if v = 0 then map_new_virtual c page s else Some (Mapped v s)))"

definition kmap_high_resume :: "pk_config \<Rightarrow> nat \<Rightarrow> pk_state \<Rightarrow> map_result option" where
  "kmap_high_resume c page s = finish_kmap c (map_resume c page s)"

definition kmap_high_get :: "pk_config \<Rightarrow> nat \<Rightarrow> pk_state \<Rightarrow> (vaddr \<times> pk_state) option" where
  "kmap_high_get c page s =
     (let v = page_address c page s in
      if v \<noteq> 0 then
        do { n \<leftarrow> arr_get (pk_count s) (PKMAP_NR c v);
             if n < 1 then None
             else do { n' \<leftarrow> inc_count n;
                       counts \<leftarrow> arr_set (pk_count s) (PKMAP_NR c v) n';
                       Some (v, s\<lparr>pk_count := counts\<rparr>) } }
      else Some (v, s))"

section \<open>Unmapping\<close>

text \<open>The first component says whether sleeping tasks are woken.\<close>

definition kunmap_high :: "pk_config \<Rightarrow> nat \<Rightarrow> bool \<Rightarrow> pk_state \<Rightarrow> (bool \<times> pk_state) option" where
  "kunmap_high c page waitqueue_active s =
     (let v = page_address c page s in
      if v = 0 then None
      else do {
        let nr = PKMAP_NR c v;
        n \<leftarrow> arr_get (pk_count s) nr;
        counts \<leftarrow> arr_set (pk_count s) nr (n - 1);
        if n - 1 = 0 then None
        else Some (n - 1 = 1 \<and> waitqueue_active, s\<lparr>pk_count := counts\<rparr>) })"

definition kmap_to_page :: "pk_config \<Rightarrow> vaddr \<Rightarrow> pk_state \<Rightarrow> nat option" where
  "kmap_to_page c addr s =
     (if PKMAP_ADDR c 0 \<le> addr \<and> addr < PKMAP_ADDR c (LAST_PKMAP c)
      then do { e \<leftarrow> arr_get (pk_table s) (PKMAP_NR c addr); e }
      else Some (pc_virt_to_page c addr))"

definition kmap :: "pk_config \<Rightarrow> nat \<Rightarrow> pk_state \<Rightarrow> map_result option" where
  "kmap c page s =
     (if \<not> pc_highmem c page then Some (Mapped (page_address c page s) s)
      else kmap_high c page s)"

definition kunmap :: "pk_config \<Rightarrow> nat \<Rightarrow> bool \<Rightarrow> bool \<Rightarrow> pk_state \<Rightarrow> (bool \<times> pk_state) option" where
  "kunmap c page in_interrupt waitqueue_active s =
     (if in_interrupt then None
      else if \<not> pc_highmem c page then Some (False, s)
      else kunmap_high c page waitqueue_active s)"

section \<open>Free high memory\<close>

fun nr_free_highpages :: "bool \<Rightarrow> (32 word \<times> 32 word) list \<Rightarrow> 32 word" where
  "nr_free_highpages movable_is_highmem [] = 0"
| "nr_free_highpages movable_is_highmem ((high, movable) # nodes) =
     high + (if movable_is_highmem then movable else 0) + nr_free_highpages movable_is_highmem nodes"

section \<open>Tasks\<close>

text \<open>
  The state at boot, and the interleavings of tasks.  Each function above runs under
  \<^verbatim>\<open>kmap_lock\<close>, so a step is one of them, or the part of one between two points where the lock
  is dropped.  \<^verbatim>\<open>ks_held\<close> lists the mappings tasks hold.  A task that sleeps is on
  \<^verbatim>\<open>pkmap_map_wait\<close> until it is woken, takes itself off the queue and becomes a runner
  that still has to take the lock.  \<^verbatim>\<open>wake_up\<close> is called after the lock is dropped:
  \<^verbatim>\<open>ks_wakes\<close> counts the calls that are due.  A task starts to map a page only while fewer than
  $2^{31} - 2$ mappings are held, so that the \<^verbatim>\<open>int\<close> counters do not overflow.
\<close>

definition pk_boot :: "pk_config \<Rightarrow> pk_state" where
  "pk_boot c = page_address_init
     \<lparr>pk_count = replicate (LAST_PKMAP c) 0, pk_last = 0,
      pk_table = replicate (LAST_PKMAP c) None, pk_tlb = replicate (LAST_PKMAP c) [],
      pa_maps = replicate (LAST_PKMAP c) (0, 0), pa_htable = replicate 128 []\<rparr>"

record ksys =
  ks_pk :: pk_state
  ks_held :: "nat list"
  ks_queue :: "(nat \<times> bool) list"
  ks_runners :: "nat list"
  ks_wakes :: nat

definition ksys_boot :: "pk_config \<Rightarrow> ksys" where
  "ksys_boot c = \<lparr>ks_pk = pk_boot c, ks_held = [], ks_queue = [], ks_runners = [], ks_wakes = 0\<rparr>"

abbreviation few_held :: "ksys \<Rightarrow> bool" where
  "few_held y \<equiv> length (ks_held y) + 2 < 2 ^ 31"

inductive kstep :: "pk_config \<Rightarrow> ksys \<Rightarrow> ksys \<Rightarrow> bool" for c where
  map_now: "few_held y \<Longrightarrow> pc_highmem c p \<Longrightarrow> kmap_high c p (ks_pk y) = Some (Mapped v s) \<Longrightarrow>
    kstep c y (y\<lparr>ks_pk := s, ks_held := p # ks_held y\<rparr>)"
| map_sleep: "few_held y \<Longrightarrow> pc_highmem c p \<Longrightarrow> kmap_high c p (ks_pk y) = Some (Sleeping s) \<Longrightarrow>
    kstep c y (y\<lparr>ks_pk := s, ks_queue := (p, False) # ks_queue y\<rparr>)"
| leave_queue: "(p, True) \<in> set (ks_queue y) \<Longrightarrow>
    kstep c y (y\<lparr>ks_queue := remove1 (p, True) (ks_queue y), ks_runners := p # ks_runners y\<rparr>)"
| resume_now: "few_held y \<Longrightarrow> p \<in> set (ks_runners y) \<Longrightarrow>
    kmap_high_resume c p (ks_pk y) = Some (Mapped v s) \<Longrightarrow>
    kstep c y (y\<lparr>ks_pk := s, ks_held := p # ks_held y, ks_runners := remove1 p (ks_runners y)\<rparr>)"
| resume_sleep: "few_held y \<Longrightarrow> p \<in> set (ks_runners y) \<Longrightarrow>
    kmap_high_resume c p (ks_pk y) = Some (Sleeping s) \<Longrightarrow>
    kstep c y (y\<lparr>ks_pk := s, ks_queue := (p, False) # ks_queue y,
                ks_runners := remove1 p (ks_runners y)\<rparr>)"
| pin: "few_held y \<Longrightarrow> pc_highmem c p \<Longrightarrow> kmap_high_get c p (ks_pk y) = Some (v, s) \<Longrightarrow>
    kstep c y (y\<lparr>ks_pk := s, ks_held := (if v = 0 then ks_held y else p # ks_held y)\<rparr>)"
| unmap: "p \<in> set (ks_held y) \<Longrightarrow>
    kunmap_high c p (ks_queue y \<noteq> []) (ks_pk y) = Some (need_wakeup, s) \<Longrightarrow>
    kstep c y (y\<lparr>ks_pk := s, ks_held := remove1 p (ks_held y),
                ks_wakes := ks_wakes y + (if need_wakeup then 1 else 0)\<rparr>)"
| wake: "0 < ks_wakes y \<Longrightarrow>
    kstep c y (y\<lparr>ks_queue := map (\<lambda>(p, _). (p, True)) (ks_queue y), ks_wakes := ks_wakes y - 1\<rparr>)"
| flush: "kmap_flush_unused c (ks_pk y) = Some s \<Longrightarrow> kstep c y (y\<lparr>ks_pk := s\<rparr>)"

inductive kreach :: "pk_config \<Rightarrow> ksys \<Rightarrow> bool" for c where
  boot: "kreach c (ksys_boot c)"
| step: "kreach c y \<Longrightarrow> kstep c y z \<Longrightarrow> kreach c z"

end
