(* ===== verification/Highmem_Props.thy ===== *)
theory Highmem_Props
  imports Highmem
begin

text \<open>
  The invariant of the permanent kernel mappings, what every operation does under it, and
  the properties of the interleaved system: no \<^verbatim>\<open>BUG\<close> fires, a mapping keeps its translation
  while it is held, no stale translation is ever used, and no sleeping task is forgotten.
\<close>

section \<open>Addresses\<close>

definition pk_config_ok :: "pk_config \<Rightarrow> bool" where
  "pk_config_ok c \<longleftrightarrow>
     0 < pc_base c \<and> unat (pc_base c) + 2 ^ (pc_order c + 12) < 2 ^ 32 \<and>
     (\<forall>p. pc_hash c p < 128)"

lemma unat_PKMAP_ADDR:
  assumes "pk_config_ok c" "i \<le> LAST_PKMAP c"
  shows "unat (PKMAP_ADDR c i) = unat (pc_base c) + i * 4096"
proof -
  have le: "i * 4096 \<le> 2 ^ (pc_order c + 12)" using assms(2) by (simp add: power_add)
  then have lt: "i * 4096 < 2 ^ 32" "unat (pc_base c) + i * 4096 < 2 ^ 32"
    using assms(1) by (auto simp: pk_config_ok_def)
  have "push_bit 12 (word_of_nat i) = (word_of_nat (i * 4096) :: 32 word)"
    by (simp add: push_bit_eq_mult)
  moreover have "unat (word_of_nat (i * 4096) :: 32 word) = i * 4096"
    using lt(1) by (simp add: unat_of_nat del: of_nat_mult)
  ultimately show ?thesis using lt(2) by (simp add: PKMAP_ADDR_def unat_word_ariths)
qed

lemma PKMAP_NR_ADDR [simp]:
  assumes "pk_config_ok c" "i \<le> LAST_PKMAP c"
  shows "PKMAP_NR c (PKMAP_ADDR c i) = i"
proof -
  have "pc_base c \<le> PKMAP_ADDR c i"
    using unat_PKMAP_ADDR [OF assms] by (simp add: word_le_nat_alt)
  then have "unat (PKMAP_ADDR c i - pc_base c) = i * 4096"
    using unat_PKMAP_ADDR [OF assms] by (simp add: unat_sub)
  then show ?thesis by (simp add: PKMAP_NR_def drop_bit_eq_div unat_div)
qed

lemma PKMAP_ADDR_nonzero [simp]:
  assumes "pk_config_ok c" "i \<le> LAST_PKMAP c"
  shows "PKMAP_ADDR c i \<noteq> 0"
proof
  assume "PKMAP_ADDR c i = 0"
  then have "unat (pc_base c) = 0" using unat_PKMAP_ADDR [OF assms] by simp
  then show False using assms(1) by (simp add: pk_config_ok_def unat_eq_0)
qed

lemma PKMAP_ADDR_window:
  assumes "pk_config_ok c" "i < LAST_PKMAP c"
  shows "PKMAP_ADDR c 0 \<le> PKMAP_ADDR c i" "PKMAP_ADDR c i < PKMAP_ADDR c (LAST_PKMAP c)"
  using assms unat_PKMAP_ADDR [OF assms(1), of 0] unat_PKMAP_ADDR [OF assms(1), of i]
    unat_PKMAP_ADDR [OF assms(1), of "LAST_PKMAP c"]
  by (simp_all add: word_le_nat_alt word_less_nat_alt)

section \<open>The invariant\<close>

text \<open>
  The comment above \<^verbatim>\<open>pkmap_count\<close>: 0 is an unmapped and flushed slot, 1 a mapping without
  users, and otherwise there are one less users than the counter says.
\<close>

definition slot_ok :: "pk_config \<Rightarrow> nat list \<Rightarrow> pk_state \<Rightarrow> nat \<Rightarrow> bool" where
  "slot_ok c held s i \<longleftrightarrow>
     (pk_table s ! i = None \<longrightarrow> pk_count s ! i = 0) \<and>
     (\<forall>p. pk_table s ! i = Some p \<longrightarrow>
        pc_highmem c p \<and> pk_count s ! i = 1 + int (count_list held p) \<and>
        pa_maps s ! i = (p, PKMAP_ADDR c i))"

definition hash_ok :: "pk_config \<Rightarrow> pk_state \<Rightarrow> bool" where
  "hash_ok c s \<longleftrightarrow>
     (\<forall>h < 128. distinct (pa_htable s ! h) \<and>
        set (pa_htable s ! h) =
          {i. i < LAST_PKMAP c \<and> (\<exists>p. pk_table s ! i = Some p \<and> pc_hash c p = h)})"

definition table_inj :: "nat option list \<Rightarrow> bool" where
  "table_inj t \<longleftrightarrow>
     (\<forall>i j p. i < length t \<longrightarrow> j < length t \<longrightarrow> t ! i = Some p \<longrightarrow> t ! j = Some p \<longrightarrow> i = j)"

definition pk_core :: "pk_config \<Rightarrow> nat list \<Rightarrow> pk_state \<Rightarrow> bool" where
  "pk_core c held s \<longleftrightarrow>
     length (pk_count s) = LAST_PKMAP c \<and> length (pk_table s) = LAST_PKMAP c \<and>
     length (pk_tlb s) = LAST_PKMAP c \<and> length (pa_maps s) = LAST_PKMAP c \<and>
     length (pa_htable s) = 128 \<and> pk_last s < LAST_PKMAP c \<and>
     (\<forall>i < LAST_PKMAP c. slot_ok c held s i) \<and> hash_ok c s \<and> table_inj (pk_table s) \<and>
     (\<forall>p \<in> set held. Some p \<in> set (pk_table s))"

definition tlb_ok :: "pk_state \<Rightarrow> bool" where
  "tlb_ok s \<longleftrightarrow> (\<forall>i < length (pk_table s). set (pk_tlb s ! i) \<subseteq> set_option (pk_table s ! i))"

definition pk_ok :: "pk_config \<Rightarrow> nat list \<Rightarrow> pk_state \<Rightarrow> bool" where
  "pk_ok c held s \<longleftrightarrow> pk_core c held s \<and> tlb_ok s"

lemma slot_okD:
  "slot_ok c held s i \<Longrightarrow> pk_table s ! i = Some p \<Longrightarrow>
   pc_highmem c p \<and> pk_count s ! i = 1 + int (count_list held p) \<and> pa_maps s ! i = (p, PKMAP_ADDR c i)"
  by (simp add: slot_ok_def)

lemma slot_ok_zero: "slot_ok c held s i \<Longrightarrow> pk_count s ! i = 0 \<longleftrightarrow> pk_table s ! i = None"
  by (auto simp: slot_ok_def split: option.splits)

section \<open>The page address hash\<close>

lemma find_map_Some:
  "find_map maps p is = Some i \<Longrightarrow> i \<in> set is \<and> fst (maps ! i) = p"
  by (induction "is") (auto split: if_splits)

lemma find_map_None: "find_map maps p is = None \<longleftrightarrow> (\<forall>i \<in> set is. fst (maps ! i) \<noteq> p)"
  by (induction "is") auto

lemma find_map_slot:
  assumes "pk_core c held s" "pk_config_ok c"
  shows "find_map (pa_maps s) p (pa_htable s ! pc_hash c p) = Some i \<longleftrightarrow>
         i < LAST_PKMAP c \<and> pk_table s ! i = Some p"
proof -
  let ?xs = "pa_htable s ! pc_hash c p"
  have slot: "\<And>i. i < LAST_PKMAP c \<Longrightarrow> slot_ok c held s i" using assms(1) by (simp add: pk_core_def)
  have bkt: "set ?xs = {i. i < LAST_PKMAP c \<and> (\<exists>q. pk_table s ! i = Some q \<and> pc_hash c q = pc_hash c p)}"
    using assms by (auto simp: pk_core_def hash_ok_def pk_config_ok_def)
  have key: "\<And>i q. i < LAST_PKMAP c \<Longrightarrow> pk_table s ! i = Some q \<Longrightarrow> fst (pa_maps s ! i) = q"
    using slot_okD [OF slot] by fastforce
  have mem: "\<And>i. i \<in> set ?xs \<and> fst (pa_maps s ! i) = p \<longleftrightarrow> i < LAST_PKMAP c \<and> pk_table s ! i = Some p"
    unfolding bkt using key by auto
  have inj: "\<And>i j. i < LAST_PKMAP c \<Longrightarrow> j < LAST_PKMAP c \<Longrightarrow> pk_table s ! i = Some p \<Longrightarrow>
      pk_table s ! j = Some p \<Longrightarrow> i = j"
    using assms(1) unfolding pk_core_def table_inj_def by metis
  show ?thesis
  proof
    assume "find_map (pa_maps s) p ?xs = Some i"
    then show "i < LAST_PKMAP c \<and> pk_table s ! i = Some p" using mem find_map_Some by blast
  next
    assume i: "i < LAST_PKMAP c \<and> pk_table s ! i = Some p"
    then have "find_map (pa_maps s) p ?xs \<noteq> None" using mem by (simp add: find_map_None) blast
    then obtain j where j: "find_map (pa_maps s) p ?xs = Some j" by blast
    then have "j = i" using mem find_map_Some inj i by blast
    then show "find_map (pa_maps s) p ?xs = Some i" using j by simp
  qed
qed

lemma page_address_mapped:
  assumes "pk_core c held s" "pk_config_ok c" "i < LAST_PKMAP c" "pk_table s ! i = Some p"
  shows "page_address c p s = PKMAP_ADDR c i"
proof -
  have "find_map (pa_maps s) p (pa_htable s ! pc_hash c p) = Some i"
    using find_map_slot [OF assms(1,2)] assms(3,4) by blast
  moreover have "slot_ok c held s i" using assms(1,3) by (simp add: pk_core_def)
  ultimately show ?thesis using assms(4) by (auto simp: page_address_def dest: slot_okD)
qed

lemma page_address_unmapped:
  assumes "pk_core c held s" "pk_config_ok c" "pc_highmem c p" "Some p \<notin> set (pk_table s)"
  shows "page_address c p s = 0"
proof -
  have "find_map (pa_maps s) p (pa_htable s ! pc_hash c p) = None"
  proof (rule ccontr)
    assume "find_map (pa_maps s) p (pa_htable s ! pc_hash c p) \<noteq> None"
    then obtain i where "i < LAST_PKMAP c" "pk_table s ! i = Some p"
      using find_map_slot [OF assms(1,2)] by blast
    then show False using assms(1,4) by (metis nth_mem pk_core_def)
  qed
  then show ?thesis using assms(3) by (simp add: page_address_def)
qed

text \<open>Whether and where a page is mapped, read off the page table.\<close>

lemma mapped_cases:
  assumes "pk_core c held s" "pk_config_ok c" "pc_highmem c p"
  obtains (mapped) i where "i < LAST_PKMAP c" "pk_table s ! i = Some p"
      "page_address c p s = PKMAP_ADDR c i" "page_address c p s \<noteq> 0"
  | (unmapped) "Some p \<notin> set (pk_table s)" "page_address c p s = 0"
proof (cases "Some p \<in> set (pk_table s)")
  case True
  then obtain i where "i < LAST_PKMAP c" "pk_table s ! i = Some p"
    using assms(1) by (metis in_set_conv_nth pk_core_def)
  then show thesis using mapped page_address_mapped [OF assms(1,2)] assms(2) by simp
next
  case False
  then show thesis using unmapped page_address_unmapped [OF assms] by blast
qed

section \<open>Flushing\<close>

lemma count_one_unused:
  assumes "pk_core c held s" "i < LAST_PKMAP c" "pk_count s ! i = 1"
  obtains p where "pk_table s ! i = Some p" "p \<notin> set held" "pc_highmem c p"
proof -
  have "slot_ok c held s i" using assms(1,2) by (simp add: pk_core_def)
  then show thesis using that assms(3) by (auto simp: slot_ok_def count_list_0_iff split: option.splits)
qed

definition clear_slot :: "pk_config \<Rightarrow> nat \<Rightarrow> nat \<Rightarrow> pk_state \<Rightarrow> pk_state" where
  "clear_slot c i p s =
     s\<lparr>pk_count := (pk_count s)[i := 0], pk_table := (pk_table s)[i := None],
       pa_htable := (pa_htable s)[pc_hash c p := remove1 i (pa_htable s ! pc_hash c p)]\<rparr>"

lemma clear_slot_run:
  assumes "pk_core c held s" "pk_config_ok c" "i < LAST_PKMAP c" "pk_table s ! i = Some p" "pc_highmem c p"
  shows "set_page_address c p 0 (s\<lparr>pk_count := (pk_count s)[i := 0], pk_table := (pk_table s)[i := None]\<rparr>) =
         Some (clear_slot c i p s)"
proof -
  have "find_map (pa_maps s) p (pa_htable s ! pc_hash c p) = Some i"
    using find_map_slot [OF assms(1,2)] assms(3,4) by blast
  then show ?thesis using assms
    by (simp add: set_page_address_def clear_slot_def pk_core_def pk_config_ok_def Let_def)
qed

lemma clear_slot_hash:
  assumes "pk_core c held s" "pk_config_ok c" "i < LAST_PKMAP c" "pk_table s ! i = Some p"
  shows "hash_ok c (clear_slot c i p s)"
  unfolding hash_ok_def
proof (intro allI impI)
  fix h :: nat
  assume h: "h < 128"
  have len: "length (pk_table s) = LAST_PKMAP c" "length (pa_htable s) = 128" and hp: "pc_hash c p < 128"
    using assms(1,2) by (simp_all add: pk_core_def pk_config_ok_def)
  have old: "distinct (pa_htable s ! h)"
    "set (pa_htable s ! h) = {i. i < LAST_PKMAP c \<and> (\<exists>p. pk_table s ! i = Some p \<and> pc_hash c p = h)}"
    using assms(1) h by (simp_all add: pk_core_def hash_ok_def)
  have nth: "\<And>j. j < LAST_PKMAP c \<Longrightarrow>
      (pk_table s)[i := None] ! j = (if j = i then None else pk_table s ! j)"
    using assms(3) len(1) by (simp add: nth_list_update)
  show "distinct (pa_htable (clear_slot c i p s) ! h) \<and>
    set (pa_htable (clear_slot c i p s) ! h) =
      {j. j < LAST_PKMAP c \<and> (\<exists>q. pk_table (clear_slot c i p s) ! j = Some q \<and> pc_hash c q = h)}"
    using old assms(3,4) nth len(2) hp
    by (cases "h = pc_hash c p") (auto simp: clear_slot_def split: if_splits)
qed

lemma table_inj_clear: "table_inj t \<Longrightarrow> table_inj (t[i := None])"
  unfolding table_inj_def by (metis length_list_update nth_list_update_eq nth_list_update_neq option.distinct(1))

lemma clear_slot_core:
  assumes "pk_core c held s" "pk_config_ok c" "i < LAST_PKMAP c" "pk_table s ! i = Some p" "p \<notin> set held"
  shows "pk_core c held (clear_slot c i p s)"
proof -
  have len: "length (pk_table s) = LAST_PKMAP c" "length (pk_count s) = LAST_PKMAP c"
    using assms(1) by (simp_all add: pk_core_def)
  have slots: "\<forall>j < LAST_PKMAP c. slot_ok c held (clear_slot c i p s) j"
  proof (intro allI impI)
    fix j
    assume j: "j < LAST_PKMAP c"
    then have "slot_ok c held s j" using assms(1) by (simp add: pk_core_def)
    then show "slot_ok c held (clear_slot c i p s) j"
      using len j by (cases "j = i") (simp_all add: slot_ok_def clear_slot_def)
  qed
  have held: "\<forall>q \<in> set held. Some q \<in> set ((pk_table s)[i := None])"
  proof
    fix q assume q: "q \<in> set held"
    then obtain j where "j < LAST_PKMAP c" "pk_table s ! j = Some q" "j \<noteq> i"
      using assms(1,4,5) len(1) by (metis in_set_conv_nth option.inject pk_core_def)
    then show "Some q \<in> set ((pk_table s)[i := None])"
      using len(1) by (metis length_list_update nth_list_update_neq nth_mem)
  qed
  show ?thesis using assms(1) slots held clear_slot_hash [OF assms(1-4)] table_inj_clear
    unfolding pk_core_def by (simp add: clear_slot_def)
qed

definition flushed :: "nat set \<Rightarrow> pk_state \<Rightarrow> pk_state \<Rightarrow> bool" where
  "flushed I s s' \<longleftrightarrow>
     pk_last s' = pk_last s \<and> pk_tlb s' = pk_tlb s \<and>
     (\<forall>j < length (pk_count s).
        pk_count s' ! j = (if j \<in> I \<and> pk_count s ! j = 1 then 0 else pk_count s ! j) \<and>
        pk_table s' ! j = (if j \<in> I \<and> pk_count s ! j = 1 then None else pk_table s ! j))"

lemma flush_loop_spec:
  assumes "pk_config_ok c" "pk_core c held s" "\<forall>i \<in> set is. i < LAST_PKMAP c"
  shows "\<exists>nf' s'. flush_loop c is nf s = Some (nf', s') \<and> pk_core c held s' \<and>
           flushed (set is) s s' \<and> (nf \<longrightarrow> nf') \<and> (nf' \<or> s' = s)"
  using assms(2,3)
proof (induction "is" arbitrary: nf s)
  case Nil
  then show ?case by (simp add: flushed_def)
next
  case (Cons i "is")
  have len: "length (pk_count s) = LAST_PKMAP c" "length (pk_table s) = LAST_PKMAP c" and i: "i < LAST_PKMAP c"
    using Cons.prems by (simp_all add: pk_core_def)
  show ?case
  proof (cases "pk_count s ! i = 1")
    case False
    with Cons.IH [of s nf] Cons.prems obtain nf' s' where
      "flush_loop c is nf s = Some (nf', s')" "pk_core c held s'" "flushed (set is) s s'"
      "nf \<longrightarrow> nf'" "nf' \<or> s' = s"
      by auto
    then show ?thesis using False len i by (auto simp: flushed_def)
  next
    case True
    obtain p where p: "pk_table s ! i = Some p" "p \<notin> set held" "pc_highmem c p"
      using count_one_unused [OF Cons.prems(1) i True] .
    let ?s = "clear_slot c i p s"
    have core: "pk_core c held ?s"
      using clear_slot_core [OF Cons.prems(1) assms(1) i p(1,2)] .
    obtain nf' s' where r: "flush_loop c is True ?s = Some (nf', s')" "pk_core c held s'"
      "flushed (set is) ?s s'" "nf'"
      using Cons.IH [OF core, of True] Cons.prems(2) by auto
    have "flush_loop c (i # is) nf s = Some (nf', s')"
      using r(1) True len i p(1) clear_slot_run [OF Cons.prems(1) assms(1) i p(1,3)] by simp
    moreover have "flushed (set (i # is)) s s'"
      using r(3) True len i by (auto simp: flushed_def clear_slot_def nth_list_update)
    ultimately show ?thesis using r(2,4) by blast
  qed
qed

lemma pk_core_tlb [simp]: "length xs = LAST_PKMAP c \<Longrightarrow> length (pk_tlb s) = LAST_PKMAP c \<Longrightarrow>
    pk_core c held (s\<lparr>pk_tlb := xs\<rparr>) = pk_core c held s"
  by (simp add: pk_core_def slot_ok_def hash_ok_def)

lemma pk_core_last: "n < LAST_PKMAP c \<Longrightarrow> pk_core c held s \<Longrightarrow> pk_core c held (s\<lparr>pk_last := n\<rparr>)"
  by (simp add: pk_core_def slot_ok_def hash_ok_def)

lemma pk_ok_last: "n < LAST_PKMAP c \<Longrightarrow> pk_ok c held s \<Longrightarrow> pk_ok c held (s\<lparr>pk_last := n\<rparr>)"
  by (simp add: pk_ok_def pk_core_last tlb_ok_def)

text \<open>Only slots without users change, and they become empty.\<close>

definition settles :: "pk_state \<Rightarrow> pk_state \<Rightarrow> bool" where
  "settles s s' \<longleftrightarrow>
     length (pk_count s') = length (pk_count s) \<and>
     (\<forall>i < length (pk_count s).
        pk_count s' ! i = pk_count s ! i \<and> pk_table s' ! i = pk_table s ! i \<or>
        pk_count s ! i = 1 \<and> pk_count s' ! i = 0 \<and> pk_table s' ! i = None)"

lemma settles_refl: "pk_count s' = pk_count s \<Longrightarrow> pk_table s' = pk_table s \<Longrightarrow> settles s s'"
  by (simp add: settles_def)

lemma settles_trans: "settles s t \<Longrightarrow> settles t u \<Longrightarrow> settles s u"
  unfolding settles_def by (metis zero_neq_one)

lemma flush_spec:
  assumes "pk_config_ok c" "pk_ok c held s"
  shows "\<exists>s'. flush_all_zero_pkmaps c s = Some s' \<and> pk_ok c held s' \<and> settles s s' \<and>
           pk_last s' = pk_last s \<and> 1 \<notin> set (pk_count s')"
proof -
  have core: "pk_core c held s" using assms(2) by (simp add: pk_ok_def)
  obtain nf s' where r: "flush_loop c [0..<LAST_PKMAP c] False s = Some (nf, s')" "pk_core c held s'"
    "flushed (set [0..<LAST_PKMAP c]) s s'" "nf \<or> s' = s"
    using flush_loop_spec [OF assms(1) core, of "[0..<LAST_PKMAP c]" False] by auto
  have len: "length (pk_count s) = LAST_PKMAP c" "length (pk_table s) = LAST_PKMAP c"
    "length (pk_count s') = LAST_PKMAP c" "length (pk_table s') = LAST_PKMAP c" "length (pk_tlb s') = LAST_PKMAP c"
    using core r(2) by (simp_all add: pk_core_def)
  have sw: "settles s s'" "pk_last s' = pk_last s" "1 \<notin> set (pk_count s')"
    using r(3) len by (auto simp: flushed_def settles_def in_set_conv_nth split: if_splits)
  show ?thesis
  proof (cases nf)
    case True
    then have "flush_all_zero_pkmaps c s = Some (flush_tlb_kernel_range s')"
      using r(1) by (simp add: flush_all_zero_pkmaps_def)
    moreover have "pk_ok c held (flush_tlb_kernel_range s')"
      using r(2) len by (auto simp: pk_ok_def flush_tlb_kernel_range_def tlb_ok_def split: option.splits)
    moreover have "settles s (flush_tlb_kernel_range s')"
      using sw(1) by (simp add: settles_def flush_tlb_kernel_range_def)
    ultimately show ?thesis using sw by (simp add: flush_tlb_kernel_range_def)
  next
    case False
    then show ?thesis using r(1,4) sw assms(2) by (simp add: flush_all_zero_pkmaps_def)
  qed
qed

section \<open>Finding a slot\<close>

text \<open>
  The search returns.  It finds a flushed slot, or it has seen every counter above 1
  after a flush; which of the two only depends on whether some counter is at most 1.
\<close>

definition slot_answer :: "pk_config \<Rightarrow> nat list \<Rightarrow> pk_state \<Rightarrow> slot_search option \<Rightarrow> bool" where
  "slot_answer c held s r \<longleftrightarrow>
     (\<exists>s'. r = Some (Found s') \<and> pk_ok c held s' \<and> settles s s' \<and> pk_count s' ! pk_last s' = 0) \<or>
     (\<exists>s'. r = Some (Must_sleep s') \<and> pk_ok c held s' \<and> settles s s' \<and>
           (\<forall>n \<in> set (pk_count s'). 2 \<le> n))"

lemma slot_answer_settled:
  assumes "settles s t" "slot_answer c held t r"
  shows "slot_answer c held s r"
  using assms(2) settles_trans [OF assms(1)] unfolding slot_answer_def by blast

lemma pk_count_nonneg:
  assumes "pk_core c held s" "n \<in> set (pk_count s)"
  shows "0 \<le> n"
proof -
  obtain i where "i < LAST_PKMAP c" "n = pk_count s ! i"
    using assms by (metis in_set_conv_nth pk_core_def)
  then show ?thesis using assms(1) by (cases "pk_table s ! i") (auto simp: pk_core_def slot_ok_def)
qed

lemma next_nr_in: "nr + 1 < LAST_PKMAP c \<Longrightarrow> next_nr c nr = nr + 1"
  by (simp add: next_nr_mod)

lemma next_nr_end: "nr + 1 = LAST_PKMAP c \<Longrightarrow> next_nr c nr = 0"
  by (simp add: next_nr_mod)

lemma find_slot_scan:
  assumes "pk_ok c held s" "1 \<notin> set (pk_count s)" "nr + cnt + 1 = LAST_PKMAP c" "0 < cnt"
    "\<forall>j \<le> nr. pk_count s ! j \<noteq> 0"
  shows "slot_answer c held s (find_slot c nr cnt s)"
  using assms
proof (induction cnt arbitrary: nr s)
  case 0
  then show ?case by simp
next
  case (Suc m)
  let ?t = "s\<lparr>pk_last := nr + 1\<rparr>"
  have nr: "next_nr c nr = nr + 1" using Suc.prems(3) by (simp add: next_nr_in)
  have len: "length (pk_count s) = LAST_PKMAP c" using Suc.prems(1) by (simp add: pk_ok_def pk_core_def)
  have ok: "pk_ok c held ?t" using Suc.prems(1,3) by (simp add: pk_ok_last)
  have st: "settles s ?t" by (simp add: settles_refl)
  have run: "find_slot c nr (Suc m) s =
      (if pk_count s ! (nr + 1) = 0 then Some (Found ?t)
       else if m = 0 then Some (Must_sleep ?t) else find_slot c (nr + 1) m ?t)"
    using len Suc.prems(3) by (subst find_slot.simps) (simp add: nr)
  show ?case
  proof (cases "pk_count s ! (nr + 1) = 0")
    case True
    then show ?thesis using run ok st by (auto simp: slot_answer_def)
  next
    case False
    then have nz: "\<forall>j \<le> nr + 1. pk_count s ! j \<noteq> 0" using Suc.prems(5) by (metis Suc_eq_plus1 le_Suc_eq)
    show ?thesis
    proof (cases "m = 0")
      case True
      have "2 \<le> n" if n: "n \<in> set (pk_count s)" for n
      proof -
        obtain j where "j < LAST_PKMAP c" "n = pk_count s ! j" using n len by (metis in_set_conv_nth)
        then have "n \<noteq> 0" using nz True Suc.prems(3) by auto
        moreover have "n \<noteq> 1" using n Suc.prems(2) by blast
        moreover have "0 \<le> n" using n Suc.prems(1) pk_count_nonneg by (auto simp: pk_ok_def)
        ultimately show ?thesis by simp
      qed
      then show ?thesis using run True False ok st by (auto simp: slot_answer_def)
    next
      case m: False
      have "slot_answer c held ?t (find_slot c (nr + 1) m ?t)"
        using Suc.IH [OF ok, of "nr + 1"] Suc.prems m nz by simp
      then show ?thesis using run False m slot_answer_settled [OF st] by simp
    qed
  qed
qed

lemma find_slot_wrap:
  assumes "pk_config_ok c" "pk_ok c held s" "nr + 1 = LAST_PKMAP c"
  shows "slot_answer c held s (find_slot c nr cnt s)"
proof -
  let ?s = "s\<lparr>pk_last := 0\<rparr>"
  have nr: "next_nr c nr = 0" using assms(3) by (rule next_nr_end)
  have "pk_ok c held ?s" using assms(2) by (simp add: pk_ok_last)
  then obtain t where t: "flush_all_zero_pkmaps c ?s = Some t" "pk_ok c held t" "settles ?s t"
      "pk_last t = 0" "1 \<notin> set (pk_count t)"
    using flush_spec [OF assms(1)] by force
  have st: "settles s t" using t(3) settles_trans [of s ?s t] by (simp add: settles_refl)
  have len: "length (pk_count t) = LAST_PKMAP c" using t(2) by (simp add: pk_ok_def pk_core_def)
  have run: "find_slot c nr cnt s =
      (if pk_count t ! 0 = 0 then Some (Found t)
       else if LAST_PKMAP c - 1 = 0 then Some (Must_sleep t) else find_slot c 0 (LAST_PKMAP c - 1) t)"
    using len t(1) by (subst find_slot.simps) (simp add: nr)
  consider "pk_count t ! 0 = 0" | "pk_count t ! 0 \<noteq> 0" "LAST_PKMAP c = 1" | "pk_count t ! 0 \<noteq> 0" "LAST_PKMAP c \<noteq> 1"
    by blast
  then have "slot_answer c held t (find_slot c nr cnt s)"
  proof cases
    case 1
    then show ?thesis using run t(2,4) settles_refl [of t t] by (auto simp: slot_answer_def)
  next
    case 2
    then obtain n where n: "pk_count t = [n]" using len by (metis One_nat_def length_0_conv length_Suc_conv)
    then have "0 \<le> n" using t(2) pk_count_nonneg [of c held t n] by (simp add: pk_ok_def)
    then have "2 \<le> n" using n t(5) 2 by simp
    then show ?thesis using run 2 t(2) n settles_refl [of t t] by (auto simp: slot_answer_def)
  next
    case 3
    have "0 < LAST_PKMAP c" by simp
    then have "LAST_PKMAP c - 1 \<noteq> 0" using 3(2) by linarith
    then show ?thesis using 3(1) run find_slot_scan [OF t(2,5), of 0 "LAST_PKMAP c - 1"] by simp
  qed
  then show ?thesis by (rule slot_answer_settled [OF st])
qed

lemma find_slot_spec:
  assumes "pk_config_ok c" "pk_ok c held s" "nr < LAST_PKMAP c" "LAST_PKMAP c \<le> nr + cnt"
  shows "slot_answer c held s (find_slot c nr cnt s)"
  using assms(2-4)
proof (induction "LAST_PKMAP c - 1 - nr" arbitrary: nr cnt s)
  case 0
  then show ?case using find_slot_wrap [OF assms(1) 0(2)] by simp
next
  case (Suc d)
  let ?t = "s\<lparr>pk_last := nr + 1\<rparr>"
  have lt: "nr + 1 < LAST_PKMAP c" using Suc.hyps(2) by linarith
  have nr: "next_nr c nr = nr + 1" using lt by (rule next_nr_in)
  have len: "length (pk_count s) = LAST_PKMAP c" using Suc.prems(1) by (simp add: pk_ok_def pk_core_def)
  have ok: "pk_ok c held ?t" using Suc.prems(1) lt by (simp add: pk_ok_last)
  have st: "settles s ?t" by (simp add: settles_refl)
  have run: "find_slot c nr cnt s =
      (if pk_count s ! (nr + 1) = 0 then Some (Found ?t) else find_slot c (nr + 1) (cnt - 1) ?t)"
    using len lt Suc.prems(3) by (subst find_slot.simps) (simp add: nr)
  show ?case
  proof (cases "pk_count s ! (nr + 1) = 0")
    case True
    then show ?thesis using run ok st by (auto simp: slot_answer_def)
  next
    case False
    have "slot_answer c held ?t (find_slot c (nr + 1) (cnt - 1) ?t)"
      using Suc.hyps(1) [of "nr + 1" ?t "cnt - 1"] Suc.hyps(2) ok lt Suc.prems(3) by simp
    then show ?thesis using run False slot_answer_settled [OF st] by simp
  qed
qed

section \<open>Installing and counting a mapping\<close>

definition with_mapping :: "pk_config \<Rightarrow> nat \<Rightarrow> nat \<Rightarrow> pk_state \<Rightarrow> pk_state" where
  "with_mapping c i p s =
     s\<lparr>pk_table := (pk_table s)[i := Some p], pk_tlb := (pk_tlb s)[i := p # (pk_tlb s ! i)],
       pk_count := (pk_count s)[i := 1], pa_maps := (pa_maps s)[i := (p, PKMAP_ADDR c i)],
       pa_htable := (pa_htable s)[pc_hash c p := pa_htable s ! pc_hash c p @ [i]]\<rparr>"

lemma install_mapping_run:
  assumes "pk_config_ok c" "pk_ok c held s" "pc_highmem c p"
  shows "install_mapping c p s = Some (PKMAP_ADDR c (pk_last s), with_mapping c (pk_last s) p s)"
  using assms by (simp add: install_mapping_def set_page_address_def with_mapping_def pk_ok_def
      pk_core_def Let_def) (simp add: pk_config_ok_def)

lemma with_mapping_hash:
  assumes "pk_config_ok c" "pk_core c held s" "i < LAST_PKMAP c" "pk_table s ! i = None"
  shows "hash_ok c (with_mapping c i p s)"
  unfolding hash_ok_def
proof (intro allI impI)
  fix h :: nat
  assume h: "h < 128"
  have len: "length (pk_table s) = LAST_PKMAP c" "length (pa_htable s) = 128" and hp: "pc_hash c p < 128"
    using assms(1,2) by (simp_all add: pk_core_def pk_config_ok_def)
  have old: "distinct (pa_htable s ! h)"
    "set (pa_htable s ! h) = {i. i < LAST_PKMAP c \<and> (\<exists>p. pk_table s ! i = Some p \<and> pc_hash c p = h)}"
    using assms(2) h by (simp_all add: pk_core_def hash_ok_def)
  have nth: "\<And>j. j < LAST_PKMAP c \<Longrightarrow>
      (pk_table s)[i := Some p] ! j = (if j = i then Some p else pk_table s ! j)"
    using assms(3) len(1) by (simp add: nth_list_update)
  show "distinct (pa_htable (with_mapping c i p s) ! h) \<and>
    set (pa_htable (with_mapping c i p s) ! h) =
      {j. j < LAST_PKMAP c \<and> (\<exists>q. pk_table (with_mapping c i p s) ! j = Some q \<and> pc_hash c q = h)}"
    using old assms(3,4) nth len(2) hp
    by (cases "h = pc_hash c p") (auto simp: with_mapping_def split: if_splits)
qed

lemma table_inj_set: "table_inj t \<Longrightarrow> Some p \<notin> set t \<Longrightarrow> table_inj (t[i := Some p])"
  unfolding table_inj_def
  by (metis length_list_update nth_list_update_eq nth_list_update_neq nth_mem option.inject)

lemma with_mapping_ok:
  assumes "pk_config_ok c" "pk_ok c held s" "i < LAST_PKMAP c" "pk_table s ! i = None"
    "pc_highmem c p" "Some p \<notin> set (pk_table s)"
  shows "pk_ok c held (with_mapping c i p s)"
proof -
  have core: "pk_core c held s" and tlb: "tlb_ok s" using assms(2) by (simp_all add: pk_ok_def)
  then have len: "length (pk_table s) = LAST_PKMAP c" "length (pk_count s) = LAST_PKMAP c"
    "length (pa_maps s) = LAST_PKMAP c" "length (pk_tlb s) = LAST_PKMAP c" by (simp_all add: pk_core_def)
  have unheld: "count_list held p = 0" using core assms(6) by (auto simp: pk_core_def count_list_0_iff)
  have slots: "\<forall>j < LAST_PKMAP c. slot_ok c held (with_mapping c i p s) j"
  proof (intro allI impI)
    fix j
    assume j: "j < LAST_PKMAP c"
    then have "slot_ok c held s j" using core by (simp add: pk_core_def)
    then show "slot_ok c held (with_mapping c i p s) j"
      using len j assms(5) unheld by (cases "j = i") (simp_all add: slot_ok_def with_mapping_def)
  qed
  have held: "\<forall>q \<in> set held. Some q \<in> set ((pk_table s)[i := Some p])"
  proof
    fix q assume "q \<in> set held"
    then obtain j where "j < LAST_PKMAP c" "pk_table s ! j = Some q" "j \<noteq> i"
      using core assms(4) len(1) by (metis in_set_conv_nth option.distinct(1) pk_core_def)
    then show "Some q \<in> set ((pk_table s)[i := Some p])"
      using len(1) by (metis length_list_update nth_list_update_neq nth_mem)
  qed
  have "pk_core c held (with_mapping c i p s)"
    using core slots held with_mapping_hash [OF assms(1) core assms(3,4)] table_inj_set [OF _ assms(6)]
    unfolding pk_core_def by (simp add: with_mapping_def)
  moreover have "tlb_ok (with_mapping c i p s)"
    using tlb len assms(3,4) by (auto simp: tlb_ok_def with_mapping_def nth_list_update)
  ultimately show ?thesis by (simp add: pk_ok_def)
qed

lemma pk_ok_user:
  assumes "pk_ok c held s" "i < LAST_PKMAP c" "pk_table s ! i = Some p"
  shows "pk_ok c (p # held) (s\<lparr>pk_count := (pk_count s)[i := pk_count s ! i + 1]\<rparr>)"
proof -
  have core: "pk_core c held s" using assms(1) by (simp add: pk_ok_def)
  then have len: "length (pk_table s) = LAST_PKMAP c" "length (pk_count s) = LAST_PKMAP c"
    by (simp_all add: pk_core_def)
  have only: "\<And>j. j < LAST_PKMAP c \<Longrightarrow> pk_table s ! j = Some p \<Longrightarrow> j = i"
    using core assms(2,3) len(1) unfolding pk_core_def table_inj_def by metis
  have slots: "\<forall>j < LAST_PKMAP c. slot_ok c (p # held) (s\<lparr>pk_count := (pk_count s)[i := pk_count s ! i + 1]\<rparr>) j"
  proof (intro allI impI)
    fix j
    assume j: "j < LAST_PKMAP c"
    then have ok: "slot_ok c held s j" using core by (simp add: pk_core_def)
    show "slot_ok c (p # held) (s\<lparr>pk_count := (pk_count s)[i := pk_count s ! i + 1]\<rparr>) j"
    proof (cases "j = i")
      case True
      then show ?thesis using ok len j assms(3) by (simp add: slot_ok_def)
    next
      case False
      then have "pk_table s ! j \<noteq> Some p" using only j by blast
      then show ?thesis using ok False by (auto simp: slot_ok_def)
    qed
  qed
  have "Some p \<in> set (pk_table s)" using assms(2,3) len(1) by (metis nth_mem)
  then show ?thesis using assms(1) slots by (simp add: pk_ok_def pk_core_def hash_ok_def tlb_ok_def)
qed

lemma pk_count_held:
  "pk_core c held s \<Longrightarrow> i < LAST_PKMAP c \<Longrightarrow> pk_table s ! i = Some p \<Longrightarrow>
   pk_count s ! i = 1 + int (count_list held p)"
  by (simp add: pk_core_def slot_ok_def)

lemma count_user_run:
  assumes "pk_config_ok c" "pk_ok c held s" "i < LAST_PKMAP c" "pk_table s ! i = Some p"
    "length held + 2 < 2 ^ 31"
  shows "count_user c (PKMAP_ADDR c i) s =
         Some (PKMAP_ADDR c i, s\<lparr>pk_count := (pk_count s)[i := pk_count s ! i + 1]\<rparr>)"
proof -
  have core: "pk_core c held s" using assms(2) by (simp add: pk_ok_def)
  have n: "pk_count s ! i = 1 + int (count_list held p)" using pk_count_held [OF core assms(3,4)] .
  have "count_list held p \<le> length held" by (rule count_le_length)
  then have "pk_count s ! i + 1 < 2 ^ 31" "2 \<le> pk_count s ! i + 1" using n assms(5) by simp_all
  then show ?thesis using core assms(1,3) by (simp add: count_user_def inc_count_def pk_core_def)
qed

section \<open>What the operations return\<close>

definition held_stay :: "pk_state \<Rightarrow> pk_state \<Rightarrow> bool" where
  "held_stay s s' \<longleftrightarrow>
     length (pk_count s') = length (pk_count s) \<and>
     (\<forall>i < length (pk_count s). 2 \<le> pk_count s ! i \<longrightarrow>
        pk_table s' ! i = pk_table s ! i \<and> pk_count s ! i \<le> pk_count s' ! i)"

lemma held_stay_user:
  "i < length (pk_count s) \<Longrightarrow> held_stay s (s\<lparr>pk_count := (pk_count s)[i := pk_count s ! i + 1]\<rparr>)"
  by (auto simp: held_stay_def nth_list_update)

lemma held_stay_trans: "held_stay s t \<Longrightarrow> held_stay t u \<Longrightarrow> held_stay s u"
  unfolding held_stay_def by (metis order_trans)

lemma held_stay_busy:
  assumes "held_stay s t" "\<forall>n \<in> set (pk_count s). 2 \<le> n"
  shows "\<forall>n \<in> set (pk_count t). 2 \<le> n"
  using assms unfolding held_stay_def all_set_conv_all_nth by (metis order_trans)

lemma with_mapping_stay:
  assumes "settles s t" "pk_count t ! i = 0"
  shows "held_stay s (with_mapping c i p t)"
  unfolding held_stay_def
proof (intro conjI allI impI)
  show "length (pk_count (with_mapping c i p t)) = length (pk_count s)"
    using assms(1) by (simp add: settles_def with_mapping_def)
next
  fix j
  assume "j < length (pk_count s)" "2 \<le> pk_count s ! j"
  then have "pk_table t ! j = pk_table s ! j" "pk_count t ! j = pk_count s ! j" "pk_count t ! j \<noteq> 0"
    using assms(1) unfolding settles_def by fastforce+
  then show "pk_table (with_mapping c i p t) ! j = pk_table s ! j"
    "pk_count s ! j \<le> pk_count (with_mapping c i p t) ! j"
    using assms(2) by (cases "j = i"; simp add: with_mapping_def)+
qed

definition map_answer :: "pk_config \<Rightarrow> nat list \<Rightarrow> nat \<Rightarrow> pk_state \<Rightarrow> map_result option \<Rightarrow> bool" where
  "map_answer c held p s r \<longleftrightarrow>
     (if Some p \<notin> set (pk_table s) \<and> (\<forall>n \<in> set (pk_count s). 2 \<le> n)
      then \<exists>s'. r = Some (Sleeping s') \<and> pk_ok c held s' \<and> settles s s' \<and> (\<forall>n \<in> set (pk_count s'). 2 \<le> n)
      else \<exists>i s'. r = Some (Mapped (PKMAP_ADDR c i) s') \<and> i < LAST_PKMAP c \<and> pk_table s' ! i = Some p \<and>
             pk_ok c (p # held) s' \<and> held_stay s s')"

lemma settles_busy:
  assumes "settles s t"
  shows "(\<forall>n \<in> set (pk_count t). 2 \<le> n) \<longleftrightarrow> (\<forall>n \<in> set (pk_count s). 2 \<le> n)"
proof -
  have "(2 \<le> pk_count t ! i) = (2 \<le> pk_count s ! i)" if "i < length (pk_count s)" for i
    using assms that unfolding settles_def by fastforce
  then show ?thesis using assms unfolding settles_def all_set_conv_all_nth by auto
qed

lemma settles_stay: "settles s t \<Longrightarrow> held_stay s t"
  by (auto simp: settles_def held_stay_def)

lemma settles_unmapped:
  assumes "settles s t" "length (pk_table t) = length (pk_count t)" "length (pk_table s) = length (pk_count s)"
    "e \<noteq> None" "e \<notin> set (pk_table s)"
  shows "e \<notin> set (pk_table t)"
  using assms unfolding settles_def by (metis in_set_conv_nth)

lemma finish_mapped:
  assumes "pk_config_ok c" "pk_ok c held t" "i < LAST_PKMAP c" "pk_table t ! i = Some p"
    "length held + 2 < 2 ^ 31"
  shows "finish_kmap c (Some (Mapped (PKMAP_ADDR c i) t)) =
     Some (Mapped (PKMAP_ADDR c i) (t\<lparr>pk_count := (pk_count t)[i := pk_count t ! i + 1]\<rparr>))"
  using count_user_run [OF assms] by (simp add: finish_kmap_def)

lemma new_mapping_answer:
  assumes "pk_config_ok c" "pk_ok c held s" "pc_highmem c p" "Some p \<notin> set (pk_table s)"
    "length held + 2 < 2 ^ 31"
  shows "map_answer c held p s (finish_kmap c (map_new_virtual c p s))"
proof -
  have last: "pk_last s < LAST_PKMAP c" and ls: "length (pk_table s) = length (pk_count s)"
    using assms(2) by (simp_all add: pk_ok_def pk_core_def)
  have "slot_answer c held s (find_slot c (pk_last s) (LAST_PKMAP c) s)"
    using find_slot_spec [OF assms(1,2) last] by simp
  then consider (found) t where "find_slot c (pk_last s) (LAST_PKMAP c) s = Some (Found t)"
      "pk_ok c held t" "settles s t" "pk_count t ! pk_last t = 0"
    | (busy) t where "find_slot c (pk_last s) (LAST_PKMAP c) s = Some (Must_sleep t)"
      "pk_ok c held t" "settles s t" "\<forall>n \<in> set (pk_count t). 2 \<le> n"
    unfolding slot_answer_def by blast
  then show ?thesis
  proof cases
    case found
    let ?i = "pk_last t"
    let ?t = "with_mapping c ?i p t"
    have i: "?i < LAST_PKMAP c" and lt: "length (pk_table t) = LAST_PKMAP c" "length (pk_count t) = LAST_PKMAP c"
      using found(2) by (simp_all add: pk_ok_def pk_core_def)
    have "slot_ok c held t ?i" using found(2) i by (simp add: pk_ok_def pk_core_def)
    then have free: "pk_table t ! ?i = None" using found(4) slot_ok_zero by blast
    have un: "Some p \<notin> set (pk_table t)"
      using settles_unmapped [OF found(3) _ ls _ assms(4)] lt by simp
    have ok: "pk_ok c held ?t" using with_mapping_ok [OF assms(1) found(2) i free assms(3) un] .
    have p: "pk_table ?t ! ?i = Some p" using i lt by (simp add: with_mapping_def)
    have run: "finish_kmap c (map_new_virtual c p s) =
        Some (Mapped (PKMAP_ADDR c ?i) (?t\<lparr>pk_count := (pk_count ?t)[?i := pk_count ?t ! ?i + 1]\<rparr>))"
      using found(1) install_mapping_run [OF assms(1) found(2) assms(3)]
        finish_mapped [OF assms(1) ok i p assms(5)] by (simp add: map_new_virtual_def)
    have free_slot: "\<not> (\<forall>n \<in> set (pk_count s). 2 \<le> n)"
      using settles_busy [OF found(3)] found(4) i lt(2) by (metis nth_mem not_numeral_le_zero)
    have "held_stay s (?t\<lparr>pk_count := (pk_count ?t)[?i := pk_count ?t ! ?i + 1]\<rparr>)"
      using with_mapping_stay [OF found(3,4)] held_stay_user [of ?i ?t] i lt(2)
      by (auto intro: held_stay_trans simp: with_mapping_def)
    then show ?thesis
      unfolding map_answer_def using free_slot run i p pk_ok_user [OF ok i p]
      by auto
  next
    case busy
    then have "\<forall>n \<in> set (pk_count s). 2 \<le> n" using settles_busy by blast
    moreover have "finish_kmap c (map_new_virtual c p s) = Some (Sleeping t)"
      using busy(1) by (simp add: map_new_virtual_def finish_kmap_def)
    ultimately show ?thesis using busy assms(4) by (auto simp: map_answer_def)
  qed
qed

lemma found_mapping_answer:
  assumes "pk_config_ok c" "pk_ok c held s" "i < LAST_PKMAP c" "pk_table s ! i = Some p"
    "length held + 2 < 2 ^ 31"
  shows "map_answer c held p s (finish_kmap c (Some (Mapped (PKMAP_ADDR c i) s)))"
proof -
  have len: "length (pk_count s) = LAST_PKMAP c" "length (pk_table s) = LAST_PKMAP c"
    using assms(2) by (simp_all add: pk_ok_def pk_core_def)
  then have "Some p \<in> set (pk_table s)" using assms(3,4) by (metis nth_mem)
  then show ?thesis
    using finish_mapped [OF assms] pk_ok_user [OF assms(2-4)] held_stay_user [of i s] assms(3,4) len
    by (auto simp: map_answer_def)
qed

lemma kmap_high_answer:
  assumes "pk_config_ok c" "pk_ok c held s" "pc_highmem c p" "length held + 2 < 2 ^ 31"
  shows "map_answer c held p s (kmap_high c p s)" "map_answer c held p s (kmap_high_resume c p s)"
proof -
  have core: "pk_core c held s" using assms(2) by (simp add: pk_ok_def)
  have "map_answer c held p s (kmap_high c p s) \<and> map_answer c held p s (kmap_high_resume c p s)"
    using core assms(1,3)
  proof (cases rule: mapped_cases)
    case (mapped i)
    have "map_answer c held p s (finish_kmap c (Some (Mapped (PKMAP_ADDR c i) s)))"
      using found_mapping_answer [OF assms(1,2) mapped(1,2) assms(4)] .
    moreover have "PKMAP_ADDR c i \<noteq> 0" using mapped(3,4) by simp
    ultimately show ?thesis
      using mapped(3) by (simp add: kmap_high_def kmap_high_resume_def map_resume_def)
  next
    case unmapped
    then show ?thesis using new_mapping_answer [OF assms(1-3) unmapped(1) assms(4)]
      by (simp add: kmap_high_def kmap_high_resume_def map_resume_def)
  qed
  then show "map_answer c held p s (kmap_high c p s)" "map_answer c held p s (kmap_high_resume c p s)"
    by simp_all
qed

lemma kmap_high_get_spec:
  assumes "pk_config_ok c" "pk_ok c held s" "pc_highmem c p" "length held + 2 < 2 ^ 31"
  shows "(\<exists>s'. kmap_high_get c p s = Some (page_address c p s, s') \<and> page_address c p s \<noteq> 0 \<and>
            pk_ok c (p # held) s' \<and> held_stay s s') \<or>
         (kmap_high_get c p s = Some (0, s) \<and> Some p \<notin> set (pk_table s))"
proof -
  have core: "pk_core c held s" using assms(2) by (simp add: pk_ok_def)
  show ?thesis
    using core assms(1,3)
  proof (cases rule: mapped_cases)
    case (mapped i)
    have n: "pk_count s ! i = 1 + int (count_list held p)" using pk_count_held [OF core mapped(1,2)] .
    have "count_list held p \<le> length held" by (rule count_le_length)
    then have "inc_count (pk_count s ! i) = Some (pk_count s ! i + 1)" "1 \<le> pk_count s ! i"
      using n assms(4) by (simp_all add: inc_count_def)
    then have "kmap_high_get c p s =
        Some (page_address c p s, s\<lparr>pk_count := (pk_count s)[i := pk_count s ! i + 1]\<rparr>)"
      using mapped core assms(1) by (simp add: kmap_high_get_def pk_core_def)
    then show ?thesis
      using pk_ok_user [OF assms(2) mapped(1,2)] held_stay_user [of i s] mapped core by (simp add: pk_core_def)
  next
    case unmapped
    then show ?thesis by (simp add: kmap_high_get_def)
  qed
qed

lemma pk_ok_drop:
  assumes "pk_ok c held s" "i < LAST_PKMAP c" "pk_table s ! i = Some p" "p \<in> set held"
  shows "pk_ok c (remove1 p held) (s\<lparr>pk_count := (pk_count s)[i := pk_count s ! i - 1]\<rparr>)"
proof -
  let ?s = "s\<lparr>pk_count := (pk_count s)[i := pk_count s ! i - 1]\<rparr>"
  have core: "pk_core c held s" using assms(1) by (simp add: pk_ok_def)
  then have len: "length (pk_table s) = LAST_PKMAP c" "length (pk_count s) = LAST_PKMAP c"
    by (simp_all add: pk_core_def)
  have less: "int (count_list (remove1 p held) p) = int (count_list held p) - 1"
    and same: "\<And>q. q \<noteq> p \<Longrightarrow> count_list (remove1 p held) q = count_list held q"
    using assms(4) by (induction held) auto
  have only: "\<And>j. j < LAST_PKMAP c \<Longrightarrow> pk_table s ! j = Some p \<Longrightarrow> j = i"
    using core assms(2,3) len(1) unfolding pk_core_def table_inj_def by metis
  have slots: "\<forall>j < LAST_PKMAP c. slot_ok c (remove1 p held) ?s j"
  proof (intro allI impI)
    fix j
    assume j: "j < LAST_PKMAP c"
    then have ok: "slot_ok c held s j" using core by (simp add: pk_core_def)
    show "slot_ok c (remove1 p held) ?s j"
    proof (cases "j = i")
      case True
      then show ?thesis using ok len j assms(3) less by (simp add: slot_ok_def)
    next
      case False
      then have "pk_table s ! j \<noteq> Some p" using only j by blast
      then show ?thesis using ok False same by (auto simp: slot_ok_def)
    qed
  qed
  have "\<forall>q \<in> set (remove1 p held). Some q \<in> set (pk_table s)"
    using core by (meson in_mono pk_core_def set_remove1_subset)
  then show ?thesis using assms(1) slots by (simp add: pk_ok_def pk_core_def hash_ok_def tlb_ok_def)
qed

lemma kunmap_high_spec:
  assumes "pk_config_ok c" "pk_ok c held s" "p \<in> set held"
  obtains i where "i < LAST_PKMAP c" "pk_table s ! i = Some p" "2 \<le> pk_count s ! i"
    "kunmap_high c p w s = Some (pk_count s ! i = 2 \<and> w, s\<lparr>pk_count := (pk_count s)[i := pk_count s ! i - 1]\<rparr>)"
    "pk_ok c (remove1 p held) (s\<lparr>pk_count := (pk_count s)[i := pk_count s ! i - 1]\<rparr>)"
proof -
  have core: "pk_core c held s" using assms(2) by (simp add: pk_ok_def)
  then obtain i where i: "i < LAST_PKMAP c" "pk_table s ! i = Some p"
    using assms(3) by (metis in_set_conv_nth pk_core_def)
  have adr: "page_address c p s = PKMAP_ADDR c i" using page_address_mapped [OF core assms(1) i] .
  have n: "pk_count s ! i = 1 + int (count_list held p)" using pk_count_held [OF core i] .
  have "0 < count_list held p" using assms(3) by (metis count_list_0_iff gr0I)
  then have two: "2 \<le> pk_count s ! i" using n by simp
  then have "kunmap_high c p w s =
      Some (pk_count s ! i = 2 \<and> w, s\<lparr>pk_count := (pk_count s)[i := pk_count s ! i - 1]\<rparr>)"
    using adr i core assms(1) by (auto simp: kunmap_high_def pk_core_def)
  then show thesis using that i two pk_ok_drop [OF assms(2) i assms(3)] by blast
qed

end
