(* ===== verification/Highmem_Sys.thy ===== *)
theory Highmem_Sys
  imports Highmem_Props
begin

text \<open>
  The interleaved system of tasks that map, unmap, sleep and wake up: its invariant over
  all reachable states, and the properties of the permanent kernel mappings.
\<close>

section \<open>The invariant of the system\<close>

definition sleeper :: "ksys \<Rightarrow> bool" where
  "sleeper y \<longleftrightarrow> (\<exists>p. (p, False) \<in> set (ks_queue y))"

definition all_busy :: "pk_state \<Rightarrow> bool" where
  "all_busy s \<longleftrightarrow> (\<forall>n \<in> set (pk_count s). 2 \<le> n)"

definition sys_ok :: "pk_config \<Rightarrow> ksys \<Rightarrow> bool" where
  "sys_ok c y \<longleftrightarrow>
     pk_ok c (ks_held y) (ks_pk y) \<and>
     (\<forall>p \<in> set (ks_runners y) \<union> fst ` set (ks_queue y). pc_highmem c p) \<and>
     (sleeper y \<longrightarrow> 0 < ks_wakes y \<or> all_busy (ks_pk y))"

lemma pk_boot_ok: "pk_ok c [] (pk_boot c)"
  by (auto simp: pk_ok_def pk_core_def pk_boot_def page_address_init_def slot_ok_def hash_ok_def
      table_inj_def tlb_ok_def)

lemma sys_boot: "sys_ok c (ksys_boot c)"
  by (simp add: sys_ok_def ksys_boot_def pk_boot_ok sleeper_def)

lemma mapped_answer:
  assumes "map_answer c held p s (Some (Mapped v s'))"
  shows "pk_ok c (p # held) s' \<and> held_stay s s' \<and>
         (\<exists>i < LAST_PKMAP c. v = PKMAP_ADDR c i \<and> pk_table s' ! i = Some p)"
  using assms by (auto simp: map_answer_def split: if_splits)

lemma sleeping_answer:
  assumes "map_answer c held p s (Some (Sleeping s'))"
  shows "pk_ok c held s' \<and> held_stay s s' \<and> all_busy s'"
  using assms by (auto simp: map_answer_def all_busy_def settles_stay split: if_splits)

lemma stay_busy: "held_stay s t \<Longrightarrow> all_busy s \<Longrightarrow> all_busy t"
  using held_stay_busy unfolding all_busy_def by blast

lemma drop_busy:
  assumes "pk_core c held s" "i < LAST_PKMAP c" "2 \<le> pk_count s ! i" "pk_count s ! i \<noteq> 2" "all_busy s"
  shows "all_busy (s\<lparr>pk_count := (pk_count s)[i := pk_count s ! i - 1]\<rparr>)"
  unfolding all_busy_def
proof
  fix n
  assume "n \<in> set (pk_count (s\<lparr>pk_count := (pk_count s)[i := pk_count s ! i - 1]\<rparr>))"
  then have "n = pk_count s ! i - 1 \<or> n \<in> set (pk_count s)"
    using set_update_subset_insert by fastforce
  then show "2 \<le> n" using assms(3-5) by (auto simp: all_busy_def)
qed

lemma kunmap_high_result:
  assumes "pk_config_ok c" "pk_ok c held s" "p \<in> set held" "kunmap_high c p w s = Some (nw, t)"
  obtains i where "i < LAST_PKMAP c" "2 \<le> pk_count s ! i" "nw \<longleftrightarrow> pk_count s ! i = 2 \<and> w"
    "t = s\<lparr>pk_count := (pk_count s)[i := pk_count s ! i - 1]\<rparr>" "pk_ok c (remove1 p held) t"
  using assms(1-3)
proof (rule kunmap_high_spec [where w = w])
  fix i
  assume i: "i < LAST_PKMAP c" "2 \<le> pk_count s ! i"
    "kunmap_high c p w s = Some (pk_count s ! i = 2 \<and> w, s\<lparr>pk_count := (pk_count s)[i := pk_count s ! i - 1]\<rparr>)"
    "pk_ok c (remove1 p held) (s\<lparr>pk_count := (pk_count s)[i := pk_count s ! i - 1]\<rparr>)"
  show thesis by (rule that [of i]) (use assms(4) i in auto)
qed

definition keeps_mapped :: "pk_state \<Rightarrow> pk_state \<Rightarrow> bool" where
  "keeps_mapped s t \<longleftrightarrow>
     (\<forall>i < length (pk_count s). 2 \<le> pk_count s ! i \<longrightarrow> pk_table t ! i = pk_table s ! i)"

lemma stay_keeps: "held_stay s t \<Longrightarrow> keeps_mapped s t"
  by (simp add: held_stay_def keeps_mapped_def)

text \<open>What a step does to the mappings, and that it keeps the invariant.\<close>

lemma sys_step:
  assumes "pk_config_ok c" "kstep c y z" "sys_ok c y"
  shows "sys_ok c z \<and> keeps_mapped (ks_pk y) (ks_pk z)"
proof -
  have ok: "pk_ok c (ks_held y) (ks_pk y)" using assms(3) by (simp add: sys_ok_def)
  show ?thesis using assms(2)
  proof cases
    case (map_now p v s)
    have a: "map_answer c (ks_held y) p (ks_pk y) (Some (Mapped v s))"
      using kmap_high_answer(1) [OF assms(1) ok map_now(3,2)] unfolding map_now(4) .
    then show ?thesis using assms(3) map_now(1) mapped_answer [OF a] stay_busy by (auto simp: sys_ok_def sleeper_def stay_keeps)
  next
    case (map_sleep p s)
    have a: "map_answer c (ks_held y) p (ks_pk y) (Some (Sleeping s))"
      using kmap_high_answer(1) [OF assms(1) ok map_sleep(3,2)] unfolding map_sleep(4) .
    then show ?thesis using assms(3) map_sleep(1,3) sleeping_answer [OF a] by (auto simp: sys_ok_def stay_keeps)
  next
    case (leave_queue p)
    have "fst ` set (remove1 (p, True) (ks_queue y)) \<subseteq> fst ` set (ks_queue y)"
      by (intro image_mono set_remove1_subset)
    moreover have "pc_highmem c p" using assms(3) leave_queue(2) by (force simp: sys_ok_def)
    moreover have "sleeper z \<Longrightarrow> sleeper y"
      using leave_queue(1) by (auto simp: sleeper_def dest: notin_set_remove1)
    ultimately show ?thesis using assms(3) leave_queue(1) by (auto simp: sys_ok_def keeps_mapped_def)
  next
    case (resume_now p v s)
    have p: "pc_highmem c p" using assms(3) resume_now(3) by (simp add: sys_ok_def)
    have a: "map_answer c (ks_held y) p (ks_pk y) (Some (Mapped v s))"
      using kmap_high_answer(2) [OF assms(1) ok p resume_now(2)] unfolding resume_now(4) .
    have "set (remove1 p (ks_runners y)) \<subseteq> set (ks_runners y)" by (rule set_remove1_subset)
    then show ?thesis using assms(3) resume_now(1) mapped_answer [OF a] stay_busy
      by (auto simp: sys_ok_def sleeper_def stay_keeps)
  next
    case (resume_sleep p s)
    have p: "pc_highmem c p" using assms(3) resume_sleep(3) by (simp add: sys_ok_def)
    have a: "map_answer c (ks_held y) p (ks_pk y) (Some (Sleeping s))"
      using kmap_high_answer(2) [OF assms(1) ok p resume_sleep(2)] unfolding resume_sleep(4) .
    have "set (remove1 p (ks_runners y)) \<subseteq> set (ks_runners y)" by (rule set_remove1_subset)
    then show ?thesis using assms(3) resume_sleep(1) p sleeping_answer [OF a] by (auto simp: sys_ok_def stay_keeps)
  next
    case (pin p v s)
    from kmap_high_get_spec [OF assms(1) ok pin(3,2)]
    have "pk_ok c (if v = 0 then ks_held y else p # ks_held y) s \<and> held_stay (ks_pk y) s"
      using pin(4) assms(3) by (auto simp: sys_ok_def held_stay_def)
    then show ?thesis using assms(3) pin(1) stay_busy by (auto simp: sys_ok_def sleeper_def stay_keeps)
  next
    case (unmap p nw s)
    have core: "pk_core c (ks_held y) (ks_pk y)" using ok by (simp add: pk_ok_def)
    obtain i where i: "i < LAST_PKMAP c" "2 \<le> pk_count (ks_pk y) ! i"
        "nw \<longleftrightarrow> pk_count (ks_pk y) ! i = 2 \<and> ks_queue y \<noteq> []"
        "s = (ks_pk y)\<lparr>pk_count := (pk_count (ks_pk y))[i := pk_count (ks_pk y) ! i - 1]\<rparr>"
        "pk_ok c (remove1 p (ks_held y)) s"
      using kunmap_high_result [OF assms(1) ok unmap(2,3)] .
    have "sleeper y \<Longrightarrow> \<not> nw \<Longrightarrow> all_busy (ks_pk y) \<Longrightarrow> all_busy s"
      using drop_busy [OF core i(1,2)] i(3,4) by (auto simp: sleeper_def)
    then show ?thesis using assms(3) unmap(1) i(4,5) by (auto simp: sys_ok_def sleeper_def keeps_mapped_def)
  next
    case wake
    have "\<not> sleeper z" using wake(1) by (auto simp: sleeper_def)
    moreover have "fst ` set (ks_queue z) = fst ` set (ks_queue y)" using wake(1) by force
    ultimately show ?thesis using assms(3) wake(1) by (simp add: sys_ok_def keeps_mapped_def)
  next
    case (flush s)
    have "pk_ok c (ks_held y) s" "settles (ks_pk y) s"
      using flush_spec [OF assms(1) ok] flush(2) by (auto simp: kmap_flush_unused_def)
    then show ?thesis using assms(3) flush(1) stay_busy [OF settles_stay]
      by (auto simp: sys_ok_def sleeper_def stay_keeps settles_stay)
  qed
qed

lemma sys_reachable: "kreach c y \<Longrightarrow> pk_config_ok c \<Longrightarrow> sys_ok c y"
  by (induction rule: kreach.induct) (auto simp: sys_boot dest: sys_step)

section \<open>Properties\<close>

text \<open>The slot of a held page, and how it is seen through the interface.\<close>

lemma held_view:
  assumes "pk_config_ok c" "pk_ok c held s" "p \<in> set held"
  obtains i where "i < LAST_PKMAP c" "pk_table s ! i = Some p" "2 \<le> pk_count s ! i"
    "page_address c p s = PKMAP_ADDR c i" "kmap_to_page c (PKMAP_ADDR c i) s = Some p"
    "set (pk_tlb s ! i) \<subseteq> {p}" "pk_count s ! i = 1 + int (count_list held p)"
  using assms
proof (rule kunmap_high_spec [where w = False])
  fix i
  assume i: "i < LAST_PKMAP c" "pk_table s ! i = Some p" "2 \<le> pk_count s ! i"
  have core: "pk_core c held s" and tlb: "tlb_ok s" using assms(2) by (simp_all add: pk_ok_def)
  have len: "length (pk_table s) = LAST_PKMAP c" using core by (simp add: pk_core_def)
  have "kmap_to_page c (PKMAP_ADDR c i) s = Some p"
    using PKMAP_ADDR_window [OF assms(1) i(1)] i assms(1) len by (simp add: kmap_to_page_def)
  moreover have "set (pk_tlb s ! i) \<subseteq> set_option (pk_table s ! i)" using tlb i(1) len by (simp add: tlb_ok_def)
  then have "set (pk_tlb s ! i) \<subseteq> {p}" using i(2) by simp
  ultimately show thesis
    using that [OF i] page_address_mapped [OF core assms(1) i(1,2)] pk_count_held [OF core i(1,2)] by blast
qed

text \<open>The configuration and the system the witnesses use: a window of two slots.\<close>

definition ex_config :: pk_config where
  "ex_config = \<lparr>pc_order = 1, pc_base = 0xFF800000, pc_highmem = (\<lambda>p. 100 \<le> p),
     pc_lowmem_address = (\<lambda>p. 0xC0000000 + word_of_nat p * 4096), pc_virt_to_page = (\<lambda>v. 0), pc_hash = (\<lambda>p. p mod 128)\<rparr>"

lemma ex_config_ok: "pk_config_ok ex_config"
  by (simp add: pk_config_ok_def ex_config_def)

definition ex_map :: "nat \<Rightarrow> ksys \<Rightarrow> ksys" where
  "ex_map p y =
     (case kmap_high ex_config p (ks_pk y) of
        Some (Mapped v t) \<Rightarrow> y\<lparr>ks_pk := t, ks_held := p # ks_held y\<rparr>
      | Some (Sleeping t) \<Rightarrow> y\<lparr>ks_pk := t, ks_queue := (p, False) # ks_queue y\<rparr>
      | None \<Rightarrow> y)"

lemma ex_map_step:
  assumes "kreach ex_config y" "100 \<le> p" "length (ks_held y) < 10"
  shows "kstep ex_config y (ex_map p y) \<and> kreach ex_config (ex_map p y)"
proof -
  have p: "pc_highmem ex_config p" using assms(2) by (simp add: ex_config_def)
  have few: "few_held y" using assms(3) by simp
  have "pk_ok ex_config (ks_held y) (ks_pk y)"
    using sys_reachable [OF assms(1) ex_config_ok] by (simp add: sys_ok_def)
  from kmap_high_answer(1) [OF ex_config_ok this p few]
  have "kstep ex_config y (ex_map p y)"
    using kstep.map_now [OF few p] kstep.map_sleep [OF few p]
    by (auto simp: map_answer_def ex_map_def split: if_splits)
  then show ?thesis using assms(1) kreach.step by blast
qed

definition ex_one :: ksys where
  "ex_one = ex_map 100 (ksys_boot ex_config)"

definition ex_full :: ksys where
  "ex_full = ex_map 101 ex_one"

definition ex_sleep :: ksys where
  "ex_sleep = ex_map 102 ex_full"

lemma ex_held: "ks_held ex_one = [100] \<and> ks_held ex_full = [101, 100] \<and> ks_held ex_sleep = [101, 100] \<and>
    ks_queue ex_sleep = [(102, False)] \<and> ks_wakes ex_sleep = 0"
  by code_simp

lemma ex_reach: "kreach ex_config ex_one" "kreach ex_config ex_full" "kreach ex_config ex_sleep"
  "kstep ex_config ex_one ex_full"
proof -
  show one: "kreach ex_config ex_one"
    unfolding ex_one_def using ex_map_step [OF kreach.boot] by (simp add: ksys_boot_def)
  show full: "kreach ex_config ex_full" "kstep ex_config ex_one ex_full"
    unfolding ex_full_def using ex_map_step [OF one, of 101] ex_held by simp_all
  show "kreach ex_config ex_sleep"
    unfolding ex_sleep_def using ex_map_step [OF full(1), of 102] ex_held by simp
qed

text \<open>C9: In every state the tasks can reach, none of the checks of the mapping code fires: mapping a high page (at once or after a sleep), pinning it, flushing, and unmapping a page that is held all return.\<close>

theorem pkmap_no_bug:
  assumes "pk_config_ok c" "kreach c y"
  shows "kmap_flush_unused c (ks_pk y) \<noteq> None \<and>
    (\<forall>p w. p \<in> set (ks_held y) \<longrightarrow> kunmap_high c p w (ks_pk y) \<noteq> None) \<and>
    (\<forall>p. pc_highmem c p \<longrightarrow> length (ks_held y) + 2 < 2 ^ 31 \<longrightarrow>
       kmap_high c p (ks_pk y) \<noteq> None \<and> kmap_high_resume c p (ks_pk y) \<noteq> None \<and>
       kmap_high_get c p (ks_pk y) \<noteq> None)"
proof (intro conjI allI impI)
  have ok: "pk_ok c (ks_held y) (ks_pk y)" using sys_reachable [OF assms(2,1)] by (simp add: sys_ok_def)
  show "kmap_flush_unused c (ks_pk y) \<noteq> None"
    using flush_spec [OF assms(1) ok] by (auto simp: kmap_flush_unused_def)
  show "kunmap_high c p w (ks_pk y) \<noteq> None" if "p \<in> set (ks_held y)" for p w
    by (rule kunmap_high_spec [OF assms(1) ok that, of w]) simp
  fix p
  assume p: "pc_highmem c p" "length (ks_held y) + 2 < 2 ^ 31"
  show "kmap_high c p (ks_pk y) \<noteq> None" "kmap_high_resume c p (ks_pk y) \<noteq> None"
    using kmap_high_answer [OF assms(1) ok p] by (auto simp: map_answer_def split: if_splits)
  show "kmap_high_get c p (ks_pk y) \<noteq> None"
    using kmap_high_get_spec [OF assms(1) ok p] by auto
qed

theorem pkmap_no_bug_witness:
  "kunmap_high ex_config 100 True (ks_pk ex_full) \<noteq> None"
  using pkmap_no_bug [OF ex_config_ok ex_reach(2)] ex_held by simp

text \<open>C25: While a task holds a mapping of a page, the page has an address, the address leads back to the page through the page table, no processor can hold a translation of it to any other page, and the slot's counter is one more than the number of users.\<close>

theorem pkmap_translation:
  assumes "pk_config_ok c" "kreach c y" "p \<in> set (ks_held y)"
  shows "page_address c p (ks_pk y) \<noteq> 0 \<and>
    kmap_to_page c (page_address c p (ks_pk y)) (ks_pk y) = Some p \<and>
    set (pk_tlb (ks_pk y) ! PKMAP_NR c (page_address c p (ks_pk y))) \<subseteq> {p} \<and>
    pk_count (ks_pk y) ! PKMAP_NR c (page_address c p (ks_pk y)) = 1 + int (count_list (ks_held y) p)"
proof -
  have ok: "pk_ok c (ks_held y) (ks_pk y)" using sys_reachable [OF assms(2,1)] by (simp add: sys_ok_def)
  show ?thesis by (rule held_view [OF assms(1) ok assms(3)]) (use assms(1) in simp)
qed

theorem pkmap_translation_witness:
  "kmap_to_page ex_config (page_address ex_config 100 (ks_pk ex_full)) (ks_pk ex_full) = Some 100"
  using pkmap_translation [OF ex_config_ok ex_reach(2), of 100] ex_held by simp

text \<open>C26: A mapping does not move: in any step of the system, a page that is held before and after keeps its address.\<close>

theorem pkmap_stable:
  assumes "pk_config_ok c" "kreach c y" "kstep c y z" "p \<in> set (ks_held y)" "p \<in> set (ks_held z)"
  shows "page_address c p (ks_pk z) = page_address c p (ks_pk y)"
proof -
  have y: "sys_ok c y" using sys_reachable [OF assms(2,1)] .
  have ok: "pk_ok c (ks_held y) (ks_pk y)" using y by (simp add: sys_ok_def)
  have z: "pk_core c (ks_held z) (ks_pk z)" "keeps_mapped (ks_pk y) (ks_pk z)"
    using sys_step [OF assms(1,3) y] by (simp_all add: sys_ok_def pk_ok_def)
  show ?thesis
  proof (rule held_view [OF assms(1) ok assms(4)])
    fix i
    assume i: "i < LAST_PKMAP c" "pk_table (ks_pk y) ! i = Some p" "2 \<le> pk_count (ks_pk y) ! i"
      "page_address c p (ks_pk y) = PKMAP_ADDR c i"
    have "pk_table (ks_pk z) ! i = Some p"
      using z(2) i ok by (simp add: keeps_mapped_def pk_ok_def pk_core_def)
    then show ?thesis using page_address_mapped [OF z(1) assms(1) i(1)] i(4) by simp
  qed
qed

theorem pkmap_stable_witness:
  "page_address ex_config 100 (ks_pk ex_full) = page_address ex_config 100 (ks_pk ex_one)"
  using pkmap_stable [OF ex_config_ok ex_reach(1,4), of 100] ex_held by simp

text \<open>C10: No wake-up is lost: while a task sleeps in the queue and has not been woken, a wake-up is due or every slot has a user; and then giving up the last use of any mapping makes a wake-up due.\<close>

theorem pkmap_no_lost_wakeup:
  assumes "pk_config_ok c" "kreach c y" "(q, False) \<in> set (ks_queue y)"
  shows "(0 < ks_wakes y \<or> (\<forall>n \<in> set (pk_count (ks_pk y)). 2 \<le> n)) \<and>
    (\<forall>p. count_list (ks_held y) p = 1 \<longrightarrow>
       (\<exists>s. kunmap_high c p (ks_queue y \<noteq> []) (ks_pk y) = Some (True, s)))"
proof (intro conjI allI impI)
  have y: "sys_ok c y" using sys_reachable [OF assms(2,1)] .
  show "0 < ks_wakes y \<or> (\<forall>n \<in> set (pk_count (ks_pk y)). 2 \<le> n)"
    using y assms(3) by (auto simp: sys_ok_def sleeper_def all_busy_def)
  fix p
  assume p: "count_list (ks_held y) p = 1"
  have ok: "pk_ok c (ks_held y) (ks_pk y)" using y by (simp add: sys_ok_def)
  have mem: "p \<in> set (ks_held y)" using p by (metis count_list_0_iff zero_neq_one)
  show "\<exists>s. kunmap_high c p (ks_queue y \<noteq> []) (ks_pk y) = Some (True, s)"
  proof (rule kunmap_high_spec [OF assms(1) ok mem, of "ks_queue y \<noteq> []"])
    fix i
    assume i: "i < LAST_PKMAP c" "pk_table (ks_pk y) ! i = Some p"
      "kunmap_high c p (ks_queue y \<noteq> []) (ks_pk y) = Some (pk_count (ks_pk y) ! i = 2 \<and> ks_queue y \<noteq> [],
         (ks_pk y)\<lparr>pk_count := (pk_count (ks_pk y))[i := pk_count (ks_pk y) ! i - 1]\<rparr>)"
    have "pk_count (ks_pk y) ! i = 2" using pk_count_held [of c "ks_held y" "ks_pk y" i p] ok i p by (simp add: pk_ok_def)
    then show ?thesis using i(3) assms(3) by auto
  qed
qed

theorem pkmap_no_lost_wakeup_witness:
  "\<exists>s. kunmap_high ex_config 100 True (ks_pk ex_sleep) = Some (True, s)"
  using pkmap_no_lost_wakeup [OF ex_config_ok ex_reach(3), of 102] ex_held by simp

text \<open>C27: A mapping request ends: it is put to sleep exactly when the page is not mapped and every slot has a user, and otherwise returns the address of a slot that now maps the page.\<close>

theorem kmap_sleeps_iff:
  assumes "pk_config_ok c" "kreach c y" "pc_highmem c p" "length (ks_held y) + 2 < 2 ^ 31"
  shows "if Some p \<notin> set (pk_table (ks_pk y)) \<and> (\<forall>n \<in> set (pk_count (ks_pk y)). 2 \<le> n)
    then \<exists>s. kmap c p (ks_pk y) = Some (Sleeping s)
    else \<exists>v s. kmap c p (ks_pk y) = Some (Mapped v s) \<and> kmap_to_page c v s = Some p \<and> page_address c p s = v"
proof -
  have ok: "pk_ok c (ks_held y) (ks_pk y)" using sys_reachable [OF assms(2,1)] by (simp add: sys_ok_def)
  have run: "kmap c p (ks_pk y) = kmap_high c p (ks_pk y)" using assms(3) by (simp add: kmap_def)
  have view: "kmap_to_page c (PKMAP_ADDR c i) s = Some p \<and> page_address c p s = PKMAP_ADDR c i"
    if s: "i < LAST_PKMAP c" "pk_table s ! i = Some p" "pk_ok c (p # ks_held y) s" for i s
  proof -
    have core: "pk_core c (p # ks_held y) s" using s(3) by (simp add: pk_ok_def)
    then show ?thesis
      using page_address_mapped [OF core assms(1) s(1,2)] PKMAP_ADDR_window [OF assms(1) s(1)] s assms(1)
      by (simp add: kmap_to_page_def pk_core_def)
  qed
  show ?thesis
    using kmap_high_answer(1) [OF assms(1) ok assms(3,4)] view unfolding run map_answer_def
    by (auto split: if_splits)
qed

theorem kmap_sleeps_iff_witness:
  "\<exists>s. kmap ex_config 102 (ks_pk ex_full) = Some (Sleeping s)"
proof -
  have p: "pc_highmem ex_config 102" by (simp add: ex_config_def)
  have busy: "Some 102 \<notin> set (pk_table (ks_pk ex_full)) \<and> (\<forall>n \<in> set (pk_count (ks_pk ex_full)). 2 \<le> n)"
    by code_simp
  show ?thesis using kmap_sleeps_iff [OF ex_config_ok ex_reach(2) p] busy ex_held by simp
qed

end
