(* ===== verification/KmapAtomic.thy ===== *)
theory KmapAtomic
  imports Highmem
begin

text \<open>
  Temporary kernel mappings (\<^verbatim>\<open>src/ulk_tkmap\<close>): \<^verbatim>\<open>kmap_atomic\<close> and \<^verbatim>\<open>__kunmap_atomic\<close> of
  \<^verbatim>\<open>highmem_32.c\<close>, the per-processor slot stack and the page helpers of \<^verbatim>\<open>highmem.h\<close>, and the
  fixmap address arithmetic of \<^verbatim>\<open>fixmap.h\<close>.

  Every processor owns \<^verbatim>\<open>KM_TYPE_NR\<close> consecutive fixmap slots and uses them as a stack.
  \<^verbatim>\<open>ka_pte\<close> holds the entries \<^verbatim>\<open>kmap_pte - idx\<close>, by \<^verbatim>\<open>idx\<close>; \<^verbatim>\<open>ka_idx\<close> and \<^verbatim>\<open>ka_pf\<close> are the per-processor
  \<^verbatim>\<open>__kmap_atomic_idx\<close> and page fault disable depth, \<^verbatim>\<open>ka_mem\<close> the contents of the pages.
  Memory is accessed through addresses: an access goes to the page the address
  translates to.
\<close>

section \<open>Configuration and state\<close>

record ka_config =
  kc_fence :: bool
  kc_debug :: bool
  kc_cpus :: nat
  kc_fix_begin :: nat
  kc_fix_perm :: nat
  kc_top :: vaddr
  kc_page_offset :: vaddr
  kc_high_memory :: vaddr
  kc_highmem :: "nat \<Rightarrow> bool"
  kc_lowmem_address :: "nat \<Rightarrow> vaddr"
  kc_virt_to_page :: "vaddr \<Rightarrow> nat"

record ka_state =
  ka_idx :: "int list"
  ka_pf :: "int list"
  ka_pte :: "nat option list"
  ka_mem :: "byte list list"

definition KM_TYPE_NR :: "ka_config \<Rightarrow> nat" where
  "KM_TYPE_NR c = (if kc_fence c then 41 else 20)"

section \<open>Fixmap addresses\<close>

definition PAGE_MASK :: vaddr where
  "PAGE_MASK = NOT 0xFFF"

definition FIX_KMAP_END :: "ka_config \<Rightarrow> nat" where
  "FIX_KMAP_END c = kc_fix_begin c + KM_TYPE_NR c * kc_cpus c - 1"

definition fix_to_virt :: "ka_config \<Rightarrow> nat \<Rightarrow> vaddr" where
  "fix_to_virt c x = kc_top c - push_bit 12 (word_of_nat x)"

definition FIXADDR_START :: "ka_config \<Rightarrow> vaddr" where
  "FIXADDR_START c = kc_top c - push_bit 12 (word_of_nat (kc_fix_perm c))"

definition virt_to_fix :: "ka_config \<Rightarrow> vaddr \<Rightarrow> nat option" where
  "virt_to_fix c v =
     (if kc_top c \<le> v \<or> v < FIXADDR_START c then None
      else Some (unat (drop_bit 12 (kc_top c - (v AND PAGE_MASK)))))"

section \<open>The slot stack\<close>

definition kmap_atomic_idx_push :: "ka_config \<Rightarrow> nat \<Rightarrow> ka_state \<Rightarrow> (int \<times> ka_state) option" where
  "kmap_atomic_idx_push c cpu s =
     do { n \<leftarrow> arr_get (ka_idx s) cpu;
          ns \<leftarrow> arr_set (ka_idx s) cpu (n + 1);
          if kc_debug c \<and> n > int (KM_TYPE_NR c) then None
          else Some (n, s\<lparr>ka_idx := ns\<rparr>) }"

definition kmap_atomic_idx :: "nat \<Rightarrow> ka_state \<Rightarrow> int option" where
  "kmap_atomic_idx cpu s = do { n \<leftarrow> arr_get (ka_idx s) cpu; Some (n - 1) }"

definition kmap_atomic_idx_pop :: "ka_config \<Rightarrow> nat \<Rightarrow> ka_state \<Rightarrow> ka_state option" where
  "kmap_atomic_idx_pop c cpu s =
     do { n \<leftarrow> arr_get (ka_idx s) cpu;
          ns \<leftarrow> arr_set (ka_idx s) cpu (n - 1);
          if kc_debug c \<and> n - 1 < 0 then None else Some (s\<lparr>ka_idx := ns\<rparr>) }"

definition add_pf :: "nat \<Rightarrow> int \<Rightarrow> ka_state \<Rightarrow> ka_state option" where
  "add_pf cpu d s =
     do { n \<leftarrow> arr_get (ka_pf s) cpu;
          ns \<leftarrow> arr_set (ka_pf s) cpu (n + d);
          Some (s\<lparr>ka_pf := ns\<rparr>) }"

section \<open>Mapping and unmapping\<close>

text \<open>The entry \<^verbatim>\<open>kmap_pte - idx\<close> for an \<^verbatim>\<open>int\<close> index.\<close>

definition kmap_pte_index :: "int \<Rightarrow> nat option" where
  "kmap_pte_index idx = (if idx < 0 then None else Some (nat idx))"

definition kmap_atomic_prot :: "ka_config \<Rightarrow> nat \<Rightarrow> nat \<Rightarrow> ka_state \<Rightarrow> (vaddr \<times> ka_state) option" where
  "kmap_atomic_prot c cpu page s =
     do { s1 \<leftarrow> add_pf cpu 1 s;
          if \<not> kc_highmem c page then Some (kc_lowmem_address c page, s1)
          else do {
            (type, s2) \<leftarrow> kmap_atomic_idx_push c cpu s1;
            idx \<leftarrow> kmap_pte_index (type + int (KM_TYPE_NR c * cpu));
            let v = fix_to_virt c (kc_fix_begin c + idx);
            e \<leftarrow> arr_get (ka_pte s2) idx;
            if e \<noteq> None then None
            else do {
              ptes \<leftarrow> arr_set (ka_pte s2) idx (Some page);
              Some (v, s2\<lparr>ka_pte := ptes\<rparr>) } } }"

definition kmap_atomic :: "ka_config \<Rightarrow> nat \<Rightarrow> nat \<Rightarrow> ka_state \<Rightarrow> (vaddr \<times> ka_state) option" where
  "kmap_atomic c cpu page s = kmap_atomic_prot c cpu page s"

definition kunmap_atomic :: "ka_config \<Rightarrow> nat \<Rightarrow> vaddr \<Rightarrow> ka_state \<Rightarrow> ka_state option" where
  "kunmap_atomic c cpu kvaddr s =
     (let v = kvaddr AND PAGE_MASK in
      do { s1 \<leftarrow>
             (if fix_to_virt c (FIX_KMAP_END c) \<le> v \<and> v \<le> fix_to_virt c (kc_fix_begin c) then
                do { type \<leftarrow> kmap_atomic_idx cpu s;
                     idx \<leftarrow> kmap_pte_index (type + int (KM_TYPE_NR c * cpu));
                     ptes \<leftarrow> arr_set (ka_pte s) idx None;
                     kmap_atomic_idx_pop c cpu (s\<lparr>ka_pte := ptes\<rparr>) }
              else if kc_debug c \<and> (v < kc_page_offset c \<or> kc_high_memory c \<le> v) then None
              else Some s);
           add_pf cpu (- 1) s1 })"

definition kmap_atomic_to_page :: "ka_config \<Rightarrow> vaddr \<Rightarrow> ka_state \<Rightarrow> nat option" where
  "kmap_atomic_to_page c ptr s =
     (if ptr < FIXADDR_START c then Some (kc_virt_to_page c ptr)
      else do { idx \<leftarrow> virt_to_fix c ptr;
                i \<leftarrow> kmap_pte_index (int idx - int (kc_fix_begin c));
                e \<leftarrow> arr_get (ka_pte s) i;
                e })"

section \<open>Page helpers\<close>

text \<open>Reads and writes of the page behind a page-aligned address.\<close>

definition read_page :: "ka_config \<Rightarrow> vaddr \<Rightarrow> ka_state \<Rightarrow> byte list option" where
  "read_page c v s = do { p \<leftarrow> kmap_atomic_to_page c v s; arr_get (ka_mem s) p }"

definition write_page :: "ka_config \<Rightarrow> vaddr \<Rightarrow> byte list \<Rightarrow> ka_state \<Rightarrow> ka_state option" where
  "write_page c v bs s =
     do { p \<leftarrow> kmap_atomic_to_page c v s;
          mem \<leftarrow> arr_set (ka_mem s) p bs;
          Some (s\<lparr>ka_mem := mem\<rparr>) }"

definition memset_page :: "ka_config \<Rightarrow> vaddr \<Rightarrow> nat \<Rightarrow> nat \<Rightarrow> ka_state \<Rightarrow> ka_state option" where
  "memset_page c v start n s =
     do { bs \<leftarrow> read_page c v s;
          if start + n \<le> length bs
          then write_page c v (take start bs @ replicate n 0 @ drop (start + n) bs) s
          else None }"

definition clear_highpage :: "ka_config \<Rightarrow> nat \<Rightarrow> nat \<Rightarrow> ka_state \<Rightarrow> ka_state option" where
  "clear_highpage c cpu page s =
     do { (kaddr, s1) \<leftarrow> kmap_atomic c cpu page s;
          s2 \<leftarrow> write_page c kaddr (replicate 4096 0) s1;
          kunmap_atomic c cpu kaddr s2 }"

definition zero_user_segments ::
  "ka_config \<Rightarrow> nat \<Rightarrow> nat \<Rightarrow> nat \<Rightarrow> nat \<Rightarrow> nat \<Rightarrow> nat \<Rightarrow> ka_state \<Rightarrow> ka_state option" where
  "zero_user_segments c cpu page start1 end1 start2 end2 s =
     do { (kaddr, s1) \<leftarrow> kmap_atomic c cpu page s;
          if end1 > 4096 \<or> end2 > 4096 then None
          else do {
            s2 \<leftarrow> (if end1 > start1 then memset_page c kaddr start1 (end1 - start1) s1 else Some s1);
            s3 \<leftarrow> (if end2 > start2 then memset_page c kaddr start2 (end2 - start2) s2 else Some s2);
            kunmap_atomic c cpu kaddr s3 } }"

definition zero_user_segment :: "ka_config \<Rightarrow> nat \<Rightarrow> nat \<Rightarrow> nat \<Rightarrow> nat \<Rightarrow> ka_state \<Rightarrow> ka_state option" where
  "zero_user_segment c cpu page start end' s = zero_user_segments c cpu page start end' 0 0 s"

definition zero_user :: "ka_config \<Rightarrow> nat \<Rightarrow> nat \<Rightarrow> nat \<Rightarrow> nat \<Rightarrow> ka_state \<Rightarrow> ka_state option" where
  "zero_user c cpu page start sz s = zero_user_segments c cpu page start (u32 (start + sz)) 0 0 s"

definition copy_highpage :: "ka_config \<Rightarrow> nat \<Rightarrow> nat \<Rightarrow> nat \<Rightarrow> ka_state \<Rightarrow> ka_state option" where
  "copy_highpage c cpu to from s =
     do { (vfrom, s1) \<leftarrow> kmap_atomic c cpu from s;
          (vto, s2) \<leftarrow> kmap_atomic c cpu to s1;
          bs \<leftarrow> read_page c vfrom s2;
          s3 \<leftarrow> write_page c vto bs s2;
          s4 \<leftarrow> kunmap_atomic c cpu vto s3;
          kunmap_atomic c cpu vfrom s4 }"

end
