(* ===== verification/KmapAtomic_Props.thy ===== *)
theory KmapAtomic_Props
  imports KmapAtomic
begin

text \<open>
  The temporary mappings of each processor form a stack in its own slots; a mapping is undone
  by its unmapping, and the page helpers built on them touch only the pages they are given.
\<close>

section \<open>Fixmap addresses\<close>

definition ka_config_ok :: "ka_config \<Rightarrow> bool" where
  "ka_config_ok c \<longleftrightarrow>
     0 < kc_fix_begin c \<and> kc_fix_begin c + KM_TYPE_NR c * kc_cpus c \<le> kc_fix_perm c \<and>
     kc_fix_perm c * 4096 \<le> unat (kc_top c) \<and> unat (kc_top c) mod 4096 = 0 \<and>
     (\<forall>p. \<not> kc_highmem c p \<longrightarrow>
        kc_lowmem_address c p < FIXADDR_START c \<and> unat (kc_lowmem_address c p) mod 4096 = 0 \<and>
        kc_virt_to_page c (kc_lowmem_address c p) = p \<and>
        kc_page_offset c \<le> kc_lowmem_address c p \<and> kc_lowmem_address c p < kc_high_memory c)"

lemma aligned_mask:
  assumes "unat (v :: vaddr) mod 4096 = 0"
  shows "v AND PAGE_MASK = v"
proof -
  have "take_bit 12 (unat v) = 0" using assms by (simp add: take_bit_eq_mod)
  then have "take_bit 12 v = 0" by (simp add: unsigned_take_bit_eq flip: unat_eq_0)
  then have low: "\<not> (n < 12 \<and> bit v n)" for n by (metis bit_0_eq bit_take_bit_iff bot_fun_def bot_bool_def)
  have pm: "PAGE_MASK = NOT (mask 12)" by (simp add: PAGE_MASK_def mask_eq_exp_minus_1)
  show ?thesis
    unfolding pm using low by (auto intro!: bit_word_eqI simp: bit_and_iff bit_not_iff bit_mask_iff)
qed

lemma unat_fix:
  assumes "x \<le> kc_fix_perm c" "ka_config_ok c"
  shows "unat (kc_top c - push_bit 12 (word_of_nat x)) = unat (kc_top c) - x * 4096"
proof -
  have le: "x * 4096 \<le> unat (kc_top c)" using assms by (auto simp: ka_config_ok_def)
  have "unat (kc_top c) < 2 ^ 32" using unsigned_less [of "kc_top c"] by simp
  then have "x * 4096 < 2 ^ 32" using le by linarith
  moreover have "push_bit 12 (word_of_nat x) = (word_of_nat (x * 4096) :: vaddr)"
    by (simp add: push_bit_eq_mult)
  ultimately have "unat (push_bit 12 (word_of_nat x) :: vaddr) = x * 4096"
    by (simp add: unat_of_nat del: of_nat_mult)
  then show ?thesis using le by (simp add: unat_sub word_le_nat_alt)
qed

lemma fix_props:
  assumes "ka_config_ok c" "kc_fix_begin c \<le> x" "x < kc_fix_begin c + KM_TYPE_NR c * kc_cpus c"
  shows "fix_to_virt c x AND PAGE_MASK = fix_to_virt c x"
    "fix_to_virt c (FIX_KMAP_END c) \<le> fix_to_virt c x" "fix_to_virt c x \<le> fix_to_virt c (kc_fix_begin c)"
    "\<not> fix_to_virt c x < FIXADDR_START c" "virt_to_fix c (fix_to_virt c x) = Some x"
proof -
  have perm: "x < kc_fix_perm c" "kc_fix_begin c \<le> kc_fix_perm c" "FIX_KMAP_END c < kc_fix_perm c" "x \<le> FIX_KMAP_END c" "0 < x"
    using assms by (auto simp: ka_config_ok_def FIX_KMAP_END_def)
  have top: "kc_fix_perm c * 4096 \<le> unat (kc_top c)" "unat (kc_top c) mod 4096 = 0"
    using assms(1) by (auto simp: ka_config_ok_def)
  have u: "unat (fix_to_virt c y) = unat (kc_top c) - y * 4096" if "y \<le> kc_fix_perm c" for y
    using unat_fix [OF that assms(1)] by (simp add: fix_to_virt_def)
  have s: "unat (FIXADDR_START c) = unat (kc_top c) - kc_fix_perm c * 4096"
    using unat_fix [OF _ assms(1)] by (simp add: FIXADDR_START_def)
  obtain k where k: "unat (kc_top c) = k * 4096" using top(2) by (metis dvd_div_mult_self mod_0_imp_dvd)
  have "unat (fix_to_virt c x) = (k - x) * 4096" using u [of x] perm k by (simp add: diff_mult_distrib)
  then show al: "fix_to_virt c x AND PAGE_MASK = fix_to_virt c x" by (intro aligned_mask) simp
  show "fix_to_virt c (FIX_KMAP_END c) \<le> fix_to_virt c x" "fix_to_virt c x \<le> fix_to_virt c (kc_fix_begin c)"
    using u perm assms(2) by (simp_all add: word_le_nat_alt)
  show ns: "\<not> fix_to_virt c x < FIXADDR_START c" using u perm s by (simp add: word_less_nat_alt)
  have "unat (kc_top c - fix_to_virt c x) = x * 4096"
    using u [of x] perm top(1) by (subst unat_sub) (auto simp: word_le_nat_alt)
  then have "unat (drop_bit 12 (kc_top c - fix_to_virt c x)) = x" by (simp add: drop_bit_eq_div unat_div)
  moreover have "\<not> kc_top c \<le> fix_to_virt c x" using u [of x] perm top(1) by (auto simp: word_le_nat_alt)
  ultimately show "virt_to_fix c (fix_to_virt c x) = Some x" using ns by (simp add: virt_to_fix_def al)
qed

section \<open>The invariant\<close>

text \<open>\<open>st cpu\<close> lists the pages the processor has mapped, the first mapped first.\<close>

definition ka_ok :: "ka_config \<Rightarrow> (nat \<Rightarrow> nat list) \<Rightarrow> ka_state \<Rightarrow> bool" where
  "ka_ok c st s \<longleftrightarrow>
     length (ka_idx s) = kc_cpus c \<and> length (ka_pf s) = kc_cpus c \<and>
     length (ka_pte s) = KM_TYPE_NR c * kc_cpus c \<and>
     (\<forall>cpu < kc_cpus c.
        length (st cpu) \<le> KM_TYPE_NR c \<and> ka_idx s ! cpu = int (length (st cpu)) \<and>
        (\<forall>k < KM_TYPE_NR c. ka_pte s ! (k + KM_TYPE_NR c * cpu) =
           (if k < length (st cpu) then Some (st cpu ! k) else None)))"

lemma slot_bound: "cpu < n \<Longrightarrow> k < m \<Longrightarrow> k + m * cpu < m * (n :: nat)"
proof -
  assume a: "cpu < n" "k < m"
  have "k + m * cpu < m * Suc cpu" using a(2) by simp
  also have "\<dots> \<le> m * n" using a(1) by (intro mult_le_mono2) simp
  finally show ?thesis .
qed

lemma slot_inj: "k < m \<Longrightarrow> j < m \<Longrightarrow> k + m * a = j + m * (b :: nat) \<Longrightarrow> k = j \<and> a = b"
  by (metis add.commute add_left_cancel div_mult_self4 div_less mod_less mod_mult_self2 mult_0_right add_0 gr_implies_not0)

definition ka_push :: "ka_config \<Rightarrow> nat \<Rightarrow> nat \<Rightarrow> nat \<Rightarrow> ka_state \<Rightarrow> ka_state" where
  "ka_push c cpu n p s =
     s\<lparr>ka_pf := (ka_pf s)[cpu := ka_pf s ! cpu + 1], ka_idx := (ka_idx s)[cpu := ka_idx s ! cpu + 1],
       ka_pte := (ka_pte s)[n + KM_TYPE_NR c * cpu := Some p]\<rparr>"

lemma pte_index [simp]: "kmap_pte_index (int n + int m * int k) = Some (n + m * k)"
proof -
  have "int n + int m * int k = int (n + m * k)" by simp
  then show ?thesis by (metis kmap_pte_index_def nat_int of_nat_less_0_iff)
qed

lemma kmap_atomic_run:
  assumes "ka_config_ok c" "ka_ok c st s" "cpu < kc_cpus c" "kc_highmem c p" "length (st cpu) < KM_TYPE_NR c"
  shows "kmap_atomic c cpu p s =
    Some (fix_to_virt c (kc_fix_begin c + (length (st cpu) + KM_TYPE_NR c * cpu)), ka_push c cpu (length (st cpu)) p s)"
proof -
  have b: "length (st cpu) + KM_TYPE_NR c * cpu < KM_TYPE_NR c * kc_cpus c"
    using slot_bound [OF assms(3,5)] .
  show ?thesis
    using assms(2-5) b by (simp add: kmap_atomic_def kmap_atomic_prot_def add_pf_def kmap_atomic_idx_push_def
        pte_index ka_ok_def ka_push_def)
qed

lemma ka_push_ok:
  assumes "ka_ok c st s" "cpu < kc_cpus c" "length (st cpu) < KM_TYPE_NR c"
  shows "ka_ok c (st(cpu := st cpu @ [p])) (ka_push c cpu (length (st cpu)) p s)"
  unfolding ka_ok_def
proof (intro conjI allI impI)
  let ?s = "ka_push c cpu (length (st cpu)) p s"
  show "length (ka_idx ?s) = kc_cpus c" "length (ka_pf ?s) = kc_cpus c"
    "length (ka_pte ?s) = KM_TYPE_NR c * kc_cpus c"
    using assms(1) by (simp_all add: ka_ok_def ka_push_def)
  fix q
  assume q: "q < kc_cpus c"
  show "length ((st(cpu := st cpu @ [p])) q) \<le> KM_TYPE_NR c" "ka_idx ?s ! q = int (length ((st(cpu := st cpu @ [p])) q))"
    using assms q by (simp_all add: ka_ok_def ka_push_def nth_list_update)
  fix k
  assume k: "k < KM_TYPE_NR c"
  have b: "k + KM_TYPE_NR c * q < length (ka_pte s)" using slot_bound [OF q k] assms(1) by (simp add: ka_ok_def)
  have old: "ka_pte s ! (k + KM_TYPE_NR c * q) = (if k < length (st q) then Some (st q ! k) else None)"
    using assms(1) q k by (simp add: ka_ok_def)
  show "ka_pte ?s ! (k + KM_TYPE_NR c * q) =
      (if k < length ((st(cpu := st cpu @ [p])) q) then Some ((st(cpu := st cpu @ [p])) q ! k) else None)"
  proof (cases "k + KM_TYPE_NR c * q = length (st cpu) + KM_TYPE_NR c * cpu")
    case True
    then have "k = length (st cpu) \<and> q = cpu" using slot_inj [OF k assms(3)] by blast
    then show ?thesis using b by (simp add: ka_push_def)
  next
    case False
    then show ?thesis using old by (auto simp: ka_push_def nth_append)
  qed
qed


definition ka_pop :: "ka_config \<Rightarrow> nat \<Rightarrow> nat \<Rightarrow> ka_state \<Rightarrow> ka_state" where
  "ka_pop c cpu n s =
     s\<lparr>ka_pte := (ka_pte s)[n + KM_TYPE_NR c * cpu := None], ka_idx := (ka_idx s)[cpu := int n],
       ka_pf := (ka_pf s)[cpu := ka_pf s ! cpu - 1]\<rparr>"

lemma kunmap_atomic_run:
  assumes "ka_config_ok c" "ka_ok c st s" "cpu < kc_cpus c" "st cpu = xs @ [p]"
    "kc_fix_begin c \<le> x" "x < kc_fix_begin c + KM_TYPE_NR c * kc_cpus c"
  shows "kunmap_atomic c cpu (fix_to_virt c x) s = Some (ka_pop c cpu (length xs) s)"
proof -
  have "length xs < KM_TYPE_NR c" using assms(2-4) by (auto simp: ka_ok_def)
  then have b: "length xs + KM_TYPE_NR c * cpu < KM_TYPE_NR c * kc_cpus c"
    using slot_bound [OF assms(3)] by blast
  have i: "ka_idx s ! cpu = int (length xs) + 1" using assms(2-4) by (simp add: ka_ok_def)
  show ?thesis using assms(2,3) b i fix_props [OF assms(1,5,6)]
    by (simp add: kunmap_atomic_def kmap_atomic_idx_def kmap_atomic_idx_pop_def add_pf_def ka_ok_def ka_pop_def)
qed

lemma kmap_atomic_to_page_pte:
  assumes "ka_config_ok c" "n < KM_TYPE_NR c * kc_cpus c"
  shows "kmap_atomic_to_page c (fix_to_virt c (kc_fix_begin c + n)) s = do { e \<leftarrow> arr_get (ka_pte s) n; e }"
  using fix_props [OF assms(1), of "kc_fix_begin c + n"] assms(2)
  by (simp add: kmap_atomic_to_page_def kmap_pte_index_def)

lemma kmap_atomic_to_page_more:
  assumes "kmap_atomic_to_page c w s = Some q" "i < length (ka_pte s)" "ka_pte s ! i = None"
    "ka_pte s' = (ka_pte s)[i := e]"
  shows "kmap_atomic_to_page c w s' = Some q"
proof (cases "w < FIXADDR_START c")
  case True
  then show ?thesis using assms(1) by (simp add: kmap_atomic_to_page_def)
next
  case False
  then obtain idx j where j: "virt_to_fix c w = Some idx" "kmap_pte_index (int idx - int (kc_fix_begin c)) = Some j"
      "j < length (ka_pte s)" "ka_pte s ! j = Some q"
    using assms(1) by (auto simp: kmap_atomic_to_page_def Option.bind_eq_Some_conv arr_get_Some_iff)
  then have "i \<noteq> j" using assms(3) by auto
  then show ?thesis using False j assms(4) by (simp add: kmap_atomic_to_page_def)
qed

section \<open>A mapping and its unmapping\<close>

definition ka_with :: "ka_config \<Rightarrow> nat \<Rightarrow> nat \<Rightarrow> (nat \<Rightarrow> nat list) \<Rightarrow> nat \<Rightarrow> nat list" where
  "ka_with c cpu p st = (if kc_highmem c p then st(cpu := st cpu @ [p]) else st)"

definition undone_by :: "ka_config \<Rightarrow> nat \<Rightarrow> nat \<Rightarrow> ka_state \<Rightarrow> vaddr \<Rightarrow> ka_state \<Rightarrow> bool" where
  "undone_by c cpu p s v s' \<longleftrightarrow>
     kmap_atomic_to_page c v s' = Some p \<and> ka_mem s' = ka_mem s \<and>
     (\<forall>m. kunmap_atomic c cpu v (s'\<lparr>ka_mem := m\<rparr>) = Some (s\<lparr>ka_mem := m\<rparr>)) \<and>
     (\<forall>w q. kmap_atomic_to_page c w s = Some q \<longrightarrow> kmap_atomic_to_page c w s' = Some q)"

lemma atomic_high:
  assumes "ka_config_ok c" "ka_ok c st s" "cpu < kc_cpus c" "length (st cpu) < KM_TYPE_NR c" "kc_highmem c p"
  shows "\<exists>v s'. kmap_atomic c cpu p s = Some (v, s') \<and> ka_ok c (ka_with c cpu p st) s' \<and>
    undone_by c cpu p s v s'"
proof -
  let ?n = "length (st cpu) + KM_TYPE_NR c * cpu" and ?s = "ka_push c cpu (length (st cpu)) p s"
  let ?v = "fix_to_virt c (kc_fix_begin c + ?n)"
  have b: "?n < KM_TYPE_NR c * kc_cpus c" using slot_bound [OF assms(3,4)] .
  have len: "length (ka_pte s) = KM_TYPE_NR c * kc_cpus c" "length (ka_idx s) = kc_cpus c" "length (ka_pf s) = kc_cpus c"
    and idx: "ka_idx s ! cpu = int (length (st cpu))" and free: "ka_pte s ! ?n = None"
    using assms(2-4) by (simp_all add: ka_ok_def)
  have ok: "ka_ok c (st(cpu := st cpu @ [p])) ?s" using ka_push_ok [OF assms(2-4)] .
  have page: "kmap_atomic_to_page c ?v ?s = Some p"
    using kmap_atomic_to_page_pte [OF assms(1) b] b len by (simp add: ka_push_def)
  have undo: "kunmap_atomic c cpu ?v (?s\<lparr>ka_mem := m\<rparr>) = Some (s\<lparr>ka_mem := m\<rparr>)" for m
  proof -
    have "ka_ok c (st(cpu := st cpu @ [p])) (?s\<lparr>ka_mem := m\<rparr>)" using ok by (simp add: ka_ok_def)
    from kunmap_atomic_run [OF assms(1) this assms(3), of "st cpu" p "kc_fix_begin c + ?n"]
    have "kunmap_atomic c cpu ?v (?s\<lparr>ka_mem := m\<rparr>) = Some (ka_pop c cpu (length (st cpu)) (?s\<lparr>ka_mem := m\<rparr>))"
      using b by simp
    also have "ka_pop c cpu (length (st cpu)) (?s\<lparr>ka_mem := m\<rparr>) = s\<lparr>ka_mem := m\<rparr>"
      using len idx free assms(3) b by (simp add: ka_pop_def ka_push_def flip: idx free)
    finally show ?thesis .
  qed
  have "kmap_atomic_to_page c w s = Some q \<Longrightarrow> kmap_atomic_to_page c w ?s = Some q" for w q
    by (rule kmap_atomic_to_page_more [where i = ?n and e = "Some p"]) (use b len free in \<open>simp_all add: ka_push_def\<close>)
  then show ?thesis
    using kmap_atomic_run [OF assms(1-3,5,4)] ok page undo assms(5)
    by (simp add: ka_with_def undone_by_def) (simp add: ka_push_def)
qed

lemma atomic_low:
  assumes "ka_config_ok c" "ka_ok c st s" "cpu < kc_cpus c" "\<not> kc_highmem c p"
  shows "\<exists>v s'. kmap_atomic c cpu p s = Some (v, s') \<and> ka_ok c (ka_with c cpu p st) s' \<and>
    undone_by c cpu p s v s'"
proof -
  let ?v = "kc_lowmem_address c p" and ?s = "s\<lparr>ka_pf := (ka_pf s)[cpu := ka_pf s ! cpu + 1]\<rparr>"
  have low: "?v < FIXADDR_START c" "kc_virt_to_page c ?v = p" "kc_page_offset c \<le> ?v" "?v < kc_high_memory c"
    and al: "?v AND PAGE_MASK = ?v"
    using assms(1,4) by (auto simp: ka_config_ok_def intro: aligned_mask)
  have len: "length (ka_pf s) = kc_cpus c" using assms(2) by (simp add: ka_ok_def)
  have "FIX_KMAP_END c \<le> kc_fix_perm c" using assms(1) by (auto simp: ka_config_ok_def FIX_KMAP_END_def)
  then have "FIXADDR_START c \<le> fix_to_virt c (FIX_KMAP_END c)"
    using unat_fix [OF _ assms(1)] by (simp add: FIXADDR_START_def fix_to_virt_def word_le_nat_alt)
  then have out: "(fix_to_virt c (FIX_KMAP_END c) \<le> ?v) = False" "(?v < kc_page_offset c) = False"
      "(kc_high_memory c \<le> ?v) = False" using low by auto
  have run: "kmap_atomic c cpu p s = Some (?v, ?s)"
    using assms(3,4) len by (simp add: kmap_atomic_def kmap_atomic_prot_def add_pf_def)
  have ok: "ka_ok c st ?s" using assms(2) by (simp add: ka_ok_def)
  have undo: "kunmap_atomic c cpu ?v (?s\<lparr>ka_mem := m\<rparr>) = Some (s\<lparr>ka_mem := m\<rparr>)" for m
    using assms(3) len by (simp add: kunmap_atomic_def add_pf_def Let_def out al)
  have same: "kmap_atomic_to_page c w ?s = kmap_atomic_to_page c w s" for w
    by (simp add: kmap_atomic_to_page_def)
  have "kmap_atomic_to_page c ?v s = Some p" using low by (simp add: kmap_atomic_to_page_def)
  then show ?thesis using run ok undo same assms(4) by (simp add: ka_with_def undone_by_def)
qed

lemma atomic_pair:
  assumes "ka_config_ok c" "ka_ok c st s" "cpu < kc_cpus c" "length (st cpu) < KM_TYPE_NR c"
  obtains v s' where "kmap_atomic c cpu p s = Some (v, s')" "ka_ok c (ka_with c cpu p st) s'"
    "undone_by c cpu p s v s'"
  using atomic_high [OF assms] atomic_low [OF assms(1-3)] by (cases "kc_highmem c p") blast+

section \<open>Page helpers\<close>

lemma ka_mem_to_page [simp]: "kmap_atomic_to_page c v (s\<lparr>ka_mem := m\<rparr>) = kmap_atomic_to_page c v s"
  by (simp add: kmap_atomic_to_page_def)

lemma ka_mem_same [simp]: "s\<lparr>ka_mem := ka_mem s\<rparr> = s"
  by simp

lemma copy_highpage_spec:
  assumes "ka_config_ok c" "ka_ok c st s" "cpu < kc_cpus c" "length (st cpu) + 1 < KM_TYPE_NR c"
    "from < length (ka_mem s)" "to < length (ka_mem s)"
  shows "copy_highpage c cpu to from s = Some (s\<lparr>ka_mem := (ka_mem s)[to := ka_mem s ! from]\<rparr>)"
proof -
  have room: "length (st cpu) < KM_TYPE_NR c" using assms(4) by simp
  obtain v1 s1 where a: "kmap_atomic c cpu from s = Some (v1, s1)" "ka_ok c (ka_with c cpu from st) s1"
      "undone_by c cpu from s v1 s1"
    by (rule atomic_pair [OF assms(1-3) room])
  have room': "length (ka_with c cpu from st cpu) < KM_TYPE_NR c" using assms(4) by (simp add: ka_with_def)
  obtain v2 s2 where b: "kmap_atomic c cpu to s1 = Some (v2, s2)" "undone_by c cpu to s1 v2 s2"
    by (rule atomic_pair [OF assms(1) a(2) assms(3) room'])
  show ?thesis using a(1,3) b assms(5,6)
    by (simp add: copy_highpage_def read_page_def write_page_def undone_by_def)
qed

definition zeroed :: "nat \<Rightarrow> nat \<Rightarrow> byte list \<Rightarrow> byte list" where
  "zeroed start end' bs = map (\<lambda>(k, b). if start \<le> k \<and> k < end' then 0 else b) (enumerate 0 bs)"

lemma zeroed_length [simp]: "length (zeroed a b bs) = length bs"
  by (simp add: zeroed_def)

lemma zeroed_none: "\<not> a < b \<Longrightarrow> zeroed a b bs = bs"
  by (rule nth_equalityI) (auto simp: zeroed_def nth_enumerate_eq)

lemma memset_zeroed:
  assumes "a < b" "b \<le> length bs"
  shows "take a bs @ replicate (b - a) 0 @ drop b bs = zeroed a b bs"
  by (rule nth_equalityI) (use assms in \<open>auto simp: zeroed_def nth_enumerate_eq nth_append min_def\<close>)

lemma memset_page_run:
  assumes "kmap_atomic_to_page c v s = Some p" "p < length (ka_mem s)" "length (ka_mem s ! p) = 4096" "b \<le> 4096"
  shows "(if b > a then memset_page c v a (b - a) s else Some s) =
         Some (s\<lparr>ka_mem := (ka_mem s)[p := zeroed a b (ka_mem s ! p)]\<rparr>)"
proof (cases "a < b")
  case True
  then show ?thesis using assms memset_zeroed [OF True, of "ka_mem s ! p"]
    by (simp add: memset_page_def read_page_def write_page_def)
next
  case False
  then show ?thesis by (simp add: zeroed_none)
qed

section \<open>Properties\<close>

definition ex_ka_config :: "bool \<Rightarrow> ka_config" where
  "ex_ka_config debug = \<lparr>kc_fence = False, kc_debug = debug, kc_cpus = 2, kc_fix_begin = 5, kc_fix_perm = 50,
     kc_top = 0xFFFFF000, kc_page_offset = 0xC0000000, kc_high_memory = 0xC0010000,
     kc_highmem = (\<lambda>p. 16 \<le> p), kc_lowmem_address = (\<lambda>p. 0xC0000000 + word_of_nat (p mod 16) * 4096),
     kc_virt_to_page = (\<lambda>v. unat (drop_bit 12 (v - 0xC0000000)))\<rparr>"

definition ex_ka :: ka_state where
  "ex_ka = \<lparr>ka_idx = [0, 0], ka_pf = [0, 0], ka_pte = replicate 40 None, ka_mem = replicate 20 (replicate 4096 7)\<rparr>"

lemma ex_ka_config_ok: "ka_config_ok (ex_ka_config d)"
proof -
  have low: "unat (0xC0000000 + word_of_nat p * 4096 :: vaddr) = 0xC0000000 + p * 4096" if "p < 16" for p
  proof -
    have "unat (word_of_nat (p * 4096) :: vaddr) = p * 4096" using that by (simp add: unat_of_nat del: of_nat_mult)
    then show ?thesis using that by (simp add: unat_word_ariths)
  qed
  have "unat (drop_bit 12 (word_of_nat p * 4096 :: vaddr)) = p" if "p < 16" for p
  proof -
    have "unat (word_of_nat (p * 4096) :: vaddr) = p * 4096" using that by (simp add: unat_of_nat del: of_nat_mult)
    then show ?thesis by (simp add: drop_bit_eq_div unat_div)
  qed
  then show ?thesis using low
    by (simp add: ka_config_ok_def ex_ka_config_def KM_TYPE_NR_def FIXADDR_START_def word_less_nat_alt word_le_nat_alt)
qed

lemma ex_ka_ok: "ka_ok (ex_ka_config d) (\<lambda>_. []) ex_ka"
proof -
  have "k + 20 * cpu < (40 :: nat)" if "cpu < 2" "k < 20" for k cpu
    using that by simp
  then show ?thesis
    by (auto simp: ka_ok_def ex_ka_def ex_ka_config_def KM_TYPE_NR_def less_2_cases_iff)
qed

text \<open>C28: A temporary mapping is undone by its unmapping: on any processor with a free slot, \<open>kmap_atomic\<close> returns an address that translates to the page, leaves the translations of all other addresses in use as they are, and unmapping that address, whatever was written to memory in between, restores all page table entries, slot counters and page fault depths.\<close>

theorem kmap_atomic_roundtrip:
  assumes "ka_config_ok c" "ka_ok c st s" "cpu < kc_cpus c" "length (st cpu) < KM_TYPE_NR c"
  shows "\<exists>v s'. kmap_atomic c cpu page s = Some (v, s') \<and> kmap_atomic_to_page c v s' = Some page \<and>
    (\<forall>w q. kmap_atomic_to_page c w s = Some q \<longrightarrow> kmap_atomic_to_page c w s' = Some q) \<and>
    (\<forall>m. kunmap_atomic c cpu v (s'\<lparr>ka_mem := m\<rparr>) = Some (s\<lparr>ka_mem := m\<rparr>))"
  using atomic_pair [OF assms, of page] unfolding undone_by_def by metis

theorem kmap_atomic_roundtrip_witness:
  "\<exists>v s'. kmap_atomic (ex_ka_config True) 1 17 ex_ka = Some (v, s') \<and>
     kmap_atomic_to_page (ex_ka_config True) v s' = Some 17"
  using kmap_atomic_roundtrip [OF ex_ka_config_ok [of True] ex_ka_ok, where cpu = 1 and page = 17]
  by (auto simp: ex_ka_config_def KM_TYPE_NR_def)

text \<open>C29: \<open>zero_user_segments\<close> clears exactly the bytes of the two half-open ranges of the page and changes nothing else; a range that ends beyond the page stops it.\<close>

theorem zero_user_segments_spec:
  assumes "ka_config_ok c" "ka_ok c st s" "cpu < kc_cpus c" "length (st cpu) < KM_TYPE_NR c"
    "page < length (ka_mem s)" "length (ka_mem s ! page) = 4096"
  shows "zero_user_segments c cpu page start1 end1 start2 end2 s =
    (if end1 > 4096 \<or> end2 > 4096 then None
     else Some (s\<lparr>ka_mem := (ka_mem s)[page := zeroed start2 end2 (zeroed start1 end1 (ka_mem s ! page))]\<rparr>))"
proof -
  obtain v t where a: "kmap_atomic c cpu page s = Some (v, t)" and u: "undone_by c cpu page s v t"
    by (rule atomic_pair [OF assms(1-4)])
  have at: "kmap_atomic_to_page c v t = Some page" "ka_mem t = ka_mem s"
      "\<And>m. kunmap_atomic c cpu v (t\<lparr>ka_mem := m\<rparr>) = Some (s\<lparr>ka_mem := m\<rparr>)"
    using u by (simp_all add: undone_by_def)
  show ?thesis
  proof (cases "end1 > 4096 \<or> end2 > 4096")
    case True
    then show ?thesis using a by (auto simp: zero_user_segments_def)
  next
    case False
    let ?t = "t\<lparr>ka_mem := (ka_mem s)[page := zeroed start1 end1 (ka_mem s ! page)]\<rparr>"
    have 1: "(if end1 > start1 then memset_page c v start1 (end1 - start1) t else Some t) = Some ?t"
      using memset_page_run [of c v t page end1 start1] at False assms(5,6) by simp
    have 2: "(if end2 > start2 then memset_page c v start2 (end2 - start2) ?t else Some ?t) =
        Some (t\<lparr>ka_mem := (ka_mem s)[page := zeroed start2 end2 (zeroed start1 end1 (ka_mem s ! page))]\<rparr>)"
      using memset_page_run [of c v ?t page end2 start2] at False assms(5,6) by simp
    show ?thesis using a at(3) False unfolding zero_user_segments_def by (simp add: 1 2 del: if_split)
  qed
qed

theorem zero_user_segments_spec_witness:
  "zero_user_segments (ex_ka_config False) 0 18 10 5000 0 0 ex_ka = None"
  using zero_user_segments_spec [OF ex_ka_config_ok [of False] ex_ka_ok, where cpu = 0 and page = 18
      and ?end1.0 = 5000 and ?start1.0 = 10 and ?start2.0 = 0 and ?end2.0 = 0]
  by (simp add: ex_ka_config_def KM_TYPE_NR_def ex_ka_def)

text \<open>C30: The check in \<open>kmap_atomic_idx_push\<close> is one off: with the debugging checks compiled in and all slots of a processor in use, one more mapping is still granted; it takes the first slot of the next processor, whose own next mapping then stops on a slot that is not empty.\<close>

theorem atomic_slot_overrun:
  assumes "ka_config_ok c" "kc_debug c" "ka_ok c st s" "Suc cpu < kc_cpus c" "length (st cpu) = KM_TYPE_NR c"
    "st (Suc cpu) = []" "kc_highmem c p" "kc_highmem c q"
  shows "\<exists>v s'. kmap_atomic c cpu p s = Some (v, s') \<and> kmap_atomic c (Suc cpu) q s' = None"
proof -
  let ?n = "KM_TYPE_NR c + KM_TYPE_NR c * cpu"
  let ?s = "s\<lparr>ka_pf := (ka_pf s)[cpu := ka_pf s ! cpu + 1], ka_idx := (ka_idx s)[cpu := ka_idx s ! cpu + 1],
      ka_pte := (ka_pte s)[?n := Some p]\<rparr>"
  have pos: "0 < KM_TYPE_NR c" by (simp add: KM_TYPE_NR_def)
  have b: "?n < KM_TYPE_NR c * kc_cpus c" using slot_bound [OF assms(4) pos] by simp
  have len: "length (ka_pte s) = KM_TYPE_NR c * kc_cpus c" "length (ka_idx s) = kc_cpus c" "length (ka_pf s) = kc_cpus c"
    and idx: "ka_idx s ! cpu = int (KM_TYPE_NR c)" "ka_idx s ! Suc cpu = 0"
    using assms(3-6) by (simp_all add: ka_ok_def)
  have "ka_pte s ! (0 + KM_TYPE_NR c * Suc cpu) = None"
    using assms(3,4,6) pos unfolding ka_ok_def by (metis less_nat_zero_code list.size(3))
  then have free: "ka_pte s ! ?n = None" by simp
  have 1: "kmap_atomic c cpu p s = Some (fix_to_virt c (kc_fix_begin c + ?n), ?s)"
    using assms(4,7) len idx free b
    by (simp add: kmap_atomic_def kmap_atomic_prot_def add_pf_def kmap_atomic_idx_push_def)
  have 2: "kmap_atomic c (Suc cpu) q ?s = None"
    using assms(4,8) len idx b
    by (simp add: kmap_atomic_def kmap_atomic_prot_def add_pf_def kmap_atomic_idx_push_def)
  show ?thesis using 1 2 by blast
qed

definition ex_ka_full :: ka_state where
  "ex_ka_full = \<lparr>ka_idx = [20, 0], ka_pf = [20, 0], ka_pte = map Some [16..<36] @ replicate 20 None, ka_mem = []\<rparr>"

lemma ex_ka_full_ok: "ka_ok (ex_ka_config d) (\<lambda>cpu. if cpu = 0 then [16..<36] else []) ex_ka_full"
proof -
  define xs where "xs = [16..<36 :: nat]"
  have "length xs = 20" by (simp add: xs_def)
  then show ?thesis unfolding ex_ka_full_def xs_def [symmetric]
    by (auto simp: ka_ok_def ex_ka_config_def KM_TYPE_NR_def less_2_cases_iff nth_append)
qed

theorem atomic_slot_overrun_witness:
  "\<exists>v s'. kmap_atomic (ex_ka_config True) 0 40 ex_ka_full = Some (v, s') \<and>
     kmap_atomic (ex_ka_config True) 1 41 s' = None"
  using atomic_slot_overrun [OF ex_ka_config_ok [of True] _ ex_ka_full_ok, where cpu = 0 and p = 40 and q = 41]
  by (simp add: ex_ka_config_def KM_TYPE_NR_def)

end
