(* ===== verification/Slob.thy ===== *)
theory Slob
  imports Prelude
begin

text \<open>
  The SLOB allocator (\<^verbatim>\<open>src/ulk_slob/slob.c\<close>), in its configuration without NUMA.

  A page is 4096 bytes, a unit (\<^verbatim>\<open>slob_t\<close>) two bytes, so a page has 2048 units.  The contents of
  a page are kept as its units, signed 16-bit numbers, and the free list lives in them
  exactly as in the code: a \<^verbatim>\<open>slob_t\<close> pointer is the offset of a unit in its page, the end
  of the page being 2048.  Page number \<^verbatim>\<open>p\<close> starts at address \<open>4096 p\<close>.  A conversion to \<^verbatim>\<open>slobidx_t\<close>
  that does not fit, an access outside the page, and a \<^verbatim>\<open>BUG\<close> are \<^const>\<open>None\<close>, and so is a walk over
  a free list that does not end.

  The page allocator is represented by \<^verbatim>\<open>sh_supply\<close>, the blocks of pages (order and first
  page) that \<^verbatim>\<open>alloc_pages\<close> will hand out; freed pages go back to it.
\<close>

section \<open>State\<close>

record slob_page =
  sp_units :: int
  sp_freelist :: nat
  sp_mem :: "int list"
  sp_slob_free :: bool
  sp_slab :: bool
  sp_compound :: nat

datatype slob_list = Small | Medium | Large

record slob_heap =
  sh_page :: "nat \<Rightarrow> slob_page"
  sh_list :: "slob_list \<Rightarrow> nat list"
  sh_supply :: "(nat \<times> nat) list"

abbreviation PAGE_SIZE :: nat where
  "PAGE_SIZE \<equiv> 4096"

abbreviation PAGE_UNITS :: nat where
  "PAGE_UNITS \<equiv> 2048"

definition SLOB_UNITS :: "nat \<Rightarrow> nat" where
  "SLOB_UNITS sz = (sz + 2 - 1) div 2"

definition set_slob_page :: "nat \<Rightarrow> slob_page \<Rightarrow> slob_heap \<Rightarrow> slob_heap" where
  "set_slob_page p sp h = h\<lparr>sh_page := (sh_page h)(p := sp)\<rparr>"

definition slob_page_free :: "slob_page \<Rightarrow> bool" where
  "slob_page_free sp = sp_slob_free sp"

definition set_slob_page_free :: "nat \<Rightarrow> slob_list \<Rightarrow> slob_heap \<Rightarrow> slob_heap" where
  "set_slob_page_free p l h =
     set_slob_page p ((sh_page h p)\<lparr>sp_slob_free := True\<rparr>)
       (h\<lparr>sh_list := (sh_list h)(l := p # sh_list h l)\<rparr>)"

definition clear_slob_page_free :: "nat \<Rightarrow> slob_heap \<Rightarrow> slob_heap" where
  "clear_slob_page_free p h =
     set_slob_page p ((sh_page h p)\<lparr>sp_slob_free := False\<rparr>)
       (h\<lparr>sh_list := (\<lambda>l. remove1 p (sh_list h l))\<rparr>)"

section \<open>Free blocks in a page\<close>

definition slobidx :: "int \<Rightarrow> int option" where
  "slobidx i = (if - 32768 \<le> i \<and> i \<le> 32767 then Some i else None)"

definition set_slob :: "int list \<Rightarrow> nat \<Rightarrow> nat \<Rightarrow> nat \<Rightarrow> int list option" where
  "set_slob mem s sz next =
     do { n \<leftarrow> slobidx (int sz);
          offset \<leftarrow> slobidx (int next);
          if n > 1 then do { mem1 \<leftarrow> arr_set mem s n; arr_set mem1 (s + 1) offset }
          else arr_set mem s (- offset) }"

definition slob_units :: "int list \<Rightarrow> nat \<Rightarrow> nat option" where
  "slob_units mem s = do { n \<leftarrow> arr_get mem s; Some (if n > 0 then nat n else 1) }"

definition slob_next :: "int list \<Rightarrow> nat \<Rightarrow> nat option" where
  "slob_next mem s =
     do { n \<leftarrow> arr_get mem s;
          if n < 0 then Some (nat (- n))
          else do { i \<leftarrow> arr_get mem (s + 1); if i < 0 then None else Some (nat i) } }"

definition slob_last :: "int list \<Rightarrow> nat \<Rightarrow> bool option" where
  "slob_last mem s = do { n \<leftarrow> slob_next mem s; Some (n mod PAGE_UNITS = 0) }"

section \<open>Allocation\<close>

text \<open>Distance, in units, from a unit to the next aligned address.\<close>

definition slob_delta :: "nat \<Rightarrow> nat \<Rightarrow> nat \<Rightarrow> nat" where
  "slob_delta p cur align =
     (if align = 0 then 0
      else let a = PAGE_SIZE * p + 2 * cur in (((a + align - 1) div align) * align - a) div 2)"

text \<open>Splitting off the head of a block so that the rest is aligned.\<close>

definition slob_split_head :: "nat \<Rightarrow> nat \<Rightarrow> nat \<Rightarrow> int list \<Rightarrow> int list option" where
  "slob_split_head cur avail delta mem =
     do { next \<leftarrow> slob_next mem cur;
          mem1 \<leftarrow> set_slob mem (cur + delta) (avail - delta) next;
          set_slob mem1 cur delta (cur + delta) }"

text \<open>Taking the first units of a block: the new contents and head of the free list.\<close>

definition slob_carve ::
  "nat option \<Rightarrow> nat \<Rightarrow> nat \<Rightarrow> nat \<Rightarrow> int list \<Rightarrow> nat \<Rightarrow> (int list \<times> nat) option" where
  "slob_carve prev cur avail units mem freelist =
     do { next \<leftarrow> slob_next mem cur;
          if avail = units then
            (case prev of
               Some q \<Rightarrow> do { n \<leftarrow> slob_units mem q; mem1 \<leftarrow> set_slob mem q n next; Some (mem1, freelist) }
             | None \<Rightarrow> Some (mem, next))
          else
            do { (mem1, fl) \<leftarrow>
                   (case prev of
                      Some q \<Rightarrow> do { n \<leftarrow> slob_units mem q; mem1 \<leftarrow> set_slob mem q n (cur + units);
                                    Some (mem1, freelist) }
                    | None \<Rightarrow> Some (mem, cur + units));
                 mem2 \<leftarrow> set_slob mem1 (cur + units) (avail - units) next;
                 Some (mem2, fl) } }"

definition slob_take ::
  "nat option \<Rightarrow> nat \<Rightarrow> nat \<Rightarrow> nat \<Rightarrow> nat \<Rightarrow> slob_page \<Rightarrow> (nat \<times> slob_page) option" where
  "slob_take prev cur avail delta units sp =
     do { (prev, cur, avail, mem) \<leftarrow>
            (if delta \<noteq> 0 then
               do { mem \<leftarrow> slob_split_head cur avail delta (sp_mem sp);
                    avail' \<leftarrow> slob_units mem (cur + delta);
                    Some (Some cur, cur + delta, avail', mem) }
             else Some (prev, cur, avail, sp_mem sp));
          (mem', freelist) \<leftarrow> slob_carve prev cur avail units mem (sp_freelist sp);
          Some (cur, sp\<lparr>sp_mem := mem', sp_freelist := freelist, sp_units := sp_units sp - int units\<rparr>) }"

partial_function (option) slob_scan ::
  "nat \<Rightarrow> nat \<Rightarrow> nat \<Rightarrow> nat option \<Rightarrow> nat \<Rightarrow> slob_page \<Rightarrow> (nat option \<times> slob_page) option" where
  "slob_scan p units align prev cur sp =
     do { avail \<leftarrow> slob_units (sp_mem sp) cur;
          let delta = slob_delta p cur align;
          if units + delta \<le> avail then
            do { (b, sp') \<leftarrow> slob_take prev cur avail delta units sp; Some (Some b, sp') }
          else do {
            last \<leftarrow> slob_last (sp_mem sp) cur;
            if last then Some (None, sp)
            else do { next \<leftarrow> slob_next (sp_mem sp) cur;
                      slob_scan p units align (Some cur) next sp } } }"

definition slob_page_alloc :: "nat \<Rightarrow> nat \<Rightarrow> nat \<Rightarrow> slob_heap \<Rightarrow> (nat option \<times> slob_heap) option" where
  "slob_page_alloc p sz align h =
     do { (b, sp) \<leftarrow> slob_scan p (SLOB_UNITS sz) align None (sp_freelist (sh_page h p)) (sh_page h p);
          let h' = set_slob_page p sp h;
          case b of
            None \<Rightarrow> Some (None, h')
          | Some b \<Rightarrow> Some (Some b, if sp_units sp = 0 then clear_slob_page_free p h' else h') }"

definition slob_list_for :: "nat \<Rightarrow> slob_list" where
  "slob_list_for sz = (if sz < 256 then Small else if sz < 1024 then Medium else Large)"

text \<open>
  The search over a list of pages.  The list head moves in front of the page in which the
  block was found (or of its successor, when the page has become full and left the list).
\<close>

fun slob_search :: "slob_list \<Rightarrow> nat \<Rightarrow> nat \<Rightarrow> nat list \<Rightarrow> nat list \<Rightarrow> slob_heap \<Rightarrow>
    ((nat \<times> nat) option \<times> slob_heap) option" where
  "slob_search l sz align pre [] h = Some (None, h)"
| "slob_search l sz align pre (p # ps) h =
     (if sp_units (sh_page h p) < int (SLOB_UNITS sz)
      then slob_search l sz align (pre @ [p]) ps h
      else do {
        (b, h') \<leftarrow> slob_page_alloc p sz align h;
        case b of
          None \<Rightarrow> slob_search l sz align (pre @ [p]) ps h'
        | Some b \<Rightarrow>
            let rest = drop (length pre) (sh_list h' l) in
            Some (Some (p, b),
              if pre \<noteq> [] \<and> rest \<noteq> [] then h'\<lparr>sh_list := (sh_list h')(l := rest @ pre)\<rparr> else h') })"

text \<open>\<^verbatim>\<open>alloc_pages\<close> and \<^verbatim>\<open>free_pages\<close>.\<close>

definition slob_new_pages :: "nat \<Rightarrow> slob_heap \<Rightarrow> (nat option \<times> slob_heap)" where
  "slob_new_pages order h =
     (case filter (\<lambda>(k, p). k = order) (sh_supply h) of
        [] \<Rightarrow> (None, h)
      | (k, p) # _ \<Rightarrow> (Some p, h\<lparr>sh_supply := remove1 (k, p) (sh_supply h)\<rparr>))"

definition slob_free_pages :: "nat \<Rightarrow> nat \<Rightarrow> slob_heap \<Rightarrow> slob_heap" where
  "slob_free_pages p order h = h\<lparr>sh_supply := sh_supply h @ [(order, p)]\<rparr>"

text \<open>\<^verbatim>\<open>memset(b, 0, size)\<close>: whole units, and the low byte of the last one when the size is odd.\<close>

definition slob_clear :: "nat \<Rightarrow> nat \<Rightarrow> int list \<Rightarrow> int list" where
  "slob_clear b sz mem =
     map (\<lambda>(i, v). if b \<le> i \<and> i < b + sz div 2 then 0
                   else if odd sz \<and> i = b + sz div 2 then v - v mod 256 else v) (enumerate 0 mem)"

definition slob_alloc :: "nat \<Rightarrow> bool \<Rightarrow> nat \<Rightarrow> slob_heap \<Rightarrow> (nat \<times> slob_heap) option" where
  "slob_alloc sz gfp_zero align h =
     do { (r, h1) \<leftarrow> slob_search (slob_list_for sz) sz align [] (sh_list h (slob_list_for sz)) h;
          (r, h2) \<leftarrow>
            (case r of
               Some b \<Rightarrow> Some (Some b, h1)
             | None \<Rightarrow>
                 (case slob_new_pages 0 h1 of
                    (None, h2) \<Rightarrow> Some (None, h2)
                  | (Some p, h2) \<Rightarrow>
                      do { mem \<leftarrow> set_slob (sp_mem (sh_page h2 p)) 0 (SLOB_UNITS PAGE_SIZE) (SLOB_UNITS PAGE_SIZE);
                           let sp = (sh_page h2 p)\<lparr>sp_slab := True, sp_units := int (SLOB_UNITS PAGE_SIZE),
                                      sp_freelist := 0, sp_mem := mem\<rparr>;
                           let h3 = set_slob_page_free p (slob_list_for sz) (set_slob_page p sp h2);
                           (b, h4) \<leftarrow> slob_page_alloc p sz align h3;
                           case b of None \<Rightarrow> None | Some b \<Rightarrow> Some (Some (p, b), h4) }));
          case r of
            None \<Rightarrow> Some (0, h2)
          | Some (p, b) \<Rightarrow>
              Some (PAGE_SIZE * p + 2 * b,
                    if gfp_zero
                    then set_slob_page p ((sh_page h2 p)\<lparr>sp_mem := slob_clear b sz (sp_mem (sh_page h2 p))\<rparr>) h2
                    else h2) }"

section \<open>Release\<close>

partial_function (option) slob_find :: "int list \<Rightarrow> nat \<Rightarrow> nat \<Rightarrow> (nat \<times> nat) option" where
  "slob_find mem b prev =
     do { next \<leftarrow> slob_next mem prev;
          if b > next then slob_find mem b next else Some (prev, next) }"

text \<open>
  Write a block in front of the free block at \<open>next\<close>, or merged with it where the two are
  adjacent.
\<close>

definition slob_join_next :: "int list \<Rightarrow> nat \<Rightarrow> nat \<Rightarrow> nat \<Rightarrow> bool \<Rightarrow> int list option" where
  "slob_join_next mem b units next is_last =
     (if \<not> is_last \<and> b + units = next then
        do { n \<leftarrow> slob_units mem next; nn \<leftarrow> slob_next mem next; set_slob mem b (units + n) nn }
      else set_slob mem b units next)"

text \<open>Reinsertion of a block into a page that is already partially free.\<close>

definition slob_reinsert :: "nat \<Rightarrow> nat \<Rightarrow> slob_page \<Rightarrow> slob_page option" where
  "slob_reinsert b units sp =
     (if b < sp_freelist sp then
        do { mem \<leftarrow> slob_join_next (sp_mem sp) b units (sp_freelist sp) False;
             Some (sp\<lparr>sp_units := sp_units sp + int units, sp_mem := mem, sp_freelist := b\<rparr>) }
      else
        do { (prev, next) \<leftarrow> slob_find (sp_mem sp) b (sp_freelist sp);
             is_last \<leftarrow> slob_last (sp_mem sp) prev;
             mem1 \<leftarrow> slob_join_next (sp_mem sp) b units next is_last;
             np \<leftarrow> slob_units mem1 prev;
             mem2 \<leftarrow>
               (if prev + np = b then
                  do { nb \<leftarrow> slob_units mem1 b; next' \<leftarrow> slob_next mem1 b;
                       set_slob mem1 prev (nb + np) next' }
                else set_slob mem1 prev np b);
             Some (sp\<lparr>sp_units := sp_units sp + int units, sp_mem := mem2\<rparr>) })"

abbreviation ZERO_SIZE_PTR :: nat where
  "ZERO_SIZE_PTR \<equiv> 16"

definition slob_free :: "nat \<Rightarrow> nat \<Rightarrow> slob_heap \<Rightarrow> slob_heap option" where
  "slob_free block sz h =
     (if block \<le> ZERO_SIZE_PTR then Some h
      else if sz = 0 then None
      else
        let p = block div PAGE_SIZE; b = block mod PAGE_SIZE div 2; units = SLOB_UNITS sz; sp = sh_page h p in
        if sp_units sp + int units = int (SLOB_UNITS PAGE_SIZE) then
          let h1 = (if slob_page_free sp then clear_slob_page_free p h else h) in
          Some (slob_free_pages p 0 (set_slob_page p ((sh_page h1 p)\<lparr>sp_slab := False\<rparr>) h1))
        else if \<not> slob_page_free sp then
          do { mem \<leftarrow> set_slob (sp_mem sp) b units (SLOB_UNITS PAGE_SIZE);
               let sp' = sp\<lparr>sp_units := int units, sp_freelist := b, sp_mem := mem\<rparr>;
               Some (set_slob_page_free p (slob_list_for sz) (set_slob_page p sp' h)) }
        else
          do { sp' \<leftarrow> slob_reinsert b units sp;
               Some (set_slob_page p sp' h) })"

section \<open>Front ends\<close>

text \<open>The \<^verbatim>\<open>unsigned int\<close> in front of a block, two units with the low half first.\<close>

definition put_uint :: "nat \<Rightarrow> nat \<Rightarrow> slob_heap \<Rightarrow> slob_heap option" where
  "put_uint addr v h =
     do { let p = addr div PAGE_SIZE;
          let b = addr mod PAGE_SIZE div 2;
          let s16 = (\<lambda>n. if n < 32768 then int n else int n - 65536);
          mem1 \<leftarrow> arr_set (sp_mem (sh_page h p)) b (s16 (v mod 65536));
          mem2 \<leftarrow> arr_set mem1 (b + 1) (s16 (v div 65536 mod 65536));
          Some (set_slob_page p ((sh_page h p)\<lparr>sp_mem := mem2\<rparr>) h) }"

definition get_uint :: "nat \<Rightarrow> slob_heap \<Rightarrow> nat option" where
  "get_uint addr h =
     do { let p = addr div PAGE_SIZE;
          let b = addr mod PAGE_SIZE div 2;
          lo \<leftarrow> arr_get (sp_mem (sh_page h p)) b;
          hi \<leftarrow> arr_get (sp_mem (sh_page h p)) (b + 1);
          Some (nat (lo mod 65536) + 65536 * nat (hi mod 65536)) }"

definition do_kmalloc_node :: "nat \<Rightarrow> (nat \<Rightarrow> nat) \<Rightarrow> nat \<Rightarrow> bool \<Rightarrow> slob_heap \<Rightarrow> (nat \<times> slob_heap) option" where
  "do_kmalloc_node align get_order sz gfp_zero h =
     (if sz < PAGE_SIZE - align then
        if sz = 0 then Some (ZERO_SIZE_PTR, h)
        else do { (m, h1) \<leftarrow> slob_alloc (sz + align) gfp_zero align h;
                  if m = 0 then Some (0, h1)
                  else do { h2 \<leftarrow> put_uint m sz h1; Some (m + align, h2) } }
      else
        (case slob_new_pages (get_order sz) h of
           (None, h1) \<Rightarrow> Some (0, h1)
         | (Some p, h1) \<Rightarrow>
             Some (PAGE_SIZE * p, set_slob_page p ((sh_page h1 p)\<lparr>sp_compound := get_order sz\<rparr>) h1)))"

definition kfree :: "nat \<Rightarrow> nat \<Rightarrow> slob_heap \<Rightarrow> slob_heap option" where
  "kfree align block h =
     (if block \<le> ZERO_SIZE_PTR then Some h
      else
        let sp = sh_page h (block div PAGE_SIZE) in
        if sp_slab sp then
          do { let m = block - align;
               n \<leftarrow> get_uint m h;
               slob_free m (n + align) h }
        else Some (slob_free_pages (block div PAGE_SIZE) (sp_compound sp) h))"

definition ksize :: "nat \<Rightarrow> nat \<Rightarrow> slob_heap \<Rightarrow> nat option" where
  "ksize align block h =
     (if block = 0 then None
      else if block = ZERO_SIZE_PTR then Some 0
      else
        let sp = sh_page h (block div PAGE_SIZE) in
        if \<not> sp_slab sp then Some (PAGE_SIZE * 2 ^ sp_compound sp)
        else do { n \<leftarrow> get_uint (block - align) h; Some (SLOB_UNITS n * 2) })"

record slob_cache =
  kc_size :: nat
  kc_align :: nat
  kc_rcu :: bool

definition kmem_cache_create :: "nat \<Rightarrow> bool \<Rightarrow> slob_cache \<Rightarrow> slob_cache" where
  "kmem_cache_create sizeof_slob_rcu destroy_by_rcu c =
     (if destroy_by_rcu then c\<lparr>kc_size := kc_size c + sizeof_slob_rcu, kc_rcu := True\<rparr>
      else c\<lparr>kc_rcu := False\<rparr>)"

text \<open>The constructor is code of the cache's user; it is called with the block's address.\<close>

definition kmem_cache_alloc_node ::
  "(nat \<Rightarrow> nat) \<Rightarrow> (nat \<Rightarrow> slob_heap \<Rightarrow> slob_heap option) option \<Rightarrow> slob_cache \<Rightarrow> bool \<Rightarrow> slob_heap \<Rightarrow>
     (nat \<times> slob_heap) option" where
  "kmem_cache_alloc_node get_order ctor c gfp_zero h =
     do { (b, h1) \<leftarrow>
            (if kc_size c < PAGE_SIZE then slob_alloc (kc_size c) gfp_zero (kc_align c) h
             else (case slob_new_pages (get_order (kc_size c)) h of
                     (None, h1) \<Rightarrow> Some (0, h1)
                   | (Some p, h1) \<Rightarrow> Some (PAGE_SIZE * p, h1)));
          h2 \<leftarrow> (case ctor of None \<Rightarrow> Some h1 | Some f \<Rightarrow> f b h1);
          Some (b, h2) }"

definition kmem_cache_free_now :: "(nat \<Rightarrow> nat) \<Rightarrow> nat \<Rightarrow> nat \<Rightarrow> slob_heap \<Rightarrow> slob_heap option" where
  "kmem_cache_free_now get_order b sz h =
     (if sz < PAGE_SIZE then slob_free b sz h
      else Some (slob_free_pages (b div PAGE_SIZE) (get_order sz) h))"

end
