(* ===== verification/Slob_Props.thy ===== *)
theory Slob_Props
  imports Slob
begin

text \<open>
  One page of the SLOB allocator: the free list encoded in the page's units, first-fit
  allocation from it, and reinsertion with coalescing.
\<close>

section \<open>Encoded free lists\<close>

lemma SLOB_UNITS_page [simp]: "SLOB_UNITS 4096 = 2048"
  by (simp add: SLOB_UNITS_def)

lemma SLOB_UNITS_pos: "0 < sz \<Longrightarrow> 0 < SLOB_UNITS sz"
  by (simp add: SLOB_UNITS_def)

lemma SLOB_UNITS_le: "sz \<le> 2 * SLOB_UNITS sz" "2 * SLOB_UNITS sz \<le> sz + 1"
  by (simp_all add: SLOB_UNITS_def)

type_synonym free_list = "(nat \<times> nat) list"

text \<open>The unit a list starts at; \<open>e\<close> stands after its end.\<close>

definition hoff :: "free_list \<Rightarrow> nat \<Rightarrow> nat" where
  "hoff fl e = (case fl of [] \<Rightarrow> e | b # _ \<Rightarrow> fst b)"

lemma hoff_simps [simp]: "hoff [] e = e" "hoff (b # fl) e = fst b" "hoff (xs @ ys) e = hoff xs (hoff ys e)"
  by (simp_all add: hoff_def split: list.splits)

definition encodes :: "int list \<Rightarrow> nat \<Rightarrow> nat \<Rightarrow> nat \<Rightarrow> bool" where
  "encodes mem o' n nx \<longleftrightarrow> 0 < nx \<and>
     (if n > 1 then mem ! o' = int n \<and> mem ! (o' + 1) = int nx else n = 1 \<and> mem ! o' = - int nx)"

fun slob_chain :: "int list \<Rightarrow> free_list \<Rightarrow> nat \<Rightarrow> bool" where
  "slob_chain mem [] e = True"
| "slob_chain mem ((a, n) # fl) e = (encodes mem a n (hoff fl e) \<and> slob_chain mem fl e)"

text \<open>Blocks in address order in the page, with at least \<open>g\<close> units between them.\<close>

fun spaced :: "nat \<Rightarrow> nat \<Rightarrow> free_list \<Rightarrow> bool" where
  "spaced g l [] = True"
| "spaced g l ((a, n) # fl) = (l \<le> a \<and> 0 < n \<and> a + n \<le> PAGE_UNITS \<and> spaced g (a + n + g) fl)"

definition units_of :: "free_list \<Rightarrow> nat set" where
  "units_of fl = (\<Union>(a, n) \<in> set fl. {a..<a + n})"

lemma units_of_simps [simp]:
  "units_of [] = {}" "units_of ((a, n) # fl) = {a..<a + n} \<union> units_of fl"
  "units_of (xs @ ys) = units_of xs \<union> units_of ys"
  by (auto simp: units_of_def)

lemma slob_chain_append: "slob_chain mem (xs @ ys) e \<longleftrightarrow> slob_chain mem xs (hoff ys e) \<and> slob_chain mem ys e"
  by (induction xs) auto

definition after :: "nat \<Rightarrow> nat \<Rightarrow> free_list \<Rightarrow> nat" where
  "after g l xs = (if xs = [] then l else fst (last xs) + snd (last xs) + g)"

lemma after_simps [simp]: "after g l [] = l" "after g l (xs @ [(a, n)]) = a + n + g"
  by (simp_all add: after_def)

lemma spaced_append: "spaced g l (xs @ ys) \<longleftrightarrow> spaced g l xs \<and> spaced g (after g l xs) ys"
  by (induction xs arbitrary: l) (auto simp: after_def)

lemma spaced_mono: "spaced g l fl \<Longrightarrow> k \<le> l \<Longrightarrow> spaced g k fl"
  by (cases fl) auto

lemma spaced_gap: "spaced g l fl \<Longrightarrow> g' \<le> g \<Longrightarrow> spaced g' l fl"
  by (induction g l fl rule: spaced.induct) (auto elim: spaced_mono)

lemma spaced_above: "spaced g l fl \<Longrightarrow> u \<in> units_of fl \<Longrightarrow> l \<le> u \<and> u < PAGE_UNITS"
  by (induction g l fl rule: spaced.induct) auto

lemma spaced_below: "spaced g l fl \<Longrightarrow> u \<in> units_of fl \<Longrightarrow> u + g < after g l fl"
proof (induction g l fl arbitrary: u rule: spaced.induct)
  case (2 g l a n fl)
  show ?case
  proof (cases "fl = []")
    case True
    then show ?thesis using 2 by (auto simp: after_def)
  next
    case False
    then obtain c m fs where fl: "fl = (c, m) # fs" by (metis list.exhaust prod.exhaust)
    have "c \<in> units_of fl" using 2(2) fl by auto
    then have c: "c + g < after g (a + n + g) fl" using 2(1) [of c] 2(2) by simp
    have "after g l ((a, n) # fl) = after g (a + n + g) fl" using False by (simp add: after_def)
    then show ?thesis using 2(1) [of u] 2(2,3) fl c by fastforce
  qed
qed simp

lemma spaced_sum: "spaced g l fl \<Longrightarrow> card (units_of fl) = sum_list (map snd fl)"
proof (induction g l fl rule: spaced.induct)
  case (2 g l a n fl)
  have "{a..<a + n} \<inter> units_of fl = {}" using 2(2) spaced_above [of g "a + n + g" fl] by fastforce
  moreover have "finite (units_of fl)" by (auto simp: units_of_def)
  ultimately show ?case using 2 by (simp add: card_Un_disjoint)
qed simp

lemma spaced_hoff: "spaced g l fl \<Longrightarrow> l \<le> e \<Longrightarrow> e \<le> PAGE_UNITS \<Longrightarrow> l \<le> hoff fl e \<and> hoff fl e \<le> PAGE_UNITS"
  by (cases fl) (auto simp: hoff_def)

text \<open>Reading and writing one encoded block.\<close>

lemma encodes_read:
  assumes "encodes mem a n nx" "a + n \<le> length mem"
  shows "slob_units mem a = Some n" "slob_next mem a = Some nx"
  using assms by (auto simp: encodes_def slob_units_def slob_next_def split: if_splits)

definition same_off :: "nat set \<Rightarrow> int list \<Rightarrow> int list \<Rightarrow> bool" where
  "same_off S mem mem' \<longleftrightarrow> length mem' = length mem \<and> (\<forall>i. i \<notin> S \<longrightarrow> mem' ! i = mem ! i)"

lemma same_off_refl [simp]: "same_off S mem mem"
  by (simp add: same_off_def)

lemma same_off_trans: "same_off S mem mem' \<Longrightarrow> same_off T mem' mem'' \<Longrightarrow> same_off (S \<union> T) mem mem''"
  by (simp add: same_off_def)

lemma same_off_mono: "same_off S mem mem' \<Longrightarrow> S \<subseteq> T \<Longrightarrow> same_off T mem mem'"
  by (auto simp: same_off_def)

lemma set_slob_encodes:
  assumes "0 < n" "a + n \<le> length mem" "0 < nx" "nx \<le> PAGE_UNITS" "length mem = PAGE_UNITS"
  obtains mem' where "set_slob mem a n nx = Some mem'" "encodes mem' a n nx" "same_off {a..<a + n} mem mem'"
proof (cases "n > 1")
  case True
  with assms show thesis
    by (intro that [of "(mem[a := int n])[a + 1 := int nx]"])
      (auto simp: set_slob_def slobidx_def encodes_def nth_list_update same_off_def)
next
  case False
  with assms show thesis
    by (intro that [of "mem[a := - int nx]"])
      (auto simp: set_slob_def slobidx_def encodes_def nth_list_update same_off_def)
qed

lemma encodes_frame:
  assumes "encodes mem a n nx" "0 < n" "same_off S mem mem'" "S \<inter> {a..<a + n} = {}"
  shows "encodes mem' a n nx"
proof -
  have "mem' ! a = mem ! a" "n > 1 \<Longrightarrow> mem' ! (a + 1) = mem ! (a + 1)"
    using assms(2-4) by (auto simp: same_off_def)
  then show ?thesis using assms(1) by (auto simp: encodes_def)
qed

lemma slob_chain_frame:
  assumes "slob_chain mem fl e" "spaced g l fl" "same_off S mem mem'" "S \<inter> units_of fl = {}"
  shows "slob_chain mem' fl e"
  using assms
proof (induction fl arbitrary: l)
  case (Cons b fl)
  obtain a n where b: "b = (a, n)" by (cases b)
  have "encodes mem' a n (hoff fl e)"
    by (rule encodes_frame [of mem]) (use Cons.prems b in auto)
  moreover have "slob_chain mem' fl e" using Cons.IH [of "a + n + g"] Cons.prems b by auto
  ultimately show ?case by (simp add: b)
qed simp

text \<open>Changing where the last block of a list points to.\<close>

lemma relink:
  assumes "slob_chain mem (xs @ [(a, n)]) x" "spaced g l (xs @ [(a, n)])" "0 < y" "y \<le> PAGE_UNITS" "length mem = PAGE_UNITS"
  obtains mem' where "slob_units mem a = Some n" "set_slob mem a n y = Some mem'"
    "slob_chain mem' (xs @ [(a, n)]) y" "same_off {a..<a + n} mem mem'"
proof -
  have an: "0 < n" "a + n \<le> length mem" "encodes mem a n x"
    using assms(1,2,5) by (simp_all add: spaced_append slob_chain_append)
  obtain mem' where m: "set_slob mem a n y = Some mem'" "encodes mem' a n y" "same_off {a..<a + n} mem mem'"
    using set_slob_encodes [OF an(1,2) assms(3-5)] .
  have xs: "spaced g l xs" "after g l xs \<le> a" "slob_chain mem xs a"
    using assms(1,2) by (simp_all add: spaced_append slob_chain_append)
  then have "{a..<a + n} \<inter> units_of xs = {}" using spaced_below by fastforce
  then have "slob_chain mem' xs a" using slob_chain_frame [OF xs(3,1) m(3)] by blast
  then show thesis using that [OF encodes_read(1) [OF an(3,2)] m(1) _ m(3)] m(2)
    by (simp add: slob_chain_append)
qed

section \<open>Taking part of a block\<close>

definition prev_of :: "free_list \<Rightarrow> nat option" where
  "prev_of xs = (if xs = [] then None else Some (fst (last xs)))"

definition rest_of :: "nat \<Rightarrow> nat \<Rightarrow> free_list" where
  "rest_of a n = (if n = 0 then [] else [(a, n)])"

text \<open>The block before and the list behind the block that is taken do not meet it.\<close>

lemma spaced_parts:
  assumes "spaced g l (xs @ (c, m) # ys)"
  shows "spaced g l xs" "after g l xs \<le> c" "0 < m" "c + m \<le> PAGE_UNITS" "spaced g (c + m + g) ys"
    "{c..<c + m} \<inter> units_of xs = {}" "{c..<c + m} \<inter> units_of ys = {}" "units_of xs \<inter> units_of ys = {}"
proof -
  show s: "spaced g l xs" "after g l xs \<le> c" "0 < m" "c + m \<le> PAGE_UNITS" "spaced g (c + m + g) ys"
    using assms by (simp_all add: spaced_append)
  show "{c..<c + m} \<inter> units_of xs = {}" using spaced_below [OF s(1)] s(2) by fastforce
  show "{c..<c + m} \<inter> units_of ys = {}" using spaced_above [OF s(5)] by fastforce
  show "units_of xs \<inter> units_of ys = {}" using spaced_below [OF s(1)] spaced_above [OF s(5)] s(2) by fastforce
qed

text \<open>Point the list before the taken block, or the list head, to \<open>y\<close>.\<close>

definition link_prev :: "nat option \<Rightarrow> nat \<Rightarrow> int list \<Rightarrow> nat \<Rightarrow> (int list \<times> nat) option" where
  "link_prev prev y mem fl =
     (case prev of
        Some q \<Rightarrow> do { n \<leftarrow> slob_units mem q; mem1 \<leftarrow> set_slob mem q n y; Some (mem1, fl) }
      | None \<Rightarrow> Some (mem, y))"

lemma link_prev_spec:
  assumes "length mem = PAGE_UNITS" "spaced 0 0 xs" "slob_chain mem xs x" "0 < y" "y \<le> PAGE_UNITS"
    "xs \<noteq> [] \<longrightarrow> fl = hoff xs 0"
  obtains mem' where "link_prev (prev_of xs) y mem fl = Some (mem', hoff xs y)" "slob_chain mem' xs y"
    "same_off (units_of xs) mem mem'"
proof (cases xs rule: rev_cases)
  case Nil
  then show thesis using that [of mem] by (simp add: link_prev_def prev_of_def)
next
  case (snoc ys b)
  obtain a n where b: "b = (a, n)" by (cases b)
  obtain mem' where m: "slob_units mem a = Some n" "set_slob mem a n y = Some mem'"
      "slob_chain mem' (ys @ [(a, n)]) y" "same_off {a..<a + n} mem mem'"
    using relink [of mem ys a n x 0 0 y] assms snoc b by auto
  have "fl = hoff xs y" using assms(6) snoc by (simp add: hoff_def split: list.splits)
  then show thesis using that [of mem'] m snoc b same_off_mono [OF m(4)]
    by (simp add: link_prev_def prev_of_def)
qed

lemma carve_def': "slob_carve prev c m units mem fl =
     do { next \<leftarrow> slob_next mem c;
          if m = units then link_prev prev next mem fl
          else do { (mem1, f) \<leftarrow> link_prev prev (c + units) mem fl;
                    mem2 \<leftarrow> set_slob mem1 (c + units) (m - units) next;
                    Some (mem2, f) } }"
  unfolding slob_carve_def link_prev_def ..

lemma carve_spec:
  assumes "length mem = PAGE_UNITS" "spaced 0 0 (xs @ (c, m) # ys)" "slob_chain mem (xs @ (c, m) # ys) PAGE_UNITS"
    "0 < units" "units \<le> m" "xs \<noteq> [] \<longrightarrow> fl = hoff xs 0"
  obtains mem' where
    "slob_carve (prev_of xs) c m units mem fl =
       Some (mem', hoff (xs @ rest_of (c + units) (m - units) @ ys) PAGE_UNITS)"
    "slob_chain mem' (xs @ rest_of (c + units) (m - units) @ ys) PAGE_UNITS"
    "same_off (units_of (xs @ [(c, m)])) mem mem'"
proof -
  note s = spaced_parts [OF assms(2)]
  let ?nx = "hoff ys PAGE_UNITS"
  have c: "slob_chain mem xs c" "encodes mem c m ?nx" "slob_chain mem ys PAGE_UNITS"
    using assms(3) by (simp_all add: slob_chain_append)
  have nx: "slob_next mem c = Some ?nx" using encodes_read(2) [OF c(2)] s(4) assms(1) by simp
  have nxb: "0 < ?nx" "?nx \<le> PAGE_UNITS" using spaced_hoff [OF s(5), of PAGE_UNITS] s(3,4) by simp_all
  show thesis
  proof (cases "m = units")
    case True
    obtain mem' where m: "link_prev (prev_of xs) ?nx mem fl = Some (mem', hoff xs ?nx)" "slob_chain mem' xs ?nx"
        "same_off (units_of xs) mem mem'"
      using link_prev_spec [OF assms(1) s(1) c(1) nxb assms(6)] .
    have "slob_chain mem' ys PAGE_UNITS" using slob_chain_frame [OF c(3) s(5) m(3) s(8)] .
    then show thesis using that [of mem'] m nx True same_off_mono [OF m(3)]
      by (simp add: carve_def' rest_of_def slob_chain_append)
  next
    case False
    let ?d = "c + units" and ?r = "m - units"
    have r: "0 < ?r" "?d + ?r = c + m" "0 < ?d" "?d \<le> PAGE_UNITS" using False assms(4,5) s(4) by simp_all
    obtain mem1 where m: "link_prev (prev_of xs) ?d mem fl = Some (mem1, hoff xs ?d)" "slob_chain mem1 xs ?d"
        "same_off (units_of xs) mem mem1"
      using link_prev_spec [OF assms(1) s(1) c(1) r(3,4) assms(6)] .
    have len: "length mem1 = PAGE_UNITS" using m(3) assms(1) by (simp add: same_off_def)
    have fit: "?d + ?r \<le> length mem1" using len s(4) r(2) by simp
    obtain mem2 where n: "set_slob mem1 ?d ?r ?nx = Some mem2" "encodes mem2 ?d ?r ?nx"
        "same_off {?d..<?d + ?r} mem1 mem2"
      using set_slob_encodes [OF r(1) fit nxb len] .
    have dis: "{?d..<?d + ?r} \<inter> units_of xs = {}" "{?d..<?d + ?r} \<inter> units_of ys = {}"
      using s(6,7) r(2) by fastforce+
    have "slob_chain mem2 xs ?d" using slob_chain_frame [OF m(2) s(1) n(3) dis(1)] .
    moreover have "slob_chain mem2 ys PAGE_UNITS"
      using slob_chain_frame [OF slob_chain_frame [OF c(3) s(5) m(3) s(8)] s(5) n(3) dis(2)] .
    moreover have "same_off (units_of (xs @ [(c, m)])) mem mem2"
      by (rule same_off_mono [OF same_off_trans [OF m(3) n(3)]]) (use r(2) in auto)
    ultimately show thesis using that [of mem2] m(1) n(1,2) nx False r(1)
      by (simp add: carve_def' rest_of_def slob_chain_append)
  qed
qed

lemma split_head_spec:
  assumes "length mem = PAGE_UNITS" "spaced 0 0 (xs @ (a, n) # ys)" "slob_chain mem (xs @ (a, n) # ys) PAGE_UNITS"
    "0 < delta" "delta < n"
  obtains mem' where "slob_split_head a n delta mem = Some mem'" "slob_units mem' (a + delta) = Some (n - delta)"
    "spaced 0 0 ((xs @ [(a, delta)]) @ (a + delta, n - delta) # ys)"
    "slob_chain mem' ((xs @ [(a, delta)]) @ (a + delta, n - delta) # ys) PAGE_UNITS"
    "same_off {a..<a + n} mem mem'"
proof -
  note s = spaced_parts [OF assms(2)]
  let ?nx = "hoff ys PAGE_UNITS" and ?c = "a + delta" and ?m = "n - delta"
  have c: "slob_chain mem xs a" "encodes mem a n ?nx" "slob_chain mem ys PAGE_UNITS"
    using assms(3) by (simp_all add: slob_chain_append)
  have nx: "slob_next mem a = Some ?nx" using encodes_read(2) [OF c(2)] s(4) assms(1) by simp
  have nxb: "0 < ?nx" "?nx \<le> PAGE_UNITS" using spaced_hoff [OF s(5), of PAGE_UNITS] s(3,4) by simp_all
  have r: "0 < ?m" "?c + ?m = a + n" "0 < ?c" "?c \<le> PAGE_UNITS" using assms(4,5) s(4) by simp_all
  have fit: "?c + ?m \<le> length mem" using s(4) r(2) assms(1) by simp
  obtain mem1 where m: "set_slob mem ?c ?m ?nx = Some mem1" "encodes mem1 ?c ?m ?nx" "same_off {?c..<?c + ?m} mem mem1"
    using set_slob_encodes [OF r(1) fit nxb assms(1)] .
  have len: "length mem1 = PAGE_UNITS" and fit1: "a + delta \<le> length mem1"
    using m(3) assms(1) r(4) by (simp_all add: same_off_def)
  obtain mem2 where n: "set_slob mem1 a delta ?c = Some mem2" "encodes mem2 a delta ?c" "same_off {a..<a + delta} mem1 mem2"
    using set_slob_encodes [OF assms(4) fit1 r(3,4) len] .
  have so: "same_off {a..<a + n} mem mem2"
    by (rule same_off_mono [OF same_off_trans [OF m(3) n(3)]]) (use r(2) assms(5) in auto)
  have e: "encodes mem2 ?c ?m ?nx" by (rule encodes_frame [OF m(2) r(1) n(3)]) auto
  have "slob_chain mem2 xs a" "slob_chain mem2 ys PAGE_UNITS"
    using slob_chain_frame [OF c(1) s(1) so s(6)] slob_chain_frame [OF c(3) s(5) so s(7)] .
  then have ch: "slob_chain mem2 ((xs @ [(a, delta)]) @ (?c, ?m) # ys) PAGE_UNITS"
    using n(2) e by (simp add: slob_chain_append)
  have sp: "spaced 0 0 ((xs @ [(a, delta)]) @ (?c, ?m) # ys)"
    using s r assms(4,5) by (simp add: spaced_append)
  have "slob_split_head a n delta mem = Some mem2" using nx m(1) n(1) by (simp add: slob_split_head_def)
  moreover have "slob_units mem2 ?c = Some ?m"
    using encodes_read(1) [OF e] so fit by (simp add: same_off_def)
  ultimately show thesis using that ch sp so by blast
qed

section \<open>Pages\<close>

definition pg_ok :: "slob_page \<Rightarrow> free_list \<Rightarrow> bool" where
  "pg_ok sp fl \<longleftrightarrow>
     length (sp_mem sp) = PAGE_UNITS \<and> spaced 1 0 fl \<and> sp_units sp = int (sum_list (map snd fl)) \<and>
     (fl \<noteq> [] \<longrightarrow> sp_freelist sp = hoff fl PAGE_UNITS \<and> slob_chain (sp_mem sp) fl PAGE_UNITS)"

text \<open>The free list after \<open>units\<close> were taken \<open>delta\<close> units into the block \<open>(a, n)\<close>.\<close>

definition taken :: "free_list \<Rightarrow> nat \<Rightarrow> nat \<Rightarrow> free_list \<Rightarrow> nat \<Rightarrow> nat \<Rightarrow> free_list" where
  "taken xs a n ys delta units = xs @ rest_of a delta @ rest_of (a + delta + units) (n - delta - units) @ ys"

lemma taken_spaced:
  assumes "spaced 1 0 (xs @ (a, n) # ys)" "0 < units" "delta + units \<le> n"
  shows "spaced 1 0 (taken xs a n ys delta units)"
proof -
  note s = spaced_parts [OF assms(1)]
  have "spaced 1 (after 1 0 xs) ((a, n) # ys)" using assms(1) by (simp add: spaced_append)
  then have "spaced 1 (after 1 0 xs) (rest_of a delta @ rest_of (a + delta + units) (n - delta - units) @ ys)"
    using assms(2,3) by (auto simp: rest_of_def elim: spaced_mono)
  then show ?thesis using s(1) by (simp add: taken_def spaced_append)
qed

lemma taken_units:
  assumes "spaced 1 0 (xs @ (a, n) # ys)" "0 < units" "delta + units \<le> n"
  shows "units_of (taken xs a n ys delta units) = units_of (xs @ (a, n) # ys) - {a + delta..<a + delta + units}"
    "sum_list (map snd (taken xs a n ys delta units)) + units = sum_list (map snd (xs @ (a, n) # ys))"
proof -
  note s = spaced_parts [OF assms(1)]
  have "units_of (taken xs a n ys delta units) =
      units_of xs \<union> ({a..<a + n} - {a + delta..<a + delta + units}) \<union> units_of ys"
    using assms(2,3) by (auto simp: taken_def rest_of_def)
  moreover have "{a + delta..<a + delta + units} \<subseteq> {a..<a + n}" using assms(3) by auto
  then have "{a + delta..<a + delta + units} \<inter> (units_of xs \<union> units_of ys) = {}" using s(6,7) by blast
  ultimately show "units_of (taken xs a n ys delta units) = units_of (xs @ (a, n) # ys) - {a + delta..<a + delta + units}"
    by auto
  show "sum_list (map snd (taken xs a n ys delta units)) + units = sum_list (map snd (xs @ (a, n) # ys))"
    using assms(3) by (auto simp: taken_def rest_of_def)
qed

definition same_flags :: "slob_page \<Rightarrow> slob_page \<Rightarrow> bool" where
  "same_flags sp sp' \<longleftrightarrow> sp_slob_free sp' = sp_slob_free sp \<and> sp_slab sp' = sp_slab sp \<and>
     sp_compound sp' = sp_compound sp"

lemma take_spec:
  assumes "pg_ok sp (xs @ (a, n) # ys)" "0 < units" "delta + units \<le> n"
  obtains sp' where "slob_take (prev_of xs) a n delta units sp = Some (a + delta, sp')"
    "pg_ok sp' (taken xs a n ys delta units)" "same_flags sp sp'"
    "same_off (units_of (xs @ (a, n) # ys)) (sp_mem sp) (sp_mem sp')"
proof -
  have len: "length (sp_mem sp) = PAGE_UNITS" and sp1: "spaced 1 0 (xs @ (a, n) # ys)"
    and ch: "slob_chain (sp_mem sp) (xs @ (a, n) # ys) PAGE_UNITS"
    and fl: "sp_freelist sp = hoff (xs @ (a, n) # ys) PAGE_UNITS"
    and un: "sp_units sp = int (sum_list (map snd (xs @ (a, n) # ys)))"
    using assms(1) by (simp_all add: pg_ok_def)
  have sp0: "spaced 0 0 (xs @ (a, n) # ys)" using spaced_gap [OF sp1] by simp
  have "\<exists>mem'. slob_take (prev_of xs) a n delta units sp = Some (a + delta,
      sp\<lparr>sp_mem := mem', sp_freelist := hoff (taken xs a n ys delta units) PAGE_UNITS, sp_units := sp_units sp - int units\<rparr>) \<and>
      slob_chain mem' (taken xs a n ys delta units) PAGE_UNITS \<and> same_off (units_of (xs @ (a, n) # ys)) (sp_mem sp) mem'"
  proof (cases "delta = 0")
    case True
    have h: "xs \<noteq> [] \<longrightarrow> sp_freelist sp = hoff xs 0" using fl by (auto simp: hoff_def split: list.splits)
    have un: "units \<le> n" using assms(3) by simp
    obtain mem' where m: "slob_carve (prev_of xs) a n units (sp_mem sp) (sp_freelist sp) =
        Some (mem', hoff (xs @ rest_of (a + units) (n - units) @ ys) PAGE_UNITS)"
        "slob_chain mem' (xs @ rest_of (a + units) (n - units) @ ys) PAGE_UNITS"
        "same_off (units_of (xs @ [(a, n)])) (sp_mem sp) mem'"
      using carve_spec [OF len sp0 ch assms(2) un h] .
    have "same_off (units_of (xs @ (a, n) # ys)) (sp_mem sp) mem'" by (rule same_off_mono [OF m(3)]) auto
    then show ?thesis using m(1,2) True by (auto simp: slob_take_def taken_def rest_of_def)
  next
    case False
    then have d: "0 < delta" "delta < n" "units \<le> n - delta" using assms(2,3) by simp_all
    obtain mem1 where m1: "slob_split_head a n delta (sp_mem sp) = Some mem1" "slob_units mem1 (a + delta) = Some (n - delta)"
        "spaced 0 0 ((xs @ [(a, delta)]) @ (a + delta, n - delta) # ys)"
        "slob_chain mem1 ((xs @ [(a, delta)]) @ (a + delta, n - delta) # ys) PAGE_UNITS"
        "same_off {a..<a + n} (sp_mem sp) mem1"
      using split_head_spec [OF len sp0 ch d(1,2)] .
    have len1: "length mem1 = PAGE_UNITS" using m1(5) len by (simp add: same_off_def)
    have h: "xs @ [(a, delta)] \<noteq> [] \<longrightarrow> sp_freelist sp = hoff (xs @ [(a, delta)]) 0"
      using fl by (cases xs) auto
    obtain mem' where m: "slob_carve (prev_of (xs @ [(a, delta)])) (a + delta) (n - delta) units mem1 (sp_freelist sp) =
        Some (mem', hoff ((xs @ [(a, delta)]) @ rest_of (a + delta + units) (n - delta - units) @ ys) PAGE_UNITS)"
        "slob_chain mem' ((xs @ [(a, delta)]) @ rest_of (a + delta + units) (n - delta - units) @ ys) PAGE_UNITS"
        "same_off (units_of ((xs @ [(a, delta)]) @ [(a + delta, n - delta)])) mem1 mem'"
      using carve_spec [OF len1 m1(3,4) assms(2) d(3) h] .
    have "same_off (units_of (xs @ (a, n) # ys)) (sp_mem sp) mem'"
      by (rule same_off_mono [OF same_off_trans [OF m1(5) m(3)]]) (use d in auto)
    then show ?thesis using m(1,2) m1(1,2) False
      by (auto simp: slob_take_def taken_def rest_of_def prev_of_def)
  qed
  then obtain mem' where m: "slob_take (prev_of xs) a n delta units sp = Some (a + delta,
      sp\<lparr>sp_mem := mem', sp_freelist := hoff (taken xs a n ys delta units) PAGE_UNITS, sp_units := sp_units sp - int units\<rparr>)"
      "slob_chain mem' (taken xs a n ys delta units) PAGE_UNITS" "same_off (units_of (xs @ (a, n) # ys)) (sp_mem sp) mem'"
    by blast
  show thesis
    by (rule that [OF m(1)]) (use m(2,3) len un taken_spaced [OF sp1 assms(2,3)] taken_units(2) [OF sp1 assms(2,3)]
        in \<open>auto simp: pg_ok_def same_flags_def same_off_def\<close>)
qed

section \<open>First fit\<close>

definition fits :: "nat \<Rightarrow> nat \<Rightarrow> nat \<Rightarrow> nat \<times> nat \<Rightarrow> bool" where
  "fits p units align b \<longleftrightarrow> units + slob_delta p (fst b) align \<le> snd b"

lemma scan_step:
  assumes "pg_ok sp (xs @ (a, n) # ys)"
  shows "slob_scan p units align prev a sp =
    (if fits p units align (a, n) then
       do { (b, sp') \<leftarrow> slob_take prev a n (slob_delta p a align) units sp; Some (Some b, sp') }
     else if ys = [] then Some (None, sp)
     else slob_scan p units align (Some a) (hoff ys PAGE_UNITS) sp)"
proof -
  have s: "spaced 1 0 (xs @ (a, n) # ys)" and len: "length (sp_mem sp) = PAGE_UNITS"
    and ch: "slob_chain (sp_mem sp) (xs @ (a, n) # ys) PAGE_UNITS" using assms by (simp_all add: pg_ok_def)
  note sp = spaced_parts [OF s]
  have e: "encodes (sp_mem sp) a n (hoff ys PAGE_UNITS)" using ch by (simp add: slob_chain_append)
  have r: "slob_units (sp_mem sp) a = Some n" "slob_next (sp_mem sp) a = Some (hoff ys PAGE_UNITS)"
    using encodes_read [OF e] sp(4) len by simp_all
  have "(hoff ys PAGE_UNITS mod PAGE_UNITS = 0) = (ys = [])"
    using sp(5) by (cases ys) auto
  then show ?thesis
    by (subst slob_scan.simps) (simp add: r slob_last_def fits_def)
qed

lemma prev_of_snoc [simp]: "prev_of (xs @ [(a, n)]) = Some a"
  by (simp add: prev_of_def)

lemma scan_none:
  assumes "pg_ok sp (xs @ ys)" "ys \<noteq> []" "\<forall>b \<in> set ys. \<not> fits p units align b"
  shows "slob_scan p units align (prev_of xs) (hoff ys PAGE_UNITS) sp = Some (None, sp)"
  using assms
proof (induction ys arbitrary: xs)
  case (Cons b ys)
  obtain a n where b: "b = (a, n)" by (cases b)
  have "pg_ok sp (xs @ (a, n) # ys)" using Cons.prems(1) b by simp
  then show ?case using Cons.IH [of "xs @ [(a, n)]"] Cons.prems b scan_step [of sp xs a n ys p units align] by simp
qed simp

lemma scan_some:
  assumes "pg_ok sp (xs @ zs @ (a, n) # ys)" "\<forall>b \<in> set zs. \<not> fits p units align b" "fits p units align (a, n)"
  shows "slob_scan p units align (prev_of xs) (hoff (zs @ (a, n) # ys) PAGE_UNITS) sp =
    do { (b, sp') \<leftarrow> slob_take (prev_of (xs @ zs)) a n (slob_delta p a align) units sp; Some (Some b, sp') }"
  using assms(1,2)
proof (induction zs arbitrary: xs)
  case Nil
  then show ?case using assms(3) scan_step [of sp xs a n ys] by simp
next
  case (Cons z zs)
  obtain c m where z: "z = (c, m)" by (cases z)
  have "pg_ok sp (xs @ (c, m) # (zs @ (a, n) # ys))" using Cons.prems(1) z by simp
  then show ?case using Cons.IH [of "xs @ [(c, m)]"] Cons.prems z
      scan_step [of sp xs c m "zs @ (a, n) # ys" p units align] by simp
qed

section \<open>Reinsertion\<close>

definition right_join :: "nat \<Rightarrow> nat \<Rightarrow> free_list \<Rightarrow> nat \<times> free_list" where
  "right_join b units ys =
     (case ys of [] \<Rightarrow> (units, []) | (c, m) # zs \<Rightarrow> if b + units = c then (units + m, zs) else (units, ys))"

lemma right_join_spec:
  assumes "right_join b units ys = (u, zs)" "spaced 1 (b + units) ys" "0 < units" "b + units \<le> PAGE_UNITS"
  shows "spaced 1 (b + u + 1) zs" "units \<le> u" "b + u \<le> PAGE_UNITS"
    "{b..<b + u} \<union> units_of zs = {b..<b + units} \<union> units_of ys" "u + sum_list (map snd zs) = units + sum_list (map snd ys)"
    "units_of zs \<subseteq> units_of ys" "{b..<b + u} \<subseteq> {b..<b + units} \<union> units_of ys"
proof -
  consider (join) m ws where "ys = (b + units, m) # ws" "u = units + m" "zs = ws"
    | (no) "u = units" "zs = ys" "\<forall>c m ws. ys = (c, m) # ws \<longrightarrow> c \<noteq> b + units"
    using assms(1) by (auto simp: right_join_def split: list.splits if_splits)
  then have "spaced 1 (b + u + 1) zs \<and> units \<le> u \<and> b + u \<le> PAGE_UNITS \<and>
      {b..<b + u} \<union> units_of zs = {b..<b + units} \<union> units_of ys \<and>
      u + sum_list (map snd zs) = units + sum_list (map snd ys) \<and> units_of zs \<subseteq> units_of ys"
  proof cases
    case join
    then have "{b..<b + u} = {b..<b + units} \<union> {b + units..<b + units + m}" by auto
    then show ?thesis using join assms(2) by (auto simp: add.assoc)
  next
    case no
    have "spaced 1 (b + units + 1) ys"
    proof (cases ys)
      case (Cons y ws)
      obtain c m where "y = (c, m)" by (cases y)
      then show ?thesis using no(3) Cons assms(2) by auto
    qed simp
    then show ?thesis using no assms(4) by simp
  qed
  then show "spaced 1 (b + u + 1) zs" "units \<le> u" "b + u \<le> PAGE_UNITS"
    "{b..<b + u} \<union> units_of zs = {b..<b + units} \<union> units_of ys" "u + sum_list (map snd zs) = units + sum_list (map snd ys)"
    "units_of zs \<subseteq> units_of ys" "{b..<b + u} \<subseteq> {b..<b + units} \<union> units_of ys"
    by auto
qed

lemma right_join_chain:
  "right_join b units ys = (u, zs) \<Longrightarrow> slob_chain mem ys PAGE_UNITS \<Longrightarrow> slob_chain mem zs PAGE_UNITS"
  by (auto simp: right_join_def split: list.splits if_splits)

lemma join_next_spec:
  assumes "length mem = PAGE_UNITS" "spaced 1 (b + units) ys" "slob_chain mem ys PAGE_UNITS" "0 < units"
    "b + units \<le> PAGE_UNITS" "right_join b units ys = (u, zs)"
  obtains mem' where "slob_join_next mem b units (hoff ys PAGE_UNITS) (ys = []) = Some mem'"
    "encodes mem' b u (hoff zs PAGE_UNITS)" "slob_chain mem' zs PAGE_UNITS"
    "same_off {b..<b + u} mem mem'"
proof -
  note j = right_join_spec [OF assms(6,2,4,5)]
  have nx: "0 < hoff zs PAGE_UNITS" "hoff zs PAGE_UNITS \<le> PAGE_UNITS" 
    using j(1) by (cases zs, simp, auto)+
  have u: "0 < u" "b + u \<le> length mem" using j(2,3) assms(1,4) by simp_all
  obtain mem' where m: "set_slob mem b u (hoff zs PAGE_UNITS) = Some mem'" "encodes mem' b u (hoff zs PAGE_UNITS)"
      "same_off {b..<b + u} mem mem'"
    using set_slob_encodes [OF u nx assms(1)] .
  have dis: "{b..<b + u} \<inter> units_of zs = {}" using spaced_above [OF j(1)] by fastforce
  have ch: "slob_chain mem' zs PAGE_UNITS" using slob_chain_frame [OF right_join_chain [OF assms(6,3)] j(1) m(3) dis] .
  have "slob_join_next mem b units (hoff ys PAGE_UNITS) (ys = []) = set_slob mem b u (hoff zs PAGE_UNITS)"
  proof (cases ys)
    case (Cons y ws)
    obtain c k where y: "y = (c, k)" by (cases y)
    have "slob_units mem c = Some k" "slob_next mem c = Some (hoff ws PAGE_UNITS)"
      using encodes_read [of mem c k "hoff ws PAGE_UNITS"] assms(1-3) Cons y by simp_all
    then show ?thesis using assms(6) Cons y by (auto simp: slob_join_next_def right_join_def split: if_splits)
  qed (use assms(6) in \<open>simp add: slob_join_next_def right_join_def\<close>)
  then show thesis using that m ch by simp
qed

lemma find_spec:
  assumes "length mem = PAGE_UNITS" "spaced 1 l ((a, n) # xs @ ys)" "slob_chain mem ((a, n) # xs @ ys) PAGE_UNITS"
    "\<forall>x \<in> set xs. fst x < b" "b \<le> hoff ys PAGE_UNITS"
  shows "slob_find mem b a = Some (fst (last ((a, n) # xs)), hoff ys PAGE_UNITS)"
  using assms(2-4)
proof (induction xs arbitrary: a n l)
  case Nil
  then have "slob_next mem a = Some (hoff ys PAGE_UNITS)"
    using encodes_read(2) [of mem a n] assms(1) by simp
  then show ?case using assms(5) by (subst slob_find.simps) simp
next
  case (Cons x xs)
  obtain c m where x: "x = (c, m)" by (cases x)
  have "slob_next mem a = Some c" using encodes_read(2) [of mem a n c] Cons.prems assms(1) x by simp
  then show ?case using Cons.IH [of "a + n + 1" c m] Cons.prems x by (subst slob_find.simps) simp
qed

text \<open>The free list after the units \<open>b, \<dots>\<close> were put back between \<open>xs\<close> and \<open>ys\<close>.\<close>

definition joined :: "free_list \<Rightarrow> nat \<Rightarrow> nat \<Rightarrow> free_list \<Rightarrow> free_list" where
  "joined xs b units ys =
     (case right_join b units ys of (u, zs) \<Rightarrow>
        if xs \<noteq> [] \<and> fst (last xs) + snd (last xs) = b
        then butlast xs @ (fst (last xs), u + snd (last xs)) # zs
        else xs @ (b, u) # zs)"

lemma joined_spec:
  assumes "spaced 1 0 xs" "after 0 0 xs \<le> b" "spaced 1 (b + units) ys" "0 < units" "b + units \<le> PAGE_UNITS"
  shows "spaced 1 0 (joined xs b units ys)"
    "units_of (joined xs b units ys) = units_of (xs @ ys) \<union> {b..<b + units}"
    "sum_list (map snd (joined xs b units ys)) = sum_list (map snd (xs @ ys)) + units"
    "joined xs b units ys \<noteq> []"
proof -
  obtain u zs where r: "right_join b units ys = (u, zs)" by (cases "right_join b units ys")
  note j = right_join_spec [OF r assms(3-5)]
  have "spaced 1 0 (joined xs b units ys) \<and>
    units_of (joined xs b units ys) = units_of xs \<union> ({b..<b + u} \<union> units_of zs) \<and>
    sum_list (map snd (joined xs b units ys)) = sum_list (map snd xs) + (u + sum_list (map snd zs)) \<and>
    joined xs b units ys \<noteq> []"
  proof (cases xs rule: rev_cases)
    case Nil
    then show ?thesis using r j assms(4) by (simp add: joined_def)
  next
    case (snoc vs v)
    obtain a n where v: "v = (a, n)" by (cases v)
    have s: "spaced 1 0 vs" "after 1 0 vs \<le> a" "0 < n" "a + n \<le> b"
      using assms(1,2) snoc v by (simp_all add: spaced_append)
    show ?thesis
    proof (cases "a + n = b")
      case True
      then have "{a..<a + (u + n)} = {a..<a + n} \<union> {b..<b + u}" by auto
      then show ?thesis using True s r j(1-3) snoc v
        by (auto simp: joined_def spaced_append add.commute add.left_commute)
    next
      case False
      then show ?thesis using s r j(1-3) snoc v assms(1,4) by (simp add: joined_def spaced_append Un_assoc)
    qed
  qed
  then show "spaced 1 0 (joined xs b units ys)"
    "units_of (joined xs b units ys) = units_of (xs @ ys) \<union> {b..<b + units}"
    "sum_list (map snd (joined xs b units ys)) = sum_list (map snd (xs @ ys)) + units"
    "joined xs b units ys \<noteq> []"
    using j(4,5) by auto
qed

lemma split_at:
  assumes "spaced 1 l fl" "{b..<b + units} \<inter> units_of fl = {}" "0 < units" "l \<le> k" "after 0 0 zs \<le> b"
  shows "\<exists>xs ys. fl = xs @ ys \<and> after 0 0 (zs @ xs) \<le> b \<and> spaced 1 (b + units) ys"
  using assms(1,2,4,5)
proof (induction fl arbitrary: l zs k)
  case Nil
  then show ?case by auto
next
  case (Cons x fl)
  obtain a n where x: "x = (a, n)" by (cases x)
  show ?case
  proof (cases "a + n \<le> b")
    case True
    then obtain xs ys where "fl = xs @ ys" "after 0 0 ((zs @ [x]) @ xs) \<le> b" "spaced 1 (b + units) ys"
      using Cons.IH [of "a + n + 1" "a + n + 1" "zs @ [x]"] Cons.prems x by (auto simp: Int_Un_distrib)
    then show ?thesis by (intro exI [of _ "x # xs"] exI [of _ ys]) simp
  next
    case False
    have "a \<in> {a..<a + n}" "b \<in> {b..<b + units}" using Cons.prems(1) x assms(3) by auto
    then have "\<not> (b \<le> a \<and> a < b + units)" "\<not> (a \<le> b \<and> b < a + n)"
      using Cons.prems(2) x by fastforce+
    then have "b + units \<le> a" using False by linarith
    then show ?thesis using Cons.prems(1,4) x by (intro exI [of _ "[]"] exI [of _ "x # fl"]) simp
  qed
qed

definition page_with :: "slob_page \<Rightarrow> int list \<Rightarrow> nat \<Rightarrow> nat \<Rightarrow> slob_page" where
  "page_with sp mem fl units = sp\<lparr>sp_units := sp_units sp + int units, sp_mem := mem, sp_freelist := fl\<rparr>"

lemma reinsert_front:
  assumes "pg_ok sp ys" "ys \<noteq> []" "spaced 1 (b + units) ys" "0 < units" "b + units \<le> PAGE_UNITS"
  obtains mem' where "slob_reinsert b units sp = Some (page_with sp mem' b units)"
    "slob_chain mem' (joined [] b units ys) PAGE_UNITS" "same_off (units_of ys \<union> {b..<b + units}) (sp_mem sp) mem'"
proof -
  obtain u zs where r: "right_join b units ys = (u, zs)" by (cases "right_join b units ys")
  have p: "length (sp_mem sp) = PAGE_UNITS" "slob_chain (sp_mem sp) ys PAGE_UNITS" "sp_freelist sp = hoff ys PAGE_UNITS"
    using assms(1,2) by (simp_all add: pg_ok_def)
  obtain mem' where m: "slob_join_next (sp_mem sp) b units (hoff ys PAGE_UNITS) (ys = []) = Some mem'"
      "encodes mem' b u (hoff zs PAGE_UNITS)" "slob_chain mem' zs PAGE_UNITS" "same_off {b..<b + u} (sp_mem sp) mem'"
    using join_next_spec [OF p(1) assms(3) p(2) assms(4,5) r] .
  have "b < sp_freelist sp" using p(3) assms(2-4) by (cases ys) auto
  then have "slob_reinsert b units sp = Some (page_with sp mem' b units)"
    using m(1) assms(2) p(3) by (simp add: slob_reinsert_def page_with_def)
  moreover have "same_off (units_of ys \<union> {b..<b + units}) (sp_mem sp) mem'"
    by (rule same_off_mono [OF m(4)]) (use right_join_spec(7) [OF r assms(3-5)] in auto)
  ultimately show thesis using that m(2,3) r by (simp add: joined_def)
qed

lemma spaced_start: "spaced g l xs \<Longrightarrow> x \<in> set xs \<Longrightarrow> fst x \<in> units_of xs"
  by (induction g l xs rule: spaced.induct) auto

lemma hoff_zs_bounds: "spaced 1 (b + 1) zs \<Longrightarrow> 0 < hoff zs PAGE_UNITS \<and> hoff zs PAGE_UNITS \<le> PAGE_UNITS"
  by (cases zs) auto

text \<open>The list before the new block, after its last block was made to point to the new one.\<close>

lemma reinsert_link:
  assumes "length mem = PAGE_UNITS" "spaced 1 0 (vs @ [(a, n)])" "a + n \<le> b" "spaced 1 (b + u + 1) zs" "0 < u"
    "b + u \<le> PAGE_UNITS" "slob_chain mem vs a" "encodes mem b u (hoff zs PAGE_UNITS)" "slob_chain mem zs PAGE_UNITS"
  obtains mem' where
    "(if a + n = b then set_slob mem a (u + n) (hoff zs PAGE_UNITS) else set_slob mem a n b) = Some mem'"
    "slob_chain mem' (if a + n = b then vs @ (a, u + n) # zs else vs @ (a, n) # (b, u) # zs) PAGE_UNITS"
    "same_off ({a..<a + n} \<union> {b..<b + u}) mem mem'"
proof -
  have s: "spaced 1 0 vs" "after 1 0 vs \<le> a" "0 < n" using assms(2) by (simp_all add: spaced_append)
  have vs: "units_of vs \<inter> {a..<b + u} = {}" using spaced_below [OF s(1)] s(2) by fastforce
  have zs: "{a..<b + u} \<inter> units_of zs = {}" using spaced_above [OF assms(4)] by fastforce
  have hz: "0 < hoff zs PAGE_UNITS" "hoff zs PAGE_UNITS \<le> PAGE_UNITS"
    using hoff_zs_bounds [of "b + u" zs] assms(4) by simp_all
  have sub: "{a..<a + n} \<union> {b..<b + u} \<subseteq> {a..<b + u}" using assms(3) s(3) by auto
  have keep: "slob_chain mem' vs a" "slob_chain mem' zs PAGE_UNITS"
    if "same_off ({a..<a + n} \<union> {b..<b + u}) mem mem'" for mem'
    using slob_chain_frame [OF assms(7) s(1) that] slob_chain_frame [OF assms(9,4) that] vs zs sub by blast+
  show thesis
  proof (cases "a + n = b")
    case True
    have fit: "0 < u + n" "a + (u + n) \<le> length mem" using assms(1,5,6) True by simp_all
    obtain mem' where m: "set_slob mem a (u + n) (hoff zs PAGE_UNITS) = Some mem'"
        "encodes mem' a (u + n) (hoff zs PAGE_UNITS)" "same_off {a..<a + (u + n)} mem mem'"
      using set_slob_encodes [OF fit hz assms(1)] .
    have so: "same_off ({a..<a + n} \<union> {b..<b + u}) mem mem'" by (rule same_off_mono [OF m(3)]) (use True in auto)
    show thesis using that [of mem'] m(1,2) True so keep [OF so] by (simp add: slob_chain_append)
  next
    case False
    have fit: "a + n \<le> length mem" "0 < b" "b \<le> PAGE_UNITS" using assms(1,3,6) s(3) by simp_all
    obtain mem' where m: "set_slob mem a n b = Some mem'" "encodes mem' a n b" "same_off {a..<a + n} mem mem'"
      using set_slob_encodes [OF s(3) fit assms(1)] .
    have so: "same_off ({a..<a + n} \<union> {b..<b + u}) mem mem'" by (rule same_off_mono [OF m(3)]) auto
    have "encodes mem' b u (hoff zs PAGE_UNITS)" by (rule encodes_frame [OF assms(8,5) m(3)]) (use assms(3) in auto)
    then show thesis using that [of mem'] m(1,2) False so keep [OF so] by (simp add: slob_chain_append)
  qed
qed

lemma reinsert_back:
  assumes "pg_ok sp ((vs @ [(a, n)]) @ ys)" "a + n \<le> b" "spaced 1 (b + units) ys" "0 < units" "b + units \<le> PAGE_UNITS"
  obtains mem' where "slob_reinsert b units sp = Some (page_with sp mem' (sp_freelist sp) units)"
    "slob_chain mem' (joined (vs @ [(a, n)]) b units ys) PAGE_UNITS"
    "same_off (units_of ((vs @ [(a, n)]) @ ys) \<union> {b..<b + units}) (sp_mem sp) mem'"
proof -
  obtain u zs where r: "right_join b units ys = (u, zs)" by (cases "right_join b units ys")
  note j = right_join_spec [OF r assms(3-5)]
  have s: "spaced 1 0 (vs @ (a, n) # ys)" and p: "length (sp_mem sp) = PAGE_UNITS"
    "slob_chain (sp_mem sp) (vs @ (a, n) # ys) PAGE_UNITS" "sp_freelist sp = hoff (vs @ [(a, n)]) PAGE_UNITS"
    using assms(1) by (auto simp: pg_ok_def)
  note q = spaced_parts [OF s]
  have c: "slob_chain (sp_mem sp) vs a" "encodes (sp_mem sp) a n (hoff ys PAGE_UNITS)" "slob_chain (sp_mem sp) ys PAGE_UNITS"
    using p(2) by (simp_all add: slob_chain_append)
  obtain mem1 where m: "slob_join_next (sp_mem sp) b units (hoff ys PAGE_UNITS) (ys = []) = Some mem1"
      "encodes mem1 b u (hoff zs PAGE_UNITS)" "slob_chain mem1 zs PAGE_UNITS" "same_off {b..<b + u} (sp_mem sp) mem1"
    using join_next_spec [OF p(1) assms(3) c(3) assms(4,5) r] .
  have nx: "slob_last (sp_mem sp) a = Some (ys = [])"
  proof -
    have "slob_next (sp_mem sp) a = Some (hoff ys PAGE_UNITS)" using encodes_read(2) [OF c(2)] q(4) p(1) by simp
    moreover have "(hoff ys PAGE_UNITS mod PAGE_UNITS = 0) = (ys = [])" using q(5) by (cases ys) auto
    ultimately show ?thesis by (simp add: slob_last_def)
  qed
  have sv: "spaced 1 0 (vs @ [(a, n)])" using s by (simp add: spaced_append)
  have lt: "\<And>v. v \<in> units_of (vs @ [(a, n)]) \<Longrightarrow> v < b" using spaced_below [OF sv] assms(2) by fastforce
  have start: "\<forall>x \<in> set (vs @ [(a, n)]). fst x < b" using spaced_start [OF sv] lt by blast
  obtain a0 n0 ws where w: "vs @ [(a, n)] = (a0, n0) # ws" by (cases vs) auto
  have "b \<le> hoff ys PAGE_UNITS" using assms(3,5) by (cases ys) auto
  moreover have eq: "vs @ (a, n) # ys = (a0, n0) # ws @ ys"
    using arg_cong [OF w, of "\<lambda>zs. zs @ ys"] by simp
  moreover have "\<forall>x \<in> set ws. fst x < b" using start unfolding w by simp
  ultimately have "slob_find (sp_mem sp) b a0 = Some (fst (last ((a0, n0) # ws)), hoff ys PAGE_UNITS)"
    using find_spec [OF p(1) s [unfolded eq] p(2) [unfolded eq]] by blast
  moreover have "last ((a0, n0) # ws) = (a, n)" using w by (metis last_snoc)
  moreover have "sp_freelist sp = a0" using p(3) unfolding w by simp
  ultimately have find: "slob_find (sp_mem sp) b (sp_freelist sp) = Some (a, hoff ys PAGE_UNITS)" by simp
  have nlt: "\<not> b < sp_freelist sp" using p(3) w start by simp
  have len: "length mem1 = PAGE_UNITS" using m(4) p(1) by (simp add: same_off_def)
  have dis: "{b..<b + u} \<inter> {a..<a + n} = {}" "{b..<b + u} \<inter> units_of vs = {}" using lt by fastforce+
  have e: "encodes mem1 a n (hoff ys PAGE_UNITS)" "slob_chain mem1 vs a"
    using encodes_frame [OF c(2) q(3) m(4) dis(1)] slob_chain_frame [OF c(1) q(1) m(4) dis(2)] .
  have rd: "slob_units mem1 a = Some n" "slob_units mem1 b = Some u" "slob_next mem1 b = Some (hoff zs PAGE_UNITS)"
    using encodes_read [OF e(1)] encodes_read [OF m(2)] len q(4) j(3) by simp_all
  have u: "0 < u" using j(2) assms(4) by simp
  obtain mem2 where n:
      "(if a + n = b then set_slob mem1 a (u + n) (hoff zs PAGE_UNITS) else set_slob mem1 a n b) = Some mem2"
      "slob_chain mem2 (if a + n = b then vs @ (a, u + n) # zs else vs @ (a, n) # (b, u) # zs) PAGE_UNITS"
      "same_off ({a..<a + n} \<union> {b..<b + u}) mem1 mem2"
    using reinsert_link [OF len sv assms(2) j(1) u j(3) e(2) m(2,3)] .
  have "slob_reinsert b units sp = Some (page_with sp mem2 (sp_freelist sp) units)"
    using n(1) by (auto simp: slob_reinsert_def nlt find nx m(1) rd page_with_def split: if_splits)
  moreover have "slob_chain mem2 (joined (vs @ [(a, n)]) b units ys) PAGE_UNITS"
    using n(2) r by (cases "a + n = b") (simp_all add: joined_def)
  moreover have "same_off (units_of ((vs @ [(a, n)]) @ ys) \<union> {b..<b + units}) (sp_mem sp) mem2"
    by (rule same_off_mono [OF same_off_trans [OF m(4) n(3)]]) (use j(7) in auto)
  ultimately show thesis using that by blast
qed

lemma reinsert_spec:
  assumes "pg_ok sp fl" "fl \<noteq> []" "{b..<b + units} \<inter> units_of fl = {}" "0 < units" "b + units \<le> PAGE_UNITS"
  obtains sp' fl' where "slob_reinsert b units sp = Some sp'" "pg_ok sp' fl'" "fl' \<noteq> []"
    "units_of fl' = units_of fl \<union> {b..<b + units}" "same_flags sp sp'"
    "same_off (units_of fl \<union> {b..<b + units}) (sp_mem sp) (sp_mem sp')"
proof -
  have s: "spaced 1 0 fl" "length (sp_mem sp) = PAGE_UNITS" using assms(1) by (simp_all add: pg_ok_def)
  obtain xs ys where f: "fl = xs @ ys" "after 0 0 xs \<le> b" "spaced 1 (b + units) ys"
    using split_at [OF s(1) assms(3,4), of 0 "[]"] by auto
  have xs: "spaced 1 0 xs" using s(1) f(1) by (simp add: spaced_append)
  note j = joined_spec [OF xs f(2,3) assms(4,5)]
  have "\<exists>mem'. slob_reinsert b units sp = Some (page_with sp mem' (hoff (joined xs b units ys) PAGE_UNITS) units) \<and>
    slob_chain mem' (joined xs b units ys) PAGE_UNITS \<and> same_off (units_of fl \<union> {b..<b + units}) (sp_mem sp) mem'"
  proof (cases xs rule: rev_cases)
    case Nil
    have "pg_ok sp ys" "ys \<noteq> []" using assms(1,2) f(1) Nil by simp_all
    then obtain mem' where "slob_reinsert b units sp = Some (page_with sp mem' b units)"
        "slob_chain mem' (joined [] b units ys) PAGE_UNITS" "same_off (units_of ys \<union> {b..<b + units}) (sp_mem sp) mem'"
      using reinsert_front [OF _ _ f(3) assms(4,5)] by blast
    moreover have "hoff (joined [] b units ys) PAGE_UNITS = b" by (simp add: joined_def split: prod.splits)
    ultimately show ?thesis using f(1) Nil by auto
  next
    case (snoc vs v)
    obtain a n where v: "v = (a, n)" by (cases v)
    have "pg_ok sp ((vs @ [(a, n)]) @ ys)" "a + n \<le> b" using assms(1) f(1,2) snoc v by simp_all
    then obtain mem' where "slob_reinsert b units sp = Some (page_with sp mem' (sp_freelist sp) units)"
        "slob_chain mem' (joined (vs @ [(a, n)]) b units ys) PAGE_UNITS"
        "same_off (units_of ((vs @ [(a, n)]) @ ys) \<union> {b..<b + units}) (sp_mem sp) mem'"
      using reinsert_back [OF _ _ f(3) assms(4,5)] by blast
    moreover have "sp_freelist sp = hoff (joined xs b units ys) PAGE_UNITS"
      using assms(1,2) f(1) snoc v by (cases vs) (auto simp: pg_ok_def joined_def split: prod.splits)
    ultimately show ?thesis using f(1) snoc v by auto
  qed
  then obtain mem' where m: "slob_reinsert b units sp = Some (page_with sp mem' (hoff (joined xs b units ys) PAGE_UNITS) units)"
    "slob_chain mem' (joined xs b units ys) PAGE_UNITS" "same_off (units_of fl \<union> {b..<b + units}) (sp_mem sp) mem'" by blast
  show thesis
    by (rule that [OF m(1), of "joined xs b units ys"])
      (use m(2,3) j f(1) s(2) assms(1) in \<open>auto simp: pg_ok_def page_with_def same_flags_def same_off_def\<close>)
qed

end
