(* ===== verification/Slob_Alloc.thy ===== *)
theory Slob_Alloc
  imports Slob_Props
begin

text \<open>
  The SLOB heap: its invariant over the pages, the three page lists and the live objects,
  and the allocation of objects.
\<close>

section \<open>The invariant\<close>

text \<open>Objects are a map from owners to address and size; units are numbered through all pages.\<close>

type_synonym 'k objects = "'k \<rightharpoonup> nat \<times> nat"

definition obj_units :: "nat \<times> nat \<Rightarrow> nat set" where
  "obj_units x = {fst x div 2..<fst x div 2 + SLOB_UNITS (snd x)}"

definition used :: "'k objects \<Rightarrow> nat \<Rightarrow> bool" where
  "used ob w \<longleftrightarrow> (\<exists>k x. ob k = Some x \<and> w \<in> obj_units x)"

definition cell :: "slob_heap \<Rightarrow> nat \<Rightarrow> int" where
  "cell h w = sp_mem (sh_page h (w div PAGE_UNITS)) ! (w mod PAGE_UNITS)"

definition obj_ok :: "slob_heap \<Rightarrow> nat \<times> nat \<Rightarrow> bool" where
  "obj_ok h x \<longleftrightarrow> 0 < snd x \<and> even (fst x) \<and> sp_slab (sh_page h (fst x div PAGE_SIZE)) \<and>
     fst x mod PAGE_SIZE div 2 + SLOB_UNITS (snd x) \<le> PAGE_UNITS"

text \<open>Page numbers of 64-bit addresses; page 0 is never handed out.\<close>

definition page_no :: "nat \<Rightarrow> bool" where
  "page_no p \<longleftrightarrow> 0 < p \<and> p < 2 ^ 52"

definition page_ok :: "slob_heap \<Rightarrow> 'k objects \<Rightarrow> nat \<Rightarrow> bool" where
  "page_ok h ob p \<longleftrightarrow> page_no p \<and>
     (\<exists>fl. pg_ok (sh_page h p) fl \<and> (sp_slob_free (sh_page h p) \<longleftrightarrow> fl \<noteq> []) \<and>
           (\<forall>u < PAGE_UNITS. u \<in> units_of fl \<longleftrightarrow> \<not> used ob (PAGE_UNITS * p + u)))"

definition lists_ok :: "slob_heap \<Rightarrow> bool" where
  "lists_ok h \<longleftrightarrow> (\<forall>l. distinct (sh_list h l)) \<and>
     (\<forall>l l' p. p \<in> set (sh_list h l) \<longrightarrow> p \<in> set (sh_list h l') \<longrightarrow> l = l') \<and>
     (\<forall>p. (\<exists>l. p \<in> set (sh_list h l)) \<longleftrightarrow> sp_slab (sh_page h p) \<and> sp_slob_free (sh_page h p))"

definition supply_ok :: "slob_heap \<Rightarrow> bool" where
  "supply_ok h \<longleftrightarrow> distinct (filter (\<lambda>x. fst x = 0) (sh_supply h)) \<and>
     (\<forall>p. (0, p) \<in> set (sh_supply h) \<longrightarrow>
        page_no p \<and> \<not> sp_slab (sh_page h p) \<and> length (sp_mem (sh_page h p)) = PAGE_UNITS)"

definition objects_ok :: "slob_heap \<Rightarrow> 'k objects \<Rightarrow> bool" where
  "objects_ok h ob \<longleftrightarrow> (\<forall>k x. ob k = Some x \<longrightarrow> obj_ok h x) \<and>
     (\<forall>k k' x x'. ob k = Some x \<longrightarrow> ob k' = Some x' \<longrightarrow> k \<noteq> k' \<longrightarrow> obj_units x \<inter> obj_units x' = {})"

definition heap_ok :: "slob_heap \<Rightarrow> 'k objects \<Rightarrow> bool" where
  "heap_ok h ob \<longleftrightarrow> objects_ok h ob \<and> (\<forall>p. sp_slab (sh_page h p) \<longrightarrow> page_ok h ob p) \<and>
     lists_ok h \<and> supply_ok h"

lemma obj_in_page:
  assumes "obj_ok h x" "w \<in> obj_units x"
  shows "w div PAGE_UNITS = fst x div PAGE_SIZE" "fst x mod PAGE_SIZE div 2 \<le> w mod PAGE_UNITS"
    "w mod PAGE_UNITS < fst x mod PAGE_SIZE div 2 + SLOB_UNITS (snd x)"
proof -
  have a: "fst x div 2 = PAGE_UNITS * (fst x div PAGE_SIZE) + fst x mod PAGE_SIZE div 2"
  proof -
    have "fst x = 2 * (PAGE_UNITS * (fst x div PAGE_SIZE)) + fst x mod PAGE_SIZE" by simp
    moreover have "(2 * c + r) div 2 = c + r div 2" for c r :: nat by simp
    ultimately show ?thesis by metis
  qed
  obtain i where i: "w = fst x div 2 + i" "i < SLOB_UNITS (snd x)"
    using assms(2) by (auto simp: obj_units_def le_iff_add)
  have lt: "fst x mod PAGE_SIZE div 2 + i < PAGE_UNITS" using assms(1) i(2) by (simp add: obj_ok_def)
  have w: "w = PAGE_UNITS * (fst x div PAGE_SIZE) + (fst x mod PAGE_SIZE div 2 + i)" using a i(1) by simp
  show "w div PAGE_UNITS = fst x div PAGE_SIZE" unfolding w using lt by simp
  show "fst x mod PAGE_SIZE div 2 \<le> w mod PAGE_UNITS" "w mod PAGE_UNITS < fst x mod PAGE_SIZE div 2 + SLOB_UNITS (snd x)"
    unfolding w using lt i(2) by simp_all
qed

lemma obj_units_at: "obj_units (PAGE_SIZE * p + 2 * b, sz) = {PAGE_UNITS * p + b..<PAGE_UNITS * p + b + SLOB_UNITS sz}"
proof -
  have "(PAGE_SIZE * p + 2 * b) div 2 = PAGE_UNITS * p + b" by simp
  then show ?thesis by (simp add: obj_units_def)
qed

lemma used_upd:
  assumes "k \<notin> dom ob"
  shows "used (ob(k \<mapsto> x)) w \<longleftrightarrow> used ob w \<or> w \<in> obj_units x"
proof -
  have "used ob w \<Longrightarrow> used (ob(k \<mapsto> x)) w" using assms unfolding used_def by (metis domIff fun_upd_other option.distinct(1))
  moreover have "w \<in> obj_units x \<Longrightarrow> used (ob(k \<mapsto> x)) w" unfolding used_def by (metis fun_upd_same)
  moreover have "used (ob(k \<mapsto> x)) w \<Longrightarrow> used ob w \<or> w \<in> obj_units x"
    unfolding used_def by (metis fun_upd_apply option.inject)
  ultimately show ?thesis by blast
qed

lemma usedI: "ob k = Some x \<Longrightarrow> w \<in> obj_units x \<Longrightarrow> used ob w"
  unfolding used_def by blast

lemma objects_okD: "objects_ok h ob \<Longrightarrow> ob k = Some x \<Longrightarrow> obj_ok h x"
  unfolding objects_ok_def by blast

text \<open>Taking units of a page that belong to no object for a new object.\<close>

lemma objects_ok_add:
  assumes "objects_ok h ob" "k \<notin> dom ob" "obj_ok h x" "\<forall>w \<in> obj_units x. \<not> used ob w"
  shows "objects_ok h (ob(k \<mapsto> x))"
  unfolding objects_ok_def
proof (intro conjI allI impI)
  fix j y
  assume "(ob(k \<mapsto> x)) j = Some y"
  then show "obj_ok h y" using assms(3) objects_okD [OF assms(1), of j y] by (cases "j = k") auto
next
  fix i j y z
  assume y: "(ob(k \<mapsto> x)) i = Some y" and z: "(ob(k \<mapsto> x)) j = Some z" and ij: "i \<noteq> j"
  have free: "obj_units x \<inter> obj_units v = {}" if "ob n = Some v" for n v
    using assms(4) usedI [of ob n v] that by blast
  show "obj_units y \<inter> obj_units z = {}"
  proof (cases "i = k \<or> j = k")
    case True
    then show ?thesis using y z ij free by fastforce
  next
    case False
    then show ?thesis using y z ij assms(1) unfolding objects_ok_def by (metis fun_upd_other)
  qed
qed

lemma objects_ok_page:
  "objects_ok h ob \<Longrightarrow> (\<And>p. sp_slab (sh_page h' p) = sp_slab (sh_page h p)) \<Longrightarrow> objects_ok h' ob"
  by (simp add: objects_ok_def obj_ok_def)

text \<open>The heap after one of its pages and the objects in it have changed.\<close>

lemma heap_ok_set:
  assumes "heap_ok h ob" "sh_page h' = (sh_page h)(p := sp)" "supply_ok h'"
    "page_no p" "pg_ok sp fl" "sp_slob_free sp \<longleftrightarrow> fl \<noteq> []"
    "\<forall>u < PAGE_UNITS. u \<in> units_of fl \<longleftrightarrow> \<not> used ob' (PAGE_UNITS * p + u)"
    "\<And>q u. q \<noteq> p \<Longrightarrow> u < PAGE_UNITS \<Longrightarrow> used ob' (PAGE_UNITS * q + u) = used ob (PAGE_UNITS * q + u)"
    "objects_ok h' ob'" "lists_ok h'"
  shows "heap_ok h' ob'"
proof -
  have "page_ok h' ob' q" if q: "sp_slab (sh_page h' q)" for q
  proof (cases "q = p")
    case True
    then show ?thesis using assms(2,4-7) by (auto simp: page_ok_def)
  next
    case False
    then have "page_ok h ob q" using q assms(1,2) by (simp add: heap_ok_def)
    then show ?thesis using False assms(2,8) by (simp add: page_ok_def)
  qed
  then show ?thesis using assms(3,9,10) by (simp add: heap_ok_def)
qed

lemma supply_ok_same:
  "supply_ok h \<Longrightarrow> sh_page h' = (sh_page h)(p := sp) \<Longrightarrow> sh_supply h' = sh_supply h \<Longrightarrow>
   sp_slab (sh_page h p) \<Longrightarrow> supply_ok h'"
  by (auto simp: supply_ok_def)

lemma lists_ok_same:
  assumes "lists_ok h" "\<And>l. mset (sh_list h' l) = mset (sh_list h l)"
    "\<And>p. sp_slab (sh_page h' p) = sp_slab (sh_page h p) \<and> sp_slob_free (sh_page h' p) = sp_slob_free (sh_page h p)"
  shows "lists_ok h'"
proof -
  have "\<And>l. distinct (sh_list h' l) = distinct (sh_list h l)" "\<And>l. set (sh_list h' l) = set (sh_list h l)"
    using mset_eq_imp_distinct_iff [OF assms(2)] mset_eq_setD [OF assms(2)] .
  then show ?thesis using assms(1,3) by (simp add: lists_ok_def)
qed

lemma lists_ok_clear:
  assumes "lists_ok h" "sh_list h' = (\<lambda>l. remove1 p (sh_list h l))"
    "sh_page h' = (sh_page h)(p := sp)" "\<not> (sp_slab sp \<and> sp_slob_free sp)"
  shows "lists_ok h'"
proof -
  have d: "\<And>l. distinct (sh_list h l)" using assms(1) by (simp add: lists_ok_def)
  then have "\<And>l. set (sh_list h' l) = set (sh_list h l) - {p}" using assms(2) by simp
  then show ?thesis using assms d unfolding lists_ok_def by (auto simp: distinct_remove1)
qed

lemma lists_ok_add:
  assumes "lists_ok h" "sh_list h' = (sh_list h)(l := p # sh_list h l)"
    "sh_page h' = (sh_page h)(p := sp)" "sp_slab sp" "sp_slob_free sp"
    "\<not> (sp_slab (sh_page h p) \<and> sp_slob_free (sh_page h p))"
  shows "lists_ok h'"
proof -
  have n: "\<And>l. p \<notin> set (sh_list h l)" using assms(1,6) by (auto simp: lists_ok_def)
  have s: "\<And>k. set (sh_list h' k) = (if k = l then insert p (set (sh_list h k)) else set (sh_list h k))"
    using assms(2) by simp
  show ?thesis unfolding lists_ok_def
  proof (intro conjI allI impI)
    show "distinct (sh_list h' k)" for k using assms(1,2) n by (auto simp: lists_ok_def)
    show "k = k'" if "q \<in> set (sh_list h' k)" "q \<in> set (sh_list h' k')" for k k' q
      using that assms(1) n s unfolding lists_ok_def by (metis insert_iff)
    show "(\<exists>k. q \<in> set (sh_list h' k)) = (sp_slab (sh_page h' q) \<and> sp_slob_free (sh_page h' q))" for q
    proof (cases "q = p")
      case True
      then show ?thesis using assms(3-5) s by auto
    next
      case False
      then have "\<And>k. (q \<in> set (sh_list h' k)) = (q \<in> set (sh_list h k))" using s by simp
      then show ?thesis using False assms(1,3) by (simp add: lists_ok_def)
    qed
  qed
qed

section \<open>Allocation in a page\<close>

lemma sum_zero_empty: "spaced g l fl \<Longrightarrow> sum_list (map snd fl) = 0 \<longleftrightarrow> fl = []"
  by (cases fl) auto

lemma at_page: "b < PAGE_UNITS \<Longrightarrow> (PAGE_SIZE * p + 2 * b) div PAGE_SIZE = p"
  "b < PAGE_UNITS \<Longrightarrow> (PAGE_SIZE * p + 2 * b) mod PAGE_SIZE div 2 = b"
  by simp_all

lemma unit_at: "u < PAGE_UNITS \<Longrightarrow> v < PAGE_UNITS \<Longrightarrow> PAGE_UNITS * q + u = PAGE_UNITS * p + v \<Longrightarrow> q = p \<and> u = v"
proof -
  assume a: "u < PAGE_UNITS" "v < PAGE_UNITS" "PAGE_UNITS * q + u = PAGE_UNITS * p + v"
  have "(PAGE_UNITS * q + u) div PAGE_UNITS = q" "(PAGE_UNITS * p + v) div PAGE_UNITS = p" using a(1,2) by simp_all
  then have "q = p" using a(3) by metis
  then show ?thesis using a(3) by simp
qed

lemma obj_units_page:
  assumes "b + SLOB_UNITS sz \<le> PAGE_UNITS" "u < PAGE_UNITS"
  shows "PAGE_UNITS * q + u \<in> obj_units (PAGE_SIZE * p + 2 * b, sz) \<longleftrightarrow> q = p \<and> b \<le> u \<and> u < b + SLOB_UNITS sz"
proof
  assume "PAGE_UNITS * q + u \<in> obj_units (PAGE_SIZE * p + 2 * b, sz)"
  then obtain i where "PAGE_UNITS * q + u = PAGE_UNITS * p + (b + i)" "i < SLOB_UNITS sz"
    unfolding obj_units_at by (auto simp: le_iff_add)
  then show "q = p \<and> b \<le> u \<and> u < b + SLOB_UNITS sz" using unit_at [of u "b + i" q p] assms by auto
next
  assume "q = p \<and> b \<le> u \<and> u < b + SLOB_UNITS sz"
  then show "PAGE_UNITS * q + u \<in> obj_units (PAGE_SIZE * p + 2 * b, sz)" unfolding obj_units_at by auto
qed

definition keeps_contents :: "'k objects \<Rightarrow> slob_heap \<Rightarrow> slob_heap \<Rightarrow> bool" where
  "keeps_contents ob h h' \<longleftrightarrow> (\<forall>w. used ob w \<longrightarrow> cell h' w = cell h w)"

lemma page_memory_kept:
  assumes "objects_ok h ob" "sh_page h' = (sh_page h)(p := sp)" "same_off S (sp_mem (sh_page h p)) (sp_mem sp)"
    "\<And>u. u \<in> S \<Longrightarrow> u < PAGE_UNITS \<Longrightarrow> \<not> used ob (PAGE_UNITS * p + u)"
  shows "keeps_contents ob h h'"
  unfolding keeps_contents_def
proof (intro allI impI)
  fix w
  assume w: "used ob w"
  have e: "w = PAGE_UNITS * (w div PAGE_UNITS) + w mod PAGE_UNITS" by simp
  show "cell h' w = cell h w"
  proof (cases "w div PAGE_UNITS = p")
    case True
    then have "w mod PAGE_UNITS \<notin> S" using assms(4) [of "w mod PAGE_UNITS"] w e by auto
    then show ?thesis using True assms(2,3) by (simp add: cell_def same_off_def)
  next
    case False
    then show ?thesis using assms(2) by (simp add: cell_def)
  qed
qed

definition aligned_to :: "nat \<Rightarrow> nat \<Rightarrow> bool" where
  "aligned_to align a \<longleftrightarrow> align = 0 \<or> align dvd a"

lemma slob_delta_aligned:
  assumes "align = 0 \<or> align dvd PAGE_SIZE"
  shows "aligned_to align (PAGE_SIZE * p + 2 * (cur + slob_delta p cur align))"
proof (cases "align = 0")
  case False
  let ?a = "PAGE_SIZE * p + 2 * cur" and ?A = "((PAGE_SIZE * p + 2 * cur + align - 1) div align) * align"
  have "?a \<le> ?A"
  proof -
    have "?a + align - 1 = ?A + (?a + align - 1) mod align" by simp
    moreover have "(?a + align - 1) mod align < align" using False by simp
    ultimately show ?thesis using False by linarith
  qed
  moreover have "even ?A \<or> ?A = ?a"
  proof (cases "even align")
    case True
    then show ?thesis by simp
  next
    case odd: False
    have "align dvd 2 ^ 12" using assms False by simp
    then have "align = 1" using odd
      by (metis coprime_absorb_left coprime_power_right_iff coprime_right_2_iff_odd nat_dvd_1_iff_1)
    then show ?thesis by simp
  qed
  ultimately have "2 * slob_delta p cur align = ?A - ?a"
    using False by (auto simp: slob_delta_def Let_def)
  then have "?a + 2 * slob_delta p cur align = ?A" using \<open>?a \<le> ?A\<close> by simp
  moreover have "align dvd ?A" by simp
  ultimately have "align dvd ?a + 2 * slob_delta p cur align" by metis
  then show ?thesis by (simp add: aligned_to_def algebra_simps)
qed (simp add: aligned_to_def)

text \<open>What a page without room, or with it, answers.\<close>

definition alloc_ok :: "'k objects \<Rightarrow> 'k \<Rightarrow> nat \<Rightarrow> nat \<Rightarrow> slob_heap \<Rightarrow> nat \<Rightarrow> nat \<Rightarrow> slob_heap \<Rightarrow> bool" where
  "alloc_ok ob k sz align h p b h' \<longleftrightarrow>
     b + SLOB_UNITS sz \<le> PAGE_UNITS \<and> sp_slab (sh_page h' p) \<and> heap_ok h' (ob(k \<mapsto> (PAGE_SIZE * p + 2 * b, sz))) \<and>
     (\<forall>w \<in> obj_units (PAGE_SIZE * p + 2 * b, sz). \<not> used ob w) \<and>
     aligned_to align (PAGE_SIZE * p + 2 * b) \<and> keeps_contents ob h h'"

lemma alloc_in_page:
  assumes "heap_ok h ob" "k \<notin> dom ob" "0 < sz" "sp_slab (sh_page h p)" "pg_ok (sh_page h p) fl"
    "\<forall>u < PAGE_UNITS. u \<in> units_of fl \<longleftrightarrow> \<not> used ob (PAGE_UNITS * p + u)"
    "pg_ok sp fl'" "units_of fl' = units_of fl - {b..<b + SLOB_UNITS sz}" "{b..<b + SLOB_UNITS sz} \<subseteq> units_of fl"
    "same_flags (sh_page h p) sp" "same_off (units_of fl) (sp_mem (sh_page h p)) (sp_mem sp)"
    "sp_slob_free (sh_page h p)" "aligned_to align (PAGE_SIZE * p + 2 * b)"
  shows "alloc_ok ob k sz align h p b
    (if sp_units sp = 0 then clear_slob_page_free p (set_slob_page p sp h) else set_slob_page p sp h)"
proof -
  let ?h = "if sp_units sp = 0 then clear_slob_page_free p (set_slob_page p sp h) else set_slob_page p sp h"
  let ?x = "(PAGE_SIZE * p + 2 * b, sz)"
  define sp' where "sp' = sp\<lparr>sp_slob_free := (fl' \<noteq> [])\<rparr>"
  have e: "sp_units sp = 0 \<longleftrightarrow> fl' = []"
    using assms(7) sum_zero_empty [of 1 0 fl'] by (simp add: pg_ok_def)
  have page: "sh_page ?h = (sh_page h)(p := sp')"
    using e assms(10,12) by (auto simp: clear_slob_page_free_def set_slob_page_def sp'_def same_flags_def)
  have sup: "sh_supply ?h = sh_supply h" by (simp add: clear_slob_page_free_def set_slob_page_def)
  have bu: "b + SLOB_UNITS sz \<le> PAGE_UNITS"
  proof -
    have "b + SLOB_UNITS sz - 1 \<in> units_of fl" using assms(9) SLOB_UNITS_pos [OF assms(3)] by fastforce
    then show ?thesis using spaced_above [of 1 0 fl] assms(5) SLOB_UNITS_pos [OF assms(3)] by (fastforce simp: pg_ok_def)
  qed
  have slab: "\<And>q. sp_slab (sh_page ?h q) = sp_slab (sh_page h q)"
    unfolding page using assms(10) by (simp add: sp'_def same_flags_def)
  have free: "\<forall>w \<in> obj_units ?x. \<not> used ob w"
  proof
    fix w
    assume "w \<in> obj_units ?x"
    then obtain i where i: "w = PAGE_UNITS * p + (b + i)" "i < SLOB_UNITS sz"
      unfolding obj_units_at by (auto simp: le_iff_add)
    then have "b + i \<in> units_of fl" "b + i < PAGE_UNITS" using assms(9) bu by auto
    then show "\<not> used ob w" using assms(6) i(1) by blast
  qed
  have b: "b < PAGE_UNITS" using bu SLOB_UNITS_pos [OF assms(3)] by linarith
  have ox: "obj_ok ?h ?x" using assms(3,4) bu slab at_page [OF b, of p] by (simp add: obj_ok_def)
  have obs: "objects_ok ?h (ob(k \<mapsto> ?x))"
    using objects_ok_add [OF objects_ok_page [OF _ slab] assms(2) ox free] assms(1) by (simp add: heap_ok_def)
  have us: "used (ob(k \<mapsto> ?x)) (PAGE_UNITS * q + u) \<longleftrightarrow> used ob (PAGE_UNITS * q + u) \<or> q = p \<and> u \<in> {b..<b + SLOB_UNITS sz}"
    if "u < PAGE_UNITS" for q u
    using used_upd [OF assms(2)] obj_units_page [OF bu that] by auto
  have ls: "lists_ok ?h"
  proof (cases "sp_units sp = 0")
    case True
    then have "sh_list ?h = (\<lambda>l. remove1 p (sh_list h l))" by (simp add: clear_slob_page_free_def set_slob_page_def)
    moreover have "\<not> (sp_slab sp' \<and> sp_slob_free sp')" using True e by (simp add: sp'_def)
    moreover have "lists_ok h" using assms(1) by (simp add: heap_ok_def)
    ultimately show ?thesis using lists_ok_clear page by blast
  next
    case False
    then have "sh_list ?h = sh_list h" by (simp add: set_slob_page_def)
    moreover have "sp_slob_free sp'" using False e by (simp add: sp'_def)
    then have "sp_slob_free (sh_page ?h q) = sp_slob_free (sh_page h q)" for q
      unfolding page using assms(12) by simp
    moreover have "lists_ok h" using assms(1) by (simp add: heap_ok_def)
    ultimately show ?thesis using lists_ok_same [of h ?h] slab by metis
  qed
  have p: "supply_ok ?h" "page_no p"
    using assms(1,4) supply_ok_same [OF _ page sup] by (auto simp: heap_ok_def page_ok_def)
  have pg: "pg_ok sp' fl'" "sp_slob_free sp' \<longleftrightarrow> fl' \<noteq> []" using assms(7) by (simp_all add: sp'_def pg_ok_def)
  have cov: "\<forall>u < PAGE_UNITS. u \<in> units_of fl' \<longleftrightarrow> \<not> used (ob(k \<mapsto> ?x)) (PAGE_UNITS * p + u)"
    using us assms(6,8) by auto
  have "heap_ok ?h (ob(k \<mapsto> ?x))"
    by (rule heap_ok_set [OF assms(1) page p pg cov _ obs ls]) (use us in blast)
  moreover have "keeps_contents ob h ?h"
    by (rule page_memory_kept [OF _ page, of ob "units_of fl"])
      (use assms(1,6,11) in \<open>auto simp: heap_ok_def sp'_def\<close>)
  ultimately show ?thesis using bu slab [of p] assms(4,13) free by (simp add: alloc_ok_def)
qed

lemma page_alloc_on:
  assumes "heap_ok h ob" "k \<notin> dom ob" "0 < sz" "align = 0 \<or> align dvd PAGE_SIZE"
    "sp_slab (sh_page h p)" "sp_slob_free (sh_page h p)" "pg_ok (sh_page h p) fl" "fl \<noteq> []"
    "\<forall>u < PAGE_UNITS. u \<in> units_of fl \<longleftrightarrow> \<not> used ob (PAGE_UNITS * p + u)"
  shows "if \<exists>x \<in> set fl. fits p (SLOB_UNITS sz) align x then
      \<exists>b h'. slob_page_alloc p sz align h = Some (Some b, h') \<and> alloc_ok ob k sz align h p b h' \<and>
        (sh_list h' = sh_list h \<or> sh_list h' = (\<lambda>l. remove1 p (sh_list h l)))
    else slob_page_alloc p sz align h = Some (None, h)"
proof -
  let ?u = "SLOB_UNITS sz"
  have start: "sp_freelist (sh_page h p) = hoff fl PAGE_UNITS" using assms(7,8) by (simp add: pg_ok_def)
  show ?thesis
  proof (cases "\<exists>x \<in> set fl. fits p ?u align x")
    case False
    have same: "set_slob_page p (sh_page h p) h = h" by (simp add: set_slob_page_def)
    have "slob_scan p ?u align None (hoff fl PAGE_UNITS) (sh_page h p) = Some (None, sh_page h p)"
      using scan_none [of "sh_page h p" "[]" fl] assms(7,8) False by (simp add: prev_of_def)
    then show ?thesis using False start same by (auto simp: slob_page_alloc_def)
  next
    case True
    then obtain zs x ys where x: "fl = zs @ x # ys" "fits p ?u align x" "\<forall>b \<in> set zs. \<not> fits p ?u align b"
      using split_list_first_prop by metis
    obtain a n where an: "x = (a, n)" by (cases x)
    let ?d = "slob_delta p a align"
    have pg: "pg_ok (sh_page h p) (zs @ (a, n) # ys)" and fit: "?d + ?u \<le> n"
      using assms(7) x(1,2) an by (simp_all add: fits_def)
    have s: "spaced 1 0 (zs @ (a, n) # ys)" using pg by (simp add: pg_ok_def)
    have pos: "0 < ?u" using SLOB_UNITS_pos [OF assms(3)] .
    obtain sp where sp: "slob_take (prev_of zs) a n ?d ?u (sh_page h p) = Some (a + ?d, sp)"
        "pg_ok sp (taken zs a n ys ?d ?u)" "same_flags (sh_page h p) sp"
        "same_off (units_of (zs @ (a, n) # ys)) (sp_mem (sh_page h p)) (sp_mem sp)"
      using take_spec [OF pg pos fit] .
    let ?h = "if sp_units sp = 0 then clear_slob_page_free p (set_slob_page p sp h) else set_slob_page p sp h"
    have "slob_scan p ?u align None (hoff fl PAGE_UNITS) (sh_page h p) = Some (Some (a + ?d), sp)"
      using scan_some [of "sh_page h p" "[]" zs a n ys p ?u align] assms(7) x an sp(1) by (simp add: prev_of_def)
    then have run: "slob_page_alloc p sz align h = Some (Some (a + ?d), ?h)"
      using start by (simp add: slob_page_alloc_def)
    have sub: "{a + ?d..<a + ?d + ?u} \<subseteq> units_of fl" using x(1) an fit by auto
    have un: "units_of (taken zs a n ys ?d ?u) = units_of fl - {a + ?d..<a + ?d + ?u}"
      using taken_units(1) [OF s pos fit] x(1) an by simp
    have so: "same_off (units_of fl) (sp_mem (sh_page h p)) (sp_mem sp)" using sp(4) x(1) an by simp
    have "alloc_ok ob k sz align h p (a + ?d) ?h"
      using alloc_in_page [OF assms(1-3,5,7,9) sp(2) un sub sp(3) so assms(6) slob_delta_aligned [OF assms(4)]] .
    then show ?thesis using True run by (auto simp: clear_slob_page_free_def set_slob_page_def)
  qed
qed

lemma page_alloc_spec:
  assumes "heap_ok h ob" "k \<notin> dom ob" "0 < sz" "align = 0 \<or> align dvd PAGE_SIZE"
    "sp_slab (sh_page h p)" "sp_slob_free (sh_page h p)"
  shows "slob_page_alloc p sz align h = Some (None, h) \<or>
    (\<exists>b h'. slob_page_alloc p sz align h = Some (Some b, h') \<and> alloc_ok ob k sz align h p b h' \<and>
       (sh_list h' = sh_list h \<or> sh_list h' = (\<lambda>l. remove1 p (sh_list h l))))"
proof -
  have "page_ok h ob p" using assms(1,5) by (simp add: heap_ok_def)
  then obtain fl where fl: "pg_ok (sh_page h p) fl" "fl \<noteq> []"
      "\<forall>u < PAGE_UNITS. u \<in> units_of fl \<longleftrightarrow> \<not> used ob (PAGE_UNITS * p + u)"
    using assms(6) by (auto simp: page_ok_def)
  show ?thesis using page_alloc_on [OF assms fl] by (cases "\<exists>x \<in> set fl. fits p (SLOB_UNITS sz) align x") simp_all
qed

lemma heap_ok_rotate:
  assumes "heap_ok h ob" "\<And>l. mset (f l) = mset (sh_list h l)"
  shows "heap_ok (h\<lparr>sh_list := f\<rparr>) ob"
proof -
  have "lists_ok (h\<lparr>sh_list := f\<rparr>)"
    using lists_ok_same [of h "h\<lparr>sh_list := f\<rparr>"] assms by (simp add: heap_ok_def)
  then show ?thesis using assms(1) by (simp add: heap_ok_def objects_ok_def obj_ok_def page_ok_def supply_ok_def)
qed

lemma alloc_ok_rotate:
  assumes "alloc_ok ob k sz align h p b h'" "\<And>l. mset (f l) = mset (sh_list h' l)"
  shows "alloc_ok ob k sz align h p b (h'\<lparr>sh_list := f\<rparr>)"
  using assms heap_ok_rotate by (auto simp: alloc_ok_def keeps_contents_def cell_def)

lemma search_spec:
  assumes "heap_ok h ob" "k \<notin> dom ob" "0 < sz" "align = 0 \<or> align dvd PAGE_SIZE" "sh_list h l = pre @ ps"
  shows "slob_search l sz align pre ps h = Some (None, h) \<or>
    (\<exists>p b h'. slob_search l sz align pre ps h = Some (Some (p, b), h') \<and> alloc_ok ob k sz align h p b h')"
  using assms(5)
proof (induction ps arbitrary: pre)
  case (Cons p ps)
  have IH: "slob_search l sz align (pre @ [p]) ps h = Some (None, h) \<or>
    (\<exists>q b h'. slob_search l sz align (pre @ [p]) ps h = Some (Some (q, b), h') \<and> alloc_ok ob k sz align h q b h')"
    by (rule Cons.IH) (simp add: Cons.prems)
  have lk: "lists_ok h" using assms(1) by (simp add: heap_ok_def)
  have p: "sp_slab (sh_page h p)" "sp_slob_free (sh_page h p)"
    using lk Cons.prems unfolding lists_ok_def by (metis in_set_conv_decomp)+
  have d: "p \<notin> set pre" using lk Cons.prems 
    by (metis distinct_append disjoint_insert(1) list.simps(15) lists_ok_def)
  show ?case
  proof (cases "sp_units (sh_page h p) < int (SLOB_UNITS sz)")
    case True
    then show ?thesis using IH by simp
  next
    case big: False
    from page_alloc_spec [OF assms(1-4) p] consider (none) "slob_page_alloc p sz align h = Some (None, h)"
      | (some) b h' where "slob_page_alloc p sz align h = Some (Some b, h')" "alloc_ok ob k sz align h p b h'"
        "sh_list h' = sh_list h \<or> sh_list h' = (\<lambda>l. remove1 p (sh_list h l))" by blast
    then show ?thesis
    proof cases
      case none
      then show ?thesis using IH big by simp
    next
      case h': (some b h')
      then obtain rest where rest: "sh_list h' l = pre @ rest"
        using Cons.prems d by (auto simp: remove1_append)
      have "mset (((sh_list h')(l := rest @ pre)) k) = mset (sh_list h' k)" for k using rest by simp
      then have "alloc_ok ob k sz align h p b (h'\<lparr>sh_list := (sh_list h')(l := rest @ pre)\<rparr>)"
        using alloc_ok_rotate [OF h'(2)] by blast
      then show ?thesis using h' big rest by (auto simp: Let_def)
    qed
  qed
qed simp

section \<open>Allocation from the heap\<close>

lemma new_page_supply:
  assumes "supply_ok h" "slob_new_pages 0 h = (Some p, h2)"
  shows "h2 = h\<lparr>sh_supply := remove1 (0, p) (sh_supply h)\<rparr>" "(0, p) \<in> set (sh_supply h)"
    "page_no p" "\<not> sp_slab (sh_page h p)" "length (sp_mem (sh_page h p)) = PAGE_UNITS"
    "distinct (filter (\<lambda>x. fst x = 0) (sh_supply h2))" "(0, p) \<notin> set (sh_supply h2)"
proof -
  let ?f = "filter (\<lambda>x. fst x = 0) (sh_supply h)"
  have f: "filter (\<lambda>(k, p). k = 0) (sh_supply h) = ?f" by (simp add: case_prod_unfold)
  obtain zs where z: "?f = (0, p) # zs" "h2 = h\<lparr>sh_supply := remove1 (0, p) (sh_supply h)\<rparr>"
    using assms(2) unfolding slob_new_pages_def f by (cases ?f) (auto simp: filter_eq_Cons_iff)
  have "(0, p) \<in> set ?f" using z(1) by simp
  then show m: "(0, p) \<in> set (sh_supply h)" by simp
  show "h2 = h\<lparr>sh_supply := remove1 (0, p) (sh_supply h)\<rparr>" by (rule z(2))
  show "page_no p" "\<not> sp_slab (sh_page h p)" "length (sp_mem (sh_page h p)) = PAGE_UNITS"
    using m assms(1) by (auto simp: supply_ok_def)
  have d: "distinct ?f" using assms(1) by (simp add: supply_ok_def)
  have r: "filter (\<lambda>x. fst x = 0) (sh_supply h2) = remove1 (0, p) ?f" using z(2) by (simp add: filter_remove1)
  show "distinct (filter (\<lambda>x. fst x = 0) (sh_supply h2))" unfolding r using d by (rule distinct_remove1)
  have "(0, p) \<notin> set (filter (\<lambda>x. fst x = 0) (sh_supply h2))" unfolding r using d by simp
  then show "(0, p) \<notin> set (sh_supply h2)" by simp
qed

definition fresh :: "nat \<Rightarrow> slob_list \<Rightarrow> int list \<Rightarrow> slob_heap \<Rightarrow> slob_heap" where
  "fresh p l mem h = set_slob_page_free p l (set_slob_page p ((sh_page h p)\<lparr>sp_slab := True,
     sp_units := int (SLOB_UNITS PAGE_SIZE), sp_freelist := 0, sp_mem := mem\<rparr>) h)"

lemma fresh_page:
  assumes "heap_ok h ob" "slob_new_pages 0 h = (Some p, h2)"
  obtains mem where "set_slob (sp_mem (sh_page h2 p)) 0 (SLOB_UNITS PAGE_SIZE) (SLOB_UNITS PAGE_SIZE) = Some mem"
    "heap_ok (fresh p l mem h2) ob" "keeps_contents ob h (fresh p l mem h2)"
    "sp_slab (sh_page (fresh p l mem h2) p)" "sp_slob_free (sh_page (fresh p l mem h2) p)"
    "pg_ok (sh_page (fresh p l mem h2) p) [(0, PAGE_UNITS)]" "\<forall>u < PAGE_UNITS. \<not> used ob (PAGE_UNITS * p + u)"
proof -
  have sup: "supply_ok h" and ls: "lists_ok h" and obs: "objects_ok h ob" using assms(1) by (simp_all add: heap_ok_def)
  note n = new_page_supply [OF sup assms(2)]
  obtain mem where m: "set_slob (sp_mem (sh_page h p)) 0 PAGE_UNITS PAGE_UNITS = Some mem" "encodes mem 0 PAGE_UNITS PAGE_UNITS"
      "same_off {0..<0 + PAGE_UNITS} (sp_mem (sh_page h p)) mem"
    using set_slob_encodes [of PAGE_UNITS 0 "sp_mem (sh_page h p)" PAGE_UNITS] n(5) by auto
  have unused: "\<not> used ob (PAGE_UNITS * p + u)" if "u < PAGE_UNITS" for u
  proof
    assume "used ob (PAGE_UNITS * p + u)"
    then obtain k x where x: "ob k = Some x" "PAGE_UNITS * p + u \<in> obj_units x" unfolding used_def by blast
    then have "p = fst x div PAGE_SIZE" using obj_in_page(1) [OF objects_okD [OF obs x(1)] x(2)] that by simp
    then show False using objects_okD [OF obs x(1)] n(4) by (simp add: obj_ok_def)
  qed
  define sp where "sp = (sh_page h p)\<lparr>sp_slab := True, sp_units := int PAGE_UNITS, sp_freelist := 0, sp_mem := mem, sp_slob_free := True\<rparr>"
  let ?h = "fresh p l mem h2"
  have page: "sh_page ?h = (sh_page h)(p := sp)"
    using n(1) by (simp add: fresh_def set_slob_page_free_def set_slob_page_def sp_def)
  have pg: "pg_ok sp [(0, PAGE_UNITS)]"
    using m(2,3) n(5) by (simp add: pg_ok_def sp_def same_off_def)
  have "supply_ok ?h"
    using sup n unfolding supply_ok_def page
    by (auto simp: fresh_def set_slob_page_free_def set_slob_page_def sp_def dest: notin_set_remove1)
  moreover have "lists_ok ?h"
    by (rule lists_ok_add [OF ls _ page, of l]) (use n(1,4) in \<open>auto simp: fresh_def set_slob_page_free_def set_slob_page_def sp_def\<close>)
  moreover have "objects_ok ?h ob"
    using obs n(4) unfolding objects_ok_def obj_ok_def page by (auto simp: sp_def)
  ultimately have ok: "heap_ok ?h ob"
    using heap_ok_set [OF assms(1) page _ n(3) pg, of ob] unused by (simp add: sp_def)
  have "keeps_contents ob h ?h"
    by (rule page_memory_kept [OF obs page, of UNIV]) (use n(5) m(3) unused in \<open>auto simp: same_off_def sp_def\<close>)
  then show thesis using that [of mem] m(1) ok pg unused n(1) page by (simp add: sp_def)
qed

text \<open>Writing to the units of an object does not disturb the allocator.\<close>

lemma heap_ok_write:
  assumes "heap_ok h ob" "sp_slab (sh_page h p)" "same_off S (sp_mem (sh_page h p)) mem"
    "\<forall>u \<in> S. used ob (PAGE_UNITS * p + u)"
  shows "heap_ok (set_slob_page p ((sh_page h p)\<lparr>sp_mem := mem\<rparr>) h) ob"
proof -
  let ?sp = "(sh_page h p)\<lparr>sp_mem := mem\<rparr>" and ?h = "set_slob_page p ((sh_page h p)\<lparr>sp_mem := mem\<rparr>) h"
  have page: "sh_page ?h = (sh_page h)(p := ?sp)" by (simp add: set_slob_page_def)
  have "page_ok h ob p" using assms(1,2) by (simp add: heap_ok_def)
  then obtain fl where fl: "page_no p" "pg_ok (sh_page h p) fl" "sp_slob_free (sh_page h p) \<longleftrightarrow> fl \<noteq> []"
      "\<forall>u < PAGE_UNITS. u \<in> units_of fl \<longleftrightarrow> \<not> used ob (PAGE_UNITS * p + u)" by (auto simp: page_ok_def)
  have s: "spaced 1 0 fl" using fl(2) by (simp add: pg_ok_def)
  have dis: "S \<inter> units_of fl = {}" using fl(4) assms(4) spaced_above [OF s] by blast
  have "pg_ok ?sp fl"
    using fl(2) slob_chain_frame [OF _ s assms(3) dis] assms(3) by (auto simp: pg_ok_def same_off_def)
  moreover have "supply_ok ?h" using assms(1,2) supply_ok_same [OF _ page] by (simp add: heap_ok_def set_slob_page_def)
  moreover have "lists_ok ?h" using assms(1) lists_ok_same [of h ?h] by (simp add: heap_ok_def set_slob_page_def)
  moreover have "objects_ok ?h ob" using assms(1) objects_ok_page [of h ob ?h] by (simp add: heap_ok_def set_slob_page_def)
  ultimately show ?thesis using heap_ok_set [OF assms(1) page _ fl(1), where ob' = ob and fl = fl] fl(3,4) by simp
qed

lemma keeps_trans: "keeps_contents ob h h' \<Longrightarrow> keeps_contents ob h' h'' \<Longrightarrow> keeps_contents ob h h''"
  by (simp add: keeps_contents_def)

lemma alloc_ok_write:
  assumes "alloc_ok ob k sz align h p b h'" "k \<notin> dom ob" "same_off S (sp_mem (sh_page h' p)) mem"
    "S \<subseteq> {b..<b + SLOB_UNITS sz}"
  shows "alloc_ok ob k sz align h p b (set_slob_page p ((sh_page h' p)\<lparr>sp_mem := mem\<rparr>) h')"
proof -
  let ?x = "(PAGE_SIZE * p + 2 * b, sz)" and ?h = "set_slob_page p ((sh_page h' p)\<lparr>sp_mem := mem\<rparr>) h'"
  have a: "b + SLOB_UNITS sz \<le> PAGE_UNITS" "sp_slab (sh_page h' p)" "heap_ok h' (ob(k \<mapsto> ?x))"
    "\<forall>w \<in> obj_units ?x. \<not> used ob w" "keeps_contents ob h h'"
    using assms(1) by (simp_all add: alloc_ok_def)
  have mine: "PAGE_UNITS * p + u \<in> obj_units ?x" if "u \<in> S" for u
    using that assms(4) a(1) by (subst obj_units_page) auto
  have "heap_ok ?h (ob(k \<mapsto> ?x))"
    by (rule heap_ok_write [OF a(3,2) assms(3)]) (use mine used_upd [OF assms(2)] in blast)
  moreover have "keeps_contents ob h' ?h"
  proof (rule page_memory_kept [of h' ob ?h p "(sh_page h' p)\<lparr>sp_mem := mem\<rparr>" S])
    show "objects_ok h' ob"
      using a(3) assms(2) unfolding heap_ok_def objects_ok_def
      by (metis domIff fun_upd_other option.distinct(1))
  qed (use assms(3) mine a(4) in \<open>auto simp: set_slob_page_def\<close>)
  ultimately show ?thesis using a assms(1) keeps_trans by (auto simp: alloc_ok_def set_slob_page_def)
qed

lemma nth_beyond: "length xs = length ys \<Longrightarrow> length xs \<le> i \<Longrightarrow> xs ! i = ys ! i"
proof (induction xs ys arbitrary: i rule: list_induct2)
  case (Cons x xs y ys)
  then show ?case by (cases i) simp_all
qed simp

lemma clear_same_off: "same_off {b..<b + SLOB_UNITS sz} mem (slob_clear b sz mem)"
proof -
  have len: "length (slob_clear b sz mem) = length mem" by (simp add: slob_clear_def)
  have "i < length mem \<Longrightarrow> i \<notin> {b..<b + SLOB_UNITS sz} \<Longrightarrow> slob_clear b sz mem ! i = mem ! i" for i
    by (auto simp: slob_clear_def nth_enumerate_eq SLOB_UNITS_def elim!: oddE)
  then show ?thesis unfolding same_off_def using len nth_beyond [OF len] by (metis not_le)
qed

lemma slob_delta_base:
  assumes "align = 0 \<or> align dvd PAGE_SIZE"
  shows "slob_delta p 0 align = 0"
proof (cases "align = 0")
  case False
  then obtain c where "PAGE_SIZE = align * c" using assms by (auto elim: dvdE)
  then have c: "PAGE_SIZE * p = align * (c * p)" by simp
  have "(align * (c * p) + align - 1) div align = c * p + (align - 1) div align"
    using False by (metis Nat.add_diff_assoc div_mult_self4 One_nat_def Suc_leI neq0_conv)
  also have "(align - 1) div align = 0" using False by simp
  finally show ?thesis unfolding slob_delta_def c by (simp add: mult.commute)
qed (simp add: slob_delta_def)

lemma slob_alloc_spec:
  assumes "heap_ok h ob" "k \<notin> dom ob" "0 < sz" "sz < PAGE_SIZE" "align = 0 \<or> align dvd PAGE_SIZE"
  shows "slob_alloc sz z align h = Some (0, h) \<and> (\<forall>p. (0, p) \<notin> set (sh_supply h)) \<or>
    (\<exists>p b h'. slob_alloc sz z align h = Some (PAGE_SIZE * p + 2 * b, h') \<and> alloc_ok ob k sz align h p b h')"
proof -
  let ?l = "slob_list_for sz"
  let ?r = "\<lambda>r h2. case r of None \<Rightarrow> Some (0, h2) | Some (p, b) \<Rightarrow> Some (PAGE_SIZE * p + 2 * b,
      if z then set_slob_page p ((sh_page h2 p)\<lparr>sp_mem := slob_clear b sz (sp_mem (sh_page h2 p))\<rparr>) h2 else h2)"
  have fin: "\<exists>h'. ?r (Some (p, b)) h2 = Some (PAGE_SIZE * p + 2 * b, h') \<and> alloc_ok ob k sz align h p b h'"
    if "alloc_ok ob k sz align h p b h2" for p b h2
    using that alloc_ok_write [OF that assms(2) clear_same_off] by (cases z) auto
  from search_spec [OF assms(1-3,5), of ?l "[]"] consider
      (none) "slob_search ?l sz align [] (sh_list h ?l) h = Some (None, h)"
    | (some) p b h1 where "slob_search ?l sz align [] (sh_list h ?l) h = Some (Some (p, b), h1)"
        "alloc_ok ob k sz align h p b h1" by auto
  then show ?thesis
  proof cases
    case none
    show ?thesis
    proof (cases "slob_new_pages 0 h")
      case (Pair r h2)
      show ?thesis
      proof (cases r)
        case None
        then have "h2 = h" "\<forall>p. (0, p) \<notin> set (sh_supply h)"
          using Pair by (auto simp: slob_new_pages_def filter_empty_conv split: list.splits)
        then show ?thesis using none Pair None by (simp add: slob_alloc_def)
      next
        case (Some p)
        have np: "slob_new_pages 0 h = (Some p, h2)" using Pair Some by simp
        obtain mem where m: "set_slob (sp_mem (sh_page h2 p)) 0 (SLOB_UNITS PAGE_SIZE) (SLOB_UNITS PAGE_SIZE) = Some mem"
            "heap_ok (fresh p ?l mem h2) ob" "keeps_contents ob h (fresh p ?l mem h2)"
            "sp_slab (sh_page (fresh p ?l mem h2) p)" "sp_slob_free (sh_page (fresh p ?l mem h2) p)"
            "pg_ok (sh_page (fresh p ?l mem h2) p) [(0, PAGE_UNITS)]" "\<forall>u < PAGE_UNITS. \<not> used ob (PAGE_UNITS * p + u)"
          using fresh_page [OF assms(1) np] .
        let ?h = "fresh p ?l mem h2"
        have "SLOB_UNITS sz \<le> PAGE_UNITS" using assms(4) by (simp add: SLOB_UNITS_def)
        then have "\<exists>x \<in> set [(0, PAGE_UNITS)]. fits p (SLOB_UNITS sz) align x"
          using slob_delta_base [OF assms(5)] by (simp add: fits_def)
        then obtain b h4 where b: "slob_page_alloc p sz align ?h = Some (Some b, h4)" "alloc_ok ob k sz align ?h p b h4"
          using page_alloc_on [OF m(2) assms(2,3,5) m(4-6)] m(7) by fastforce
        have "alloc_ok ob k sz align h p b h4" using b(2) keeps_trans [OF m(3)] by (simp add: alloc_ok_def)
        from fin [OF this] show ?thesis
          using none np m(1) b(1) by (auto simp: slob_alloc_def Let_def fresh_def)
      qed
    qed
  next
    case some
    then show ?thesis using fin [OF some(2)] by (auto simp: slob_alloc_def)
  qed
qed

end
