(* ===== verification/Slob_Heap.thy ===== *)
theory Slob_Heap
  imports Slob_Alloc Interfaces
begin

text \<open>
  Release of objects, sequences of allocations and releases, the \<^verbatim>\<open>kmalloc\<close> front end, and the
  properties of the SLOB allocator.
\<close>

section \<open>Release\<close>

lemma used_del:
  assumes "objects_ok h ob" "ob k = Some x"
  shows "used (ob(k := None)) w \<longleftrightarrow> used ob w \<and> w \<notin> obj_units x"
proof -
  have "used ob w \<and> w \<notin> obj_units x" if u: "used (ob(k := None)) w"
  proof -
    obtain j y where jy: "(ob(k := None)) j = Some y" "w \<in> obj_units y" using u unfolding used_def by blast
    have j: "j \<noteq> k" "ob j = Some y" using jy(1) by (cases "j = k"; simp)+
    then have "obj_units y \<inter> obj_units x = {}" using assms unfolding objects_ok_def by blast
    then show ?thesis using usedI [of ob, OF j(2) jy(2)] jy(2) by blast
  qed
  moreover have "used (ob(k := None)) w" if u: "used ob w" "w \<notin> obj_units x"
  proof -
    obtain j y where jy: "ob j = Some y" "w \<in> obj_units y" using u(1) unfolding used_def by blast
    then have "j \<noteq> k" using u(2) assms(2) by auto
    then show ?thesis using usedI [of "ob(k := None)" j y w] jy by simp
  qed
  ultimately show ?thesis by blast
qed

lemma objects_ok_del:
  assumes "objects_ok h ob" "\<And>j y. j \<noteq> k \<Longrightarrow> ob j = Some y \<Longrightarrow> obj_ok h' y"
  shows "objects_ok h' (ob(k := None))"
  unfolding objects_ok_def
proof (intro conjI allI impI)
  show "obj_ok h' y" if "(ob(k := None)) j = Some y" for j y using that assms(2) by (auto split: if_splits)
  show "obj_units y \<inter> obj_units y' = {}" if "(ob(k := None)) j = Some y" "(ob(k := None)) j' = Some y'" "j \<noteq> j'" for j j' y y'
    using that assms(1) unfolding objects_ok_def by (metis fun_upd_apply option.distinct(1))
qed

lemma release_in_page:
  assumes "heap_ok h ob" "ob k = Some (PAGE_SIZE * p + 2 * b, sz)" "b + SLOB_UNITS sz \<le> PAGE_UNITS"
    "pg_ok (sh_page h p) fl" "\<forall>u < PAGE_UNITS. u \<in> units_of fl \<longleftrightarrow> \<not> used ob (PAGE_UNITS * p + u)"
    "sh_page h' = (sh_page h)(p := sp)" "sh_supply h' = sh_supply h" "lists_ok h'" "sp_slab (sh_page h p)" "sp_slab sp"
    "pg_ok sp fl'" "sp_slob_free sp \<longleftrightarrow> fl' \<noteq> []" "units_of fl' = units_of fl \<union> {b..<b + SLOB_UNITS sz}"
    "same_off (units_of fl \<union> {b..<b + SLOB_UNITS sz}) (sp_mem (sh_page h p)) (sp_mem sp)"
  shows "heap_ok h' (ob(k := None)) \<and> keeps_contents (ob(k := None)) h h'"
proof -
  let ?x = "(PAGE_SIZE * p + 2 * b, sz)"
  have obs: "objects_ok h ob" using assms(1) by (simp add: heap_ok_def)
  have us: "used (ob(k := None)) (PAGE_UNITS * q + u) \<longleftrightarrow>
      used ob (PAGE_UNITS * q + u) \<and> \<not> (q = p \<and> u \<in> {b..<b + SLOB_UNITS sz})" if "u < PAGE_UNITS" for q u
    using used_del [OF obs assms(2)] obj_units_page [OF assms(3) that] by auto
  have p: "page_no p" using assms(1,9) by (simp add: heap_ok_def page_ok_def)
  have slab: "sp_slab (sh_page h' q) = sp_slab (sh_page h q)" for q using assms(6,9,10) by simp
  have o': "objects_ok h' (ob(k := None))"
    using objects_ok_del [OF obs, of k h'] objects_okD [OF obs] slab by (simp add: obj_ok_def)
  have sup: "supply_ok h'" using supply_ok_same [OF _ assms(6,7,9)] assms(1) by (simp add: heap_ok_def)
  have cov: "\<forall>u < PAGE_UNITS. u \<in> units_of fl' \<longleftrightarrow> \<not> used (ob(k := None)) (PAGE_UNITS * p + u)"
    using us assms(5,13) by auto
  have "heap_ok h' (ob(k := None))"
    by (rule heap_ok_set [OF assms(1,6) sup p assms(11,12) cov _ o' assms(8)]) (use us in blast)
  moreover have "objects_ok h (ob(k := None))" using objects_ok_del [OF obs, of k h] objects_okD [OF obs] by simp
  then have "keeps_contents (ob(k := None)) h h'"
    by (rule page_memory_kept [OF _ assms(6,14)]) (use us assms(5) in auto)
  ultimately show ?thesis ..
qed

text \<open>The page of the object that is released, as \<open>slob_free\<close> reads it.\<close>

lemma object_page:
  assumes "heap_ok h ob" "ob k = Some (a, sz)"
  obtains p b fl where "a = PAGE_SIZE * p + 2 * b" "p = a div PAGE_SIZE" "b = a mod PAGE_SIZE div 2" "0 < sz"
    "b + SLOB_UNITS sz \<le> PAGE_UNITS" "page_no p" "sp_slab (sh_page h p)" "pg_ok (sh_page h p) fl"
    "sp_slob_free (sh_page h p) \<longleftrightarrow> fl \<noteq> []"
    "\<forall>u < PAGE_UNITS. u \<in> units_of fl \<longleftrightarrow> \<not> used ob (PAGE_UNITS * p + u)"
    "{b..<b + SLOB_UNITS sz} \<inter> units_of fl = {}"
proof -
  let ?p = "a div PAGE_SIZE" and ?b = "a mod PAGE_SIZE div 2"
  have ok: "obj_ok h (a, sz)" using assms objects_okD by (auto simp: heap_ok_def)
  then have slab: "sp_slab (sh_page h ?p)" and fit: "?b + SLOB_UNITS sz \<le> PAGE_UNITS" and ev: "even a" and sz: "0 < sz"
    by (simp_all add: obj_ok_def)
  have "even (a mod PAGE_SIZE)" using dvd_mod [of 2 a PAGE_SIZE] ev by simp
  then have a: "a = PAGE_SIZE * ?p + 2 * ?b" by simp
  have "page_ok h ob ?p" using assms(1) slab by (simp add: heap_ok_def)
  then obtain fl where fl: "page_no ?p" "pg_ok (sh_page h ?p) fl" "sp_slob_free (sh_page h ?p) \<longleftrightarrow> fl \<noteq> []"
      "\<forall>u < PAGE_UNITS. u \<in> units_of fl \<longleftrightarrow> \<not> used ob (PAGE_UNITS * ?p + u)" by (auto simp: page_ok_def)
  have "u \<notin> units_of fl" if u: "u \<in> {?b..<?b + SLOB_UNITS sz}" for u
  proof -
    have "PAGE_UNITS * ?p + u \<in> obj_units (PAGE_SIZE * ?p + 2 * ?b, sz)"
      using obj_units_page [OF fit] u fit by auto
    then have "used ob (PAGE_UNITS * ?p + u)" using usedI [of ob k] assms(2) a by metis
    then show ?thesis using fl(4) u fit by auto
  qed
  then show thesis using that [OF a refl refl sz fit fl(1) slab fl(2-4)] by blast
qed

lemma lists_ok_gone:
  assumes "lists_ok h" "sp_slab (sh_page h p)"
  shows "(if slob_page_free (sh_page h p) then sh_list (clear_slob_page_free p h) else sh_list h) =
    (\<lambda>l. remove1 p (sh_list h l))"
proof (cases "sp_slob_free (sh_page h p)")
  case False
  then have "p \<notin> set (sh_list h l)" for l using assms(1) by (auto simp: lists_ok_def)
  then show ?thesis using False by (simp add: slob_page_free_def remove1_idem)
qed (simp add: slob_page_free_def clear_slob_page_free_def set_slob_page_def)

lemma release_whole_page:
  assumes "heap_ok h ob" "ob k = Some (PAGE_SIZE * p + 2 * b, sz)" "b + SLOB_UNITS sz \<le> PAGE_UNITS" "page_no p"
    "sp_slab (sh_page h p)" "pg_ok (sh_page h p) fl"
    "\<forall>u < PAGE_UNITS. u \<in> units_of fl \<longleftrightarrow> \<not> used ob (PAGE_UNITS * p + u)"
    "{b..<b + SLOB_UNITS sz} \<inter> units_of fl = {}" "sp_units (sh_page h p) + int (SLOB_UNITS sz) = int PAGE_UNITS"
    "sh_page h' = (sh_page h)(p := sp)" "\<not> sp_slab sp" "sp_mem sp = sp_mem (sh_page h p)"
    "sh_list h' = (\<lambda>l. remove1 p (sh_list h l))" "sh_supply h' = sh_supply h @ [(0, p)]"
  shows "heap_ok h' (ob(k := None)) \<and> keeps_contents (ob(k := None)) h h'"
proof -
  let ?x = "(PAGE_SIZE * p + 2 * b, sz)" and ?R = "{b..<b + SLOB_UNITS sz}"
  have h: "objects_ok h ob" "lists_ok h" "supply_ok h" using assms(1) by (simp_all add: heap_ok_def)
  have s: "spaced 1 0 fl" "sp_units (sh_page h p) = int (sum_list (map snd fl))" "length (sp_mem (sh_page h p)) = PAGE_UNITS"
    using assms(6) by (simp_all add: pg_ok_def)
  have fin: "finite (units_of fl)" by (auto simp: units_of_def)
  have "card (units_of fl \<union> ?R) = PAGE_UNITS"
    using card_Un_disjoint [OF fin, of ?R] assms(8,9) s(2) spaced_sum [OF s(1)] by (simp add: Int_commute)
  moreover have "units_of fl \<union> ?R \<subseteq> {..<PAGE_UNITS}" using spaced_above [OF s(1)] assms(3) by auto
  ultimately have full: "units_of fl \<union> ?R = {..<PAGE_UNITS}" by (metis card_lessThan card_subset_eq finite_lessThan)
  have away: "fst y div PAGE_SIZE \<noteq> p" if y: "j \<noteq> k" "ob j = Some y" for j y
  proof
    assume e: "fst y div PAGE_SIZE = p"
    have oy: "obj_ok h y" using objects_okD [OF h(1) y(2)] .
    let ?w = "fst y div 2"
    have w: "?w \<in> obj_units y" using oy SLOB_UNITS_pos by (simp add: obj_units_def obj_ok_def)
    have wp: "?w = PAGE_UNITS * p + ?w mod PAGE_UNITS" using obj_in_page(1) [OF oy w] e by (metis mult_div_mod_eq)
    have "\<not> used (ob(k := None)) ?w"
      using used_del [OF h(1) assms(2), of ?w] full assms(7) obj_units_page [OF assms(3), of "?w mod PAGE_UNITS" p p] wp
      by (metis UnE atLeastLessThan_iff lessThan_iff mod_less_divisor zero_less_numeral)
    then show False using usedI [of "ob(k := None)" j y ?w] y w by simp
  qed
  have "objects_ok h' (ob(k := None))"
    using objects_ok_del [OF h(1), of k h'] away objects_okD [OF h(1)] assms(10) by (simp add: obj_ok_def)
  moreover have "lists_ok h'" using lists_ok_clear [OF h(2) assms(13,10)] assms(11) by simp
  moreover have "supply_ok h'"
    using h(3) assms(4,5,10-12,14) s(3) by (auto simp: supply_ok_def)
  moreover have "page_ok h' (ob(k := None)) q" if q: "sp_slab (sh_page h' q)" for q
  proof -
    have qp: "q \<noteq> p" using q assms(10,11) by auto
    have "used (ob(k := None)) (PAGE_UNITS * q + u) = used ob (PAGE_UNITS * q + u)" if "u < PAGE_UNITS" for u
      using used_del [OF h(1) assms(2)] obj_units_page [OF assms(3) that] qp by simp
    moreover have "page_ok h ob q" using q qp assms(1,10) by (simp add: heap_ok_def)
    ultimately show ?thesis using qp assms(10) by (simp add: page_ok_def)
  qed
  ultimately have "heap_ok h' (ob(k := None))" by (simp add: heap_ok_def)
  moreover have "cell h' w = cell h w" for w using assms(10,12) by (simp add: cell_def)
  ultimately show ?thesis by (simp add: keeps_contents_def)
qed

lemma slob_free_spec:
  assumes "heap_ok h ob" "ob k = Some (a, sz)"
  shows "\<exists>h'. slob_free a sz h = Some h' \<and> heap_ok h' (ob(k := None)) \<and> keeps_contents (ob(k := None)) h h'"
proof -
  obtain p b fl where o: "a = PAGE_SIZE * p + 2 * b" "p = a div PAGE_SIZE" "b = a mod PAGE_SIZE div 2" "0 < sz"
    "b + SLOB_UNITS sz \<le> PAGE_UNITS" "page_no p" "sp_slab (sh_page h p)" "pg_ok (sh_page h p) fl"
    "sp_slob_free (sh_page h p) \<longleftrightarrow> fl \<noteq> []"
    "\<forall>u < PAGE_UNITS. u \<in> units_of fl \<longleftrightarrow> \<not> used ob (PAGE_UNITS * p + u)"
    "{b..<b + SLOB_UNITS sz} \<inter> units_of fl = {}"
    using object_page [OF assms] .
  let ?u = "SLOB_UNITS sz" and ?sp = "sh_page h p"
  have k: "ob k = Some (PAGE_SIZE * p + 2 * b, sz)" using assms(2) o(1) by simp
  have ls: "lists_ok h" using assms(1) by (simp add: heap_ok_def)
  have big: "\<not> a \<le> ZERO_SIZE_PTR" using o(1,6) by (simp add: page_no_def)
  have len: "length (sp_mem ?sp) = PAGE_UNITS" using o(8) by (simp add: pg_ok_def)
  have pos: "0 < ?u" using SLOB_UNITS_pos [OF o(4)] .
  consider (whole) "sp_units ?sp + int ?u = int PAGE_UNITS"
    | (first) "sp_units ?sp + int ?u \<noteq> int PAGE_UNITS" "fl = []"
    | (more) "sp_units ?sp + int ?u \<noteq> int PAGE_UNITS" "fl \<noteq> []" by blast
  then show ?thesis
  proof cases
    case whole
    let ?h1 = "if slob_page_free ?sp then clear_slob_page_free p h else h"
    let ?h = "slob_free_pages p 0 (set_slob_page p ((sh_page ?h1 p)\<lparr>sp_slab := False\<rparr>) ?h1)"
    have run: "slob_free a sz h = Some ?h" using big o(2-4) whole by (simp add: slob_free_def Let_def)
    have page: "sh_page ?h = (sh_page h)(p := (sh_page ?h1 p)\<lparr>sp_slab := False\<rparr>)"
      by (simp add: clear_slob_page_free_def slob_free_pages_def set_slob_page_def)
    have "heap_ok ?h (ob(k := None)) \<and> keeps_contents (ob(k := None)) h ?h"
    proof (rule release_whole_page [OF assms(1) k o(5-8,10,11) whole page])
      show "sh_list ?h = (\<lambda>l. remove1 p (sh_list h l))"
        using lists_ok_gone [OF ls o(7)]
        by (cases "slob_page_free ?sp") (simp_all add: slob_free_pages_def set_slob_page_def)
    qed (simp_all add: clear_slob_page_free_def set_slob_page_def slob_free_pages_def)
    then show ?thesis using run by blast
  next
    case first
    have fit: "b + ?u \<le> length (sp_mem ?sp)" using o(5) len by simp
    obtain mem where m: "set_slob (sp_mem ?sp) b ?u PAGE_UNITS = Some mem" "encodes mem b ?u PAGE_UNITS"
        "same_off {b..<b + ?u} (sp_mem ?sp) mem"
      using set_slob_encodes [OF pos fit _ _ len, of PAGE_UNITS] by auto
    let ?sp' = "?sp\<lparr>sp_units := int ?u, sp_freelist := b, sp_mem := mem\<rparr>"
    let ?h = "set_slob_page_free p (slob_list_for sz) (set_slob_page p ?sp' h)"
    have run: "slob_free a sz h = Some ?h"
      using big o(2-4,9) first m(1) by (simp add: slob_free_def Let_def slob_page_free_def)
    have page: "sh_page ?h = (sh_page h)(p := ?sp'\<lparr>sp_slob_free := True\<rparr>)"
      by (simp add: set_slob_page_free_def set_slob_page_def)
    have "lists_ok ?h"
      by (rule lists_ok_add [OF ls _ page]) (use o(7,9) first in \<open>auto simp: set_slob_page_free_def set_slob_page_def\<close>)
    moreover have "pg_ok (?sp'\<lparr>sp_slob_free := True\<rparr>) [(b, ?u)]"
      using m(2,3) o(5) pos len by (simp add: pg_ok_def same_off_def)
    ultimately have "heap_ok ?h (ob(k := None)) \<and> keeps_contents (ob(k := None)) h ?h"
      using release_in_page [OF assms(1) k o(5,8,10) page _ _ o(7), where fl' = "[(b, ?u)]"] first(2) m(3) o(7)
      by (simp add: set_slob_page_free_def set_slob_page_def)
    then show ?thesis using run by blast
  next
    case more
    obtain sp' fl' where r: "slob_reinsert b ?u ?sp = Some sp'" "pg_ok sp' fl'" "fl' \<noteq> []"
        "units_of fl' = units_of fl \<union> {b..<b + ?u}" "same_flags ?sp sp'"
        "same_off (units_of fl \<union> {b..<b + ?u}) (sp_mem ?sp) (sp_mem sp')"
      using reinsert_spec [OF o(8) more(2) o(11) pos o(5)] .
    let ?h = "set_slob_page p sp' h"
    have run: "slob_free a sz h = Some ?h"
      using big o(2-4,9) more r(1) by (simp add: slob_free_def Let_def slob_page_free_def)
    have page: "sh_page ?h = (sh_page h)(p := sp')" by (simp add: set_slob_page_def)
    have "lists_ok ?h" using lists_ok_same [OF ls, of ?h] r(5) by (simp add: set_slob_page_def same_flags_def)
    then have "heap_ok ?h (ob(k := None)) \<and> keeps_contents (ob(k := None)) h ?h"
      using release_in_page [OF assms(1) k o(5,8,10) page _ _ o(7) _ r(2) _ r(4,6)] r(3,5) o(7,9) more(2)
      by (simp add: set_slob_page_def same_flags_def)
    then show ?thesis using run by blast
  qed
qed

section \<open>The interface\<close>

type_synonym 'k slob_client = "slob_heap \<times> 'k objects"

type_synonym slob_request = "nat \<times> bool \<times> nat"

definition client_ok :: "'k slob_client \<Rightarrow> bool" where
  "client_ok s = heap_ok (fst s) (snd s)"

definition client_idle :: "'k slob_client \<Rightarrow> 'k \<Rightarrow> bool" where
  "client_idle s k = (snd s k = None)"

definition request_ok :: "slob_request \<Rightarrow> bool" where
  "request_ok r = (case r of (sz, z, align) \<Rightarrow> 0 < sz \<and> sz < PAGE_SIZE \<and> (align = 0 \<or> align dvd PAGE_SIZE))"

definition request_place :: "slob_request \<Rightarrow> nat \<Rightarrow> nat \<Rightarrow> bool" where
  "request_place r a n = (case r of (sz, z, align) \<Rightarrow> n = sz \<and> aligned_to align a)"

definition client_alloc :: "'k \<Rightarrow> slob_request \<Rightarrow> 'k slob_client \<Rightarrow> (bool \<times> 'k slob_client) option" where
  "client_alloc k r s =
     (case r of (sz, z, align) \<Rightarrow>
        do { (a, h) \<leftarrow> slob_alloc sz z align (fst s);
             Some (if a = 0 then (False, h, snd s) else (True, h, (snd s)(k \<mapsto> (a, sz)))) })"

definition client_free :: "'k \<Rightarrow> 'k slob_client \<Rightarrow> 'k slob_client option" where
  "client_free k s =
     do { (a, sz) \<leftarrow> snd s k;
          h \<leftarrow> slob_free a sz (fst s);
          Some (h, (snd s)(k := None)) }"

definition client_span :: "'k slob_client \<Rightarrow> nat \<times> nat" where
  "client_span s = (0, 2 ^ 64)"

lemma obj_ok_bytes:
  assumes "heap_ok h ob" "ob k = Some (a, z)"
  shows "a + z \<le> 2 ^ 64" "even a" "0 < z" "0 < a"
proof -
  obtain p b where o: "a = PAGE_SIZE * p + 2 * b" "0 < z" "b + SLOB_UNITS z \<le> PAGE_UNITS" "page_no p"
    using object_page [OF assms] by metis
  have "z \<le> 2 * SLOB_UNITS z" by (rule SLOB_UNITS_le)
  then have "a + z \<le> PAGE_SIZE * Suc p" using o(1,3) by simp
  also have "\<dots> \<le> PAGE_SIZE * 2 ^ 52" using o(4) by (intro mult_le_mono2) (simp add: page_no_def)
  finally show "a + z \<le> 2 ^ 64" by simp
  show "even a" "0 < z" "0 < a" using o by (simp_all add: page_no_def)
qed

lemma units_apart:
  assumes "obj_units (a, z) \<inter> obj_units (a', z') = {}" "even a" "even a'" "0 < z" "0 < z'"
  shows "a + z \<le> a' \<or> a' + z' \<le> a"
proof -
  let ?u = "SLOB_UNITS z" and ?v = "SLOB_UNITS z'"
  have u: "0 < ?u" "0 < ?v" "z \<le> 2 * ?u" "z' \<le> 2 * ?v" using assms(4,5) by (simp_all add: SLOB_UNITS_pos SLOB_UNITS_le)
  have "a div 2 + ?u \<le> a' div 2 \<or> a' div 2 + ?v \<le> a div 2"
  proof (rule ccontr)
    assume "\<not> (a div 2 + ?u \<le> a' div 2 \<or> a' div 2 + ?v \<le> a div 2)"
    then have "max (a div 2) (a' div 2) \<in> obj_units (a, z) \<inter> obj_units (a', z')"
      using u(1,2) by (auto simp: obj_units_def max_def)
    then show False using assms(1) by blast
  qed
  then show ?thesis using u(3,4) assms(2,3) by (auto elim!: evenE)
qed

lemma client_apart: "client_ok s \<Longrightarrow> blocks_apart (client_span s) (snd s)"
proof -
  assume s: "client_ok s"
  let ?ob = "snd s"
  have h: "heap_ok (fst s) ?ob" "objects_ok (fst s) ?ob" using s by (simp_all add: client_ok_def heap_ok_def)
  show ?thesis unfolding blocks_apart_def vacant_def
  proof (intro allI impI conjI)
    fix k a z
    assume k: "?ob k = Some (a, z)"
    show "fst (client_span s) \<le> a" "a + z \<le> snd (client_span s)"
      using obj_ok_bytes(1) [OF h(1) k] by (simp_all add: client_span_def)
    fix j a' z'
    assume j: "(?ob(k := None)) j = Some (a', z')"
    then have jk: "j \<noteq> k" "?ob j = Some (a', z')" by (cases "j = k"; simp)+
    then have "obj_units (a, z) \<inter> obj_units (a', z') = {}" using h(2) k unfolding objects_ok_def by blast
    then show "a + z \<le> a' \<or> a' + z' \<le> a"
      using units_apart obj_ok_bytes(2,3) [OF h(1) k] obj_ok_bytes(2,3) [OF h(1) jk(2)] by blast
  qed
qed

lemma client_alloc_law:
  assumes "client_ok s" "client_idle s k" "request_ok r"
  shows "\<exists>b s'. client_alloc k r s = Some (b, s') \<and> client_ok s' \<and> client_span s' = client_span s \<and>
     (if b then \<exists>a z. request_place r a z \<and> vacant (client_span s) (snd s) a z \<and>
               snd s' = (snd s)(k \<mapsto> (a, z)) \<and> (\<forall>j. j \<noteq> k \<longrightarrow> client_idle s j \<longrightarrow> client_idle s' j)
      else s' = s)"
proof -
  obtain h ob where s: "s = (h, ob)" by (cases s)
  obtain sz z align where r: "r = (sz, z, align)" by (cases r)
  have v: "0 < sz" "sz < PAGE_SIZE" "align = 0 \<or> align dvd PAGE_SIZE" using assms(3) r by (simp_all add: request_ok_def)
  have h: "heap_ok h ob" and k: "k \<notin> dom ob" using assms(1,2) s by (auto simp: client_ok_def client_idle_def)
  from slob_alloc_spec [OF h k v, of z] show ?thesis
  proof (elim disjE exE conjE)
    assume "slob_alloc sz z align h = Some (0, h)"
    then have "client_alloc k r s = Some (False, s)" using s r by (simp add: client_alloc_def)
    then show ?thesis using assms(1) by (intro exI [of _ False] exI [of _ s]) simp
  next
    fix p b h'
    let ?a = "PAGE_SIZE * p + 2 * b"
    assume run: "slob_alloc sz z align h = Some (?a, h')" and al: "alloc_ok ob k sz align h p b h'"
    have ok: "heap_ok h' (ob(k \<mapsto> (?a, sz)))" "aligned_to align ?a" using al by (simp_all add: alloc_ok_def)
    have "0 < ?a" using obj_ok_bytes(4) [OF ok(1), of k] by simp
    then have run': "client_alloc k r s = Some (True, h', ob(k \<mapsto> (?a, sz)))" using run s r by (simp add: client_alloc_def)
    have c: "client_ok (h', ob(k \<mapsto> (?a, sz)))" using ok(1) by (simp add: client_ok_def)
    have "vacant (0, 2 ^ 64) (ob(k := None)) ?a sz"
      using client_apart [OF c] unfolding blocks_apart_def client_span_def
      by (metis fun_upd_same fun_upd_upd snd_conv)
    moreover have "ob(k := None) = ob" using k by (simp add: domIff fun_upd_idem)
    ultimately show ?thesis
      using run' c s r ok(2) by (auto simp: client_span_def request_place_def client_idle_def)
  qed
qed

interpretation sl: block_heap client_ok snd client_span client_idle request_ok request_place client_alloc client_free
proof (unfold_locales, goal_cases)
  case (1 s)
  then show ?case by (rule client_apart)
next
  case (2 s k r)
  then show ?case by (rule client_alloc_law)
next
  case (3 s k)
  obtain a sz where k: "snd s k = Some (a, sz)" using 3(2) by auto
  obtain h' where "slob_free a sz (fst s) = Some h'" "heap_ok h' ((snd s)(k := None))"
    using slob_free_spec [of "fst s" "snd s" k a sz] 3(1) k unfolding client_ok_def by blast
  then show ?case using k by (auto simp: client_free_def client_ok_def client_span_def client_idle_def)
qed

section \<open>The kmalloc front end\<close>

lemma put_get:
  assumes "m mod PAGE_SIZE div 2 + 1 < length (sp_mem (sh_page h (m div PAGE_SIZE)))" "v < 2 ^ 32"
  obtains mem where "put_uint m v h = Some (set_slob_page (m div PAGE_SIZE) ((sh_page h (m div PAGE_SIZE))\<lparr>sp_mem := mem\<rparr>) h)"
    "same_off {m mod PAGE_SIZE div 2..<m mod PAGE_SIZE div 2 + 2} (sp_mem (sh_page h (m div PAGE_SIZE))) mem"
    "\<And>h'. length (sp_mem (sh_page h' (m div PAGE_SIZE))) = length mem \<Longrightarrow>
       sp_mem (sh_page h' (m div PAGE_SIZE)) ! (m mod PAGE_SIZE div 2) = mem ! (m mod PAGE_SIZE div 2) \<Longrightarrow>
       sp_mem (sh_page h' (m div PAGE_SIZE)) ! (m mod PAGE_SIZE div 2 + 1) = mem ! (m mod PAGE_SIZE div 2 + 1) \<Longrightarrow>
       get_uint m h' = Some v"
proof -
  define s16 :: "nat \<Rightarrow> int" where "s16 = (\<lambda>n. if n < 32768 then int n else int n - 65536)"
  let ?b = "m mod PAGE_SIZE div 2" and ?mem = "sp_mem (sh_page h (m div PAGE_SIZE))"
  define mem where "mem = (?mem[?b := s16 (v mod 65536)])[?b + 1 := s16 (v div 65536 mod 65536)]"
  have s16_back: "nat (s16 n mod 65536) = n" if "n < 65536" for n
  proof (cases "n < 32768")
    case False
    have "(int n - 65536) mod 65536 = int n mod 65536" by (metis minus_mod_self2)
    then show ?thesis using that False by (simp add: s16_def)
  qed (use that in \<open>simp add: s16_def\<close>)
  have v: "v div 65536 < 65536" "v mod 65536 + 65536 * (v div 65536) = v" using assms(2) by simp_all
  have at: "mem ! ?b = s16 (v mod 65536)" "mem ! (?b + 1) = s16 (v div 65536)" "length mem = length ?mem"
    using assms(1) v(1) by (simp_all add: mem_def nth_list_update)
  show thesis
  proof (rule that [of mem])
    show "put_uint m v h = Some (set_slob_page (m div PAGE_SIZE) ((sh_page h (m div PAGE_SIZE))\<lparr>sp_mem := mem\<rparr>) h)"
      using assms(1) by (simp add: put_uint_def mem_def s16_def Let_def)
    show "same_off {?b..<?b + 2} ?mem mem" by (auto simp: same_off_def mem_def nth_list_update)
    fix h' :: slob_heap
    assume "length (sp_mem (sh_page h' (m div PAGE_SIZE))) = length mem"
      "sp_mem (sh_page h' (m div PAGE_SIZE)) ! ?b = mem ! ?b" "sp_mem (sh_page h' (m div PAGE_SIZE)) ! (?b + 1) = mem ! (?b + 1)"
    then show "get_uint m h' = Some v"
      using at assms(1) s16_back [of "v mod 65536"] s16_back [of "v div 65536"] v by (simp add: get_uint_def Let_def)
  qed
qed

text \<open>The header of an object has not been overwritten.\<close>

definition header_kept :: "nat \<Rightarrow> slob_heap \<Rightarrow> slob_heap \<Rightarrow> bool" where
  "header_kept m h h' \<longleftrightarrow> cell h' (m div 2) = cell h (m div 2) \<and> cell h' (m div 2 + 1) = cell h (m div 2 + 1)"

lemma page_length: "heap_ok h ob \<Longrightarrow> sp_slab (sh_page h p) \<Longrightarrow> length (sp_mem (sh_page h p)) = PAGE_UNITS"
  by (auto simp: heap_ok_def page_ok_def pg_ok_def)

lemma kmalloc_spec:
  assumes "heap_ok h ob" "k \<notin> dom ob" "0 < sz" "4 \<le> align" "align dvd PAGE_SIZE" "sz < PAGE_SIZE - align"
  shows "do_kmalloc_node align ord sz z h = Some (0, h) \<and> (\<forall>p. (0, p) \<notin> set (sh_supply h)) \<or>
    (\<exists>p b h'. do_kmalloc_node align ord sz z h = Some (PAGE_SIZE * p + 2 * b + align, h') \<and>
       alloc_ok ob k (sz + align) align h p b h' \<and>
       (\<forall>h''. sp_slab (sh_page h'' p) \<longrightarrow> length (sp_mem (sh_page h'' p)) = PAGE_UNITS \<longrightarrow>
          header_kept (PAGE_SIZE * p + 2 * b) h' h'' \<longrightarrow> get_uint (PAGE_SIZE * p + 2 * b) h'' = Some sz))"
proof -
  have v: "0 < sz + align" "sz + align < PAGE_SIZE" "align = 0 \<or> align dvd PAGE_SIZE" using assms(3,5,6) by simp_all
  from slob_alloc_spec [OF assms(1,2) v, of z] consider
      (no) "slob_alloc (sz + align) z align h = Some (0, h)" "\<forall>p. (0, p) \<notin> set (sh_supply h)"
    | (yes) p b h1 where "slob_alloc (sz + align) z align h = Some (PAGE_SIZE * p + 2 * b, h1)"
        "alloc_ok ob k (sz + align) align h p b h1" by blast
  then show ?thesis
  proof cases
    case no
    then show ?thesis using assms(3,6) by (simp add: do_kmalloc_node_def)
  next
    case (yes p b h1)
    let ?m = "PAGE_SIZE * p + 2 * b" and ?u = "SLOB_UNITS (sz + align)"
    have a: "b + ?u \<le> PAGE_UNITS" "sp_slab (sh_page h1 p)" "heap_ok h1 (ob(k \<mapsto> (?m, sz + align)))"
      using yes(2) by (simp_all add: alloc_ok_def)
    have u: "2 \<le> ?u" using assms(4) by (simp add: SLOB_UNITS_def)
    then have b: "b + 1 < PAGE_UNITS" using a(1) by simp
    have pb: "?m div PAGE_SIZE = p" "?m mod PAGE_SIZE div 2 = b" using at_page [of b p] b by simp_all
    have len: "length (sp_mem (sh_page h1 p)) = PAGE_UNITS" using page_length [OF a(3,2)] .
    have pre: "?m mod PAGE_SIZE div 2 + 1 < length (sp_mem (sh_page h1 (?m div PAGE_SIZE)))" "sz < 2 ^ 32"
      using b len assms(6) unfolding pb by simp_all
    obtain mem where m: "put_uint ?m sz h1 = Some (set_slob_page p ((sh_page h1 p)\<lparr>sp_mem := mem\<rparr>) h1)"
        "same_off {b..<b + 2} (sp_mem (sh_page h1 p)) mem"
        "\<And>h'. length (sp_mem (sh_page h' p)) = length mem \<Longrightarrow> sp_mem (sh_page h' p) ! b = mem ! b \<Longrightarrow>
           sp_mem (sh_page h' p) ! (b + 1) = mem ! (b + 1) \<Longrightarrow> get_uint ?m h' = Some sz"
      using put_get [OF pre, unfolded pb] by blast
    let ?h = "set_slob_page p ((sh_page h1 p)\<lparr>sp_mem := mem\<rparr>) h1"
    have "0 < ?m" using obj_ok_bytes(4) [OF a(3), of k] by simp
    then have run: "do_kmalloc_node align ord sz z h = Some (?m + align, ?h)"
      using yes(1) m(1) assms(3,6) by (auto simp: do_kmalloc_node_def)
    have ok: "alloc_ok ob k (sz + align) align h p b ?h"
      by (rule alloc_ok_write [OF yes(2) assms(2) m(2)]) (use u in auto)
    have "get_uint ?m h'' = Some sz"
      if "sp_slab (sh_page h'' p)" "length (sp_mem (sh_page h'' p)) = PAGE_UNITS" "header_kept ?m ?h h''" for h''
    proof (rule m(3))
      have "?m div 2 = PAGE_UNITS * p + b" by simp
      then have "(?m div 2) div PAGE_UNITS = p" "(?m div 2) mod PAGE_UNITS = b"
        "(?m div 2 + 1) div PAGE_UNITS = p" "(?m div 2 + 1) mod PAGE_UNITS = b + 1" using b by simp_all
      then show "sp_mem (sh_page h'' p) ! b = mem ! b" "sp_mem (sh_page h'' p) ! (b + 1) = mem ! (b + 1)"
        using that(3) unfolding header_kept_def cell_def by (simp_all add: set_slob_page_def)
      show "length (sp_mem (sh_page h'' p)) = length mem" using that(2) m(2) len by (simp add: same_off_def)
    qed
    then show ?thesis using run ok by blast
  qed
qed

section \<open>Properties\<close>

text \<open>The allocator at boot, with the pages the page allocator will hand out.\<close>

definition blank_page :: slob_page where
  "blank_page = \<lparr>sp_units = 0, sp_freelist = 0, sp_mem = replicate PAGE_UNITS 0, sp_slob_free = False,
     sp_slab = False, sp_compound = 0\<rparr>"

definition slob_boot :: "nat list \<Rightarrow> slob_heap" where
  "slob_boot ps = \<lparr>sh_page = (\<lambda>_. blank_page), sh_list = (\<lambda>_. []), sh_supply = map (Pair 0) ps\<rparr>"

lemma slob_boot_ok:
  assumes "distinct ps" "\<forall>p \<in> set ps. page_no p"
  shows "heap_ok (slob_boot ps) Map.empty"
proof -
  have "filter (\<lambda>x. fst x = 0) (map (Pair 0) ps) = map (Pair (0 :: nat)) ps" by (simp add: filter_map comp_def)
  moreover have "distinct (map (Pair (0 :: nat)) ps)" using assms(1) by (simp add: distinct_map inj_on_def)
  ultimately show ?thesis using assms(2)
    by (auto simp: heap_ok_def objects_ok_def lists_ok_def supply_ok_def slob_boot_def blank_page_def)
qed

lemma boot_idle: "sl.owners_ok UNIV (slob_boot ps, Map.empty)"
  by (simp add: sl.owners_ok_def client_idle_def)

text \<open>C11: Starting from an empty heap, any sequence of valid allocations and of releases of what was allocated runs to its end, without a check firing and without an endless walk over a free list, and the objects that are live at the end do not overlap.\<close>

theorem slob_sequences:
  assumes "distinct ps" "\<forall>p \<in> set ps. page_no p"
    "\<forall>op \<in> set ops. case op of Alloc k r \<Rightarrow> request_ok r | Release k \<Rightarrow> True"
  shows "\<exists>s. run_ranges snd client_alloc client_free ops (slob_boot ps, Map.empty) = Some s \<and>
     blocks_apart (0, 2 ^ 64) (snd s)"
proof -
  have "client_ok (slob_boot ps, Map.empty)" using slob_boot_ok [OF assms(1,2)] by (simp add: client_ok_def)
  moreover have "\<forall>op \<in> set ops. sl.op_ok UNIV op"
    using assms(3) by (auto simp: sl.op_ok_def split: range_op.splits)
  ultimately show ?thesis
    using sl.run_blocks_apart [OF _ boot_idle] by (auto simp: client_span_def)
qed

theorem slob_sequences_witness:
  "\<exists>s. run_ranges snd client_alloc client_free
      [Alloc (1 :: nat) (100, False, 8), Alloc 2 (3000, True, 0), Release 1, Alloc 3 (1200, False, 64)]
      (slob_boot [7, 9], Map.empty) = Some s \<and> blocks_apart (0, 2 ^ 64) (snd s)"
  by (rule slob_sequences) (auto simp: page_no_def request_ok_def)

text \<open>C31: An allocation returns a block that is aligned as asked, belongs to no live object, and leaves the contents of all live objects as they are; it fails only when the page allocator has no page left, and then changes nothing.\<close>

theorem slob_alloc_correct:
  assumes "heap_ok h ob" "ob k = None" "0 < sz" "sz < PAGE_SIZE" "align = 0 \<or> align dvd PAGE_SIZE"
  shows "\<exists>a h'. slob_alloc sz z align h = Some (a, h') \<and>
    (if a = 0 then h' = h \<and> (\<forall>p. (0, p) \<notin> set (sh_supply h))
     else heap_ok h' (ob(k \<mapsto> (a, sz))) \<and> (align = 0 \<or> align dvd a) \<and>
       (\<forall>w \<in> obj_units (a, sz). \<not> used ob w) \<and> (\<forall>w. used ob w \<longrightarrow> cell h' w = cell h w))"
proof -
  have k: "k \<notin> dom ob" using assms(2) by (simp add: domIff)
  from slob_alloc_spec [OF assms(1) k assms(3-5), of z] show ?thesis
  proof (elim disjE exE conjE)
    fix p b h'
    let ?a = "PAGE_SIZE * p + 2 * b"
    assume run: "slob_alloc sz z align h = Some (?a, h')" and ok: "alloc_ok ob k sz align h p b h'"
    then have h': "heap_ok h' (ob(k \<mapsto> (?a, sz)))" by (simp add: alloc_ok_def)
    have "0 < ?a" using obj_ok_bytes(4) [OF h', of k] by simp
    then show ?thesis using run ok h' by (auto simp: alloc_ok_def aligned_to_def keeps_contents_def)
  qed auto
qed

theorem slob_alloc_correct_witness:
  "\<exists>a h'. slob_alloc 100 False 8 (slob_boot [7]) = Some (a, h') \<and> a \<noteq> 0 \<and> 8 dvd a"
proof -
  have h: "heap_ok (slob_boot [7]) (Map.empty :: nat objects)" by (rule slob_boot_ok) (simp_all add: page_no_def)
  have "\<exists>p. (0, p) \<in> set (sh_supply (slob_boot [7]))" by (auto simp: slob_boot_def)
  then show ?thesis
    using slob_alloc_correct [OF h, where k = 0 and sz = 100 and align = 8 and z = False] by (auto split: if_splits)
qed

text \<open>C32: \<open>kmalloc\<close> and \<open>kfree\<close> belong together: a block from \<open>kmalloc\<close> is aligned and belongs to no live object; \<open>ksize\<close> tells its size rounded up to whole units; and in any later state of the heap in which the four bytes in front of the block are intact, \<open>kfree\<close> of it returns and gives back exactly that block.\<close>

theorem kmalloc_kfree:
  assumes "heap_ok h ob" "ob k = None" "0 < sz" "4 \<le> align" "align dvd PAGE_SIZE" "sz < PAGE_SIZE - align"
    "do_kmalloc_node align get_order sz z h = Some (a, h')" "a \<noteq> 0"
  shows "align dvd a \<and> heap_ok h' (ob(k \<mapsto> (a - align, sz + align))) \<and> ksize align a h' = Some (2 * SLOB_UNITS sz) \<and>
    (\<forall>h'' ob''. heap_ok h'' ob'' \<longrightarrow> ob'' k = Some (a - align, sz + align) \<longrightarrow> header_kept (a - align) h' h'' \<longrightarrow>
       (\<exists>g. kfree align a h'' = Some g \<and> heap_ok g (ob''(k := None)) \<and>
          (\<forall>w. used (ob''(k := None)) w \<longrightarrow> cell g w = cell h'' w)))"
proof -
  have k: "k \<notin> dom ob" using assms(2) by (simp add: domIff)
  obtain p b where r: "a = PAGE_SIZE * p + 2 * b + align" "alloc_ok ob k (sz + align) align h p b h'"
      "\<forall>h''. sp_slab (sh_page h'' p) \<longrightarrow> length (sp_mem (sh_page h'' p)) = PAGE_UNITS \<longrightarrow>
          header_kept (PAGE_SIZE * p + 2 * b) h' h'' \<longrightarrow> get_uint (PAGE_SIZE * p + 2 * b) h'' = Some sz"
    using kmalloc_spec [OF assms(1) k assms(3-6), of get_order z] assms(7,8) by auto
  let ?m = "PAGE_SIZE * p + 2 * b"
  have al: "align dvd ?m" "sp_slab (sh_page h' p)" "heap_ok h' (ob(k \<mapsto> (?m, sz + align)))" "b + SLOB_UNITS (sz + align) \<le> PAGE_UNITS"
    using r(2) assms(4) by (auto simp: alloc_ok_def aligned_to_def)
  have am: "a - align = ?m" "align dvd a" using r(1) al(1) by simp_all
  have "sz + align \<le> 2 * SLOB_UNITS (sz + align)" by (rule SLOB_UNITS_le)
  then have "2 * b + align < PAGE_SIZE" using al(4) assms(3) by linarith
  then have pa: "a div PAGE_SIZE = p" using r(1) by simp
  have big: "p \<noteq> 0" using page_length [OF al(3,2)] al(2,3) by (auto simp: heap_ok_def page_ok_def page_no_def)
  then have big': "\<not> a \<le> ZERO_SIZE_PTR" "a \<noteq> 0" "a \<noteq> ZERO_SIZE_PTR" using r(1) by simp_all
  have ks: "ksize align a h' = Some (2 * SLOB_UNITS sz)"
    using r(3) al(2) page_length [OF al(3,2)] big' pa am(1) by (simp add: ksize_def header_kept_def Let_def)
  have free: "\<exists>g. kfree align a h'' = Some g \<and> heap_ok g (ob''(k := None)) \<and>
          (\<forall>w. used (ob''(k := None)) w \<longrightarrow> cell g w = cell h'' w)"
    if h: "heap_ok h'' ob''" "ob'' k = Some (?m, sz + align)" "header_kept ?m h' h''" for h'' ob''
  proof -
    have slab: "sp_slab (sh_page h'' p)"
    proof -
      have "obj_ok h'' (?m, sz + align)" using objects_okD [of h'' ob'' k] h(1,2) by (simp add: heap_ok_def)
      moreover have "b < PAGE_UNITS" using al(4) SLOB_UNITS_pos [of "sz + align"] assms(3) by simp
      ultimately show ?thesis using at_page(1) [of b p] by (simp add: obj_ok_def)
    qed
    have "get_uint ?m h'' = Some sz" using r(3) slab page_length [OF h(1) slab] h(3) by blast
    then show ?thesis using slob_free_spec [OF h(1,2)] slab big'(1) pa am(1)
      by (simp add: kfree_def Let_def keeps_contents_def)
  qed
  then show ?thesis using am al(3) ks by simp
qed

theorem kmalloc_kfree_witness:
  "\<exists>a h'. do_kmalloc_node 8 (\<lambda>_. 0) 101 False (slob_boot [7]) = Some (a, h') \<and> ksize 8 a h' = Some 102 \<and>
     (\<exists>g. kfree 8 a h' = Some g)"
proof -
  have h: "heap_ok (slob_boot [7]) (Map.empty :: nat objects)" by (rule slob_boot_ok) (simp_all add: page_no_def)
  have "\<exists>p. (0, p) \<in> set (sh_supply (slob_boot [7]))" by (auto simp: slob_boot_def)
  then obtain p b h' where r: "do_kmalloc_node 8 (\<lambda>_. 0) 101 False (slob_boot [7]) = Some (PAGE_SIZE * p + 2 * b + 8, h')"
    using kmalloc_spec [OF h, where k = 0 and sz = 101 and align = 8 and z = False and ord = "\<lambda>_. 0"] by auto
  from kmalloc_kfree [OF h _ _ _ _ _ r, of 0]
  have k: "heap_ok h' ((Map.empty :: nat objects)(0 \<mapsto> (PAGE_SIZE * p + 2 * b, 109)))"
      "ksize 8 (PAGE_SIZE * p + 2 * b + 8) h' = Some (2 * SLOB_UNITS 101)"
      "\<And>h'' (ob'' :: nat objects). heap_ok h'' ob'' \<Longrightarrow> ob'' 0 = Some (PAGE_SIZE * p + 2 * b, 109) \<Longrightarrow>
         header_kept (PAGE_SIZE * p + 2 * b) h' h'' \<Longrightarrow> \<exists>g. kfree 8 (PAGE_SIZE * p + 2 * b + 8) h'' = Some g"
    by (auto, blast)
  have "\<exists>g. kfree 8 (PAGE_SIZE * p + 2 * b + 8) h' = Some g" using k(3) [OF k(1)] by (simp add: header_kept_def)
  then show ?thesis using r k(2) by (auto simp: SLOB_UNITS_def)
qed

text \<open>
  The constructor of a cache is called even when no memory was found: then it is given the
  address 0.
\<close>

lemma cache_ctor_null:
  assumes "kc_size c < PAGE_SIZE" "slob_alloc (kc_size c) z (kc_align c) h = Some (0, h')"
  shows "kmem_cache_alloc_node ord (Some f) c z h = do { h2 \<leftarrow> f 0 h'; Some (0, h2) }"
  using assms by (simp add: kmem_cache_alloc_node_def)

end
