(* ===== verification/PthreadMutex.thy ===== *)
theory PthreadMutex
  imports Prelude
begin

text \<open>
  The mutex of the Android C library (\<^verbatim>\<open>src/android_pthread_mutex_bug/pthread_mutex.cpp\<close>),
  with the deadline arithmetic of \<^verbatim>\<open>pthread_internals.cpp\<close>.

  A mutex is one 32-bit word.  Every C function is cut at its accesses to that word: a label
  names the access the thread performs next, with the local variables that are still needed,
  and one step of the function performs the access and all the local computation up to the next
  one.  The steps of different threads interleave freely.

  The header files \<^verbatim>\<open>bionic_atomic_inline.h\<close>, \<^verbatim>\<open>bionic_futex.h\<close> and \<^verbatim>\<open>pthread.h\<close> are not part of the
  sources: the atomic operations, the futex calls and the public constants are the fields of
  the record \<^verbatim>\<open>bionic\<close>, and \<^verbatim>\<open>bionic_ok\<close> states the behaviour that the comments of the
  source rely on.
\<close>

section \<open>What the C library headers provide\<close>

type_synonym mword = "32 word"

record bionic =
  bionic_cmpxchg :: "mword \<Rightarrow> mword \<Rightarrow> mword \<Rightarrow> mword \<times> mword"
  bionic_swap :: "mword \<Rightarrow> mword \<Rightarrow> mword \<times> mword"
  bionic_atomic_dec :: "mword \<Rightarrow> mword \<times> mword"
  futex_blocks :: "mword \<Rightarrow> mword \<Rightarrow> mword \<Rightarrow> bool"
  futex_wakes :: "mword \<Rightarrow> nat \<Rightarrow> nat list \<Rightarrow> nat list"
  PTHREAD_MUTEX_NORMAL :: mword
  PTHREAD_MUTEX_RECURSIVE :: mword
  PTHREAD_MUTEX_ERRORCHECK :: mword
  PTHREAD_MUTEX_DEFAULT :: mword
  PTHREAD_PROCESS_PRIVATE :: mword
  PTHREAD_PROCESS_SHARED :: mword
  LP64 :: bool

text \<open>
  The atomic operations take the current contents of the word last and return their result
  with the new contents.  \<^verbatim>\<open>futex_blocks B shared cur val\<close> tells whether a wait for \<^verbatim>\<open>val\<close>
  goes to sleep when the word holds \<^verbatim>\<open>cur\<close>; \<^verbatim>\<open>futex_wakes B shared n q\<close> are the threads that a wake-up of \<^verbatim>\<open>n\<close> picks
  from the sleepers \<^verbatim>\<open>q\<close>.
\<close>

definition bionic_ok :: "bionic \<Rightarrow> bool" where
  "bionic_ok B \<longleftrightarrow>
     (\<forall>old new cur. (fst (bionic_cmpxchg B old new cur) = 0 \<longleftrightarrow> cur = old) \<and>
                    snd (bionic_cmpxchg B old new cur) = (if cur = old then new else cur)) \<and>
     (\<forall>new cur. bionic_swap B new cur = (cur, new)) \<and>
     (\<forall>cur. bionic_atomic_dec B cur = (cur, cur - 1)) \<and>
     (\<forall>shared cur val. futex_blocks B shared cur val \<longleftrightarrow> cur = val) \<and>
     (\<forall>shared n q. distinct q \<longrightarrow> distinct (futex_wakes B shared n q) \<and>
        set (futex_wakes B shared n q) \<subseteq> set q \<and>
        length (futex_wakes B shared n q) = min n (length q))"

definition constants_ok :: "bionic \<Rightarrow> bool" where
  "constants_ok B \<longleftrightarrow>
     PTHREAD_MUTEX_NORMAL B = 0 \<and> PTHREAD_MUTEX_RECURSIVE B = 1 \<and>
     PTHREAD_MUTEX_ERRORCHECK B = 2 \<and> PTHREAD_MUTEX_DEFAULT B = PTHREAD_MUTEX_NORMAL B \<and>
     PTHREAD_PROCESS_PRIVATE B \<noteq> PTHREAD_PROCESS_SHARED B"

section \<open>The fields of the mutex word\<close>

definition FIELD_MASK :: "nat \<Rightarrow> nat \<Rightarrow> mword" where
  "FIELD_MASK sft bits = push_bit sft (push_bit bits 1 - 1)"

definition FIELD_TO_BITS :: "mword \<Rightarrow> nat \<Rightarrow> nat \<Rightarrow> mword" where
  "FIELD_TO_BITS val sft bits = push_bit sft (val AND (push_bit bits 1 - 1))"

definition FIELD_FROM_BITS :: "mword \<Rightarrow> nat \<Rightarrow> nat \<Rightarrow> mword" where
  "FIELD_FROM_BITS val sft bits = signed_drop_bit sft val AND (push_bit bits 1 - 1)"

definition MUTEX_STATE_MASK :: mword where
  "MUTEX_STATE_MASK = FIELD_MASK 0 2"

definition MUTEX_STATE_TO_BITS :: "mword \<Rightarrow> mword" where
  "MUTEX_STATE_TO_BITS v = FIELD_TO_BITS v 0 2"

definition MUTEX_STATE_BITS_UNLOCKED :: mword where
  "MUTEX_STATE_BITS_UNLOCKED = MUTEX_STATE_TO_BITS 0"

definition MUTEX_STATE_BITS_LOCKED_UNCONTENDED :: mword where
  "MUTEX_STATE_BITS_LOCKED_UNCONTENDED = MUTEX_STATE_TO_BITS 1"

definition MUTEX_STATE_BITS_LOCKED_CONTENDED :: mword where
  "MUTEX_STATE_BITS_LOCKED_CONTENDED = MUTEX_STATE_TO_BITS 2"

definition MUTEX_STATE_BITS_IS_LOCKED_UNCONTENDED :: "mword \<Rightarrow> bool" where
  "MUTEX_STATE_BITS_IS_LOCKED_UNCONTENDED v \<longleftrightarrow>
     v AND MUTEX_STATE_MASK = MUTEX_STATE_BITS_LOCKED_UNCONTENDED"

definition MUTEX_STATE_BITS_IS_LOCKED_CONTENDED :: "mword \<Rightarrow> bool" where
  "MUTEX_STATE_BITS_IS_LOCKED_CONTENDED v \<longleftrightarrow>
     v AND MUTEX_STATE_MASK = MUTEX_STATE_BITS_LOCKED_CONTENDED"

definition MUTEX_STATE_BITS_FLIP_CONTENTION :: "mword \<Rightarrow> mword" where
  "MUTEX_STATE_BITS_FLIP_CONTENTION v =
     v XOR (MUTEX_STATE_BITS_LOCKED_CONTENDED XOR MUTEX_STATE_BITS_LOCKED_UNCONTENDED)"

definition MUTEX_COUNTER_MASK :: mword where
  "MUTEX_COUNTER_MASK = FIELD_MASK 2 11"

definition MUTEX_COUNTER_BITS_WILL_OVERFLOW :: "mword \<Rightarrow> bool" where
  "MUTEX_COUNTER_BITS_WILL_OVERFLOW v \<longleftrightarrow> v AND MUTEX_COUNTER_MASK = MUTEX_COUNTER_MASK"

definition MUTEX_COUNTER_BITS_IS_ZERO :: "mword \<Rightarrow> bool" where
  "MUTEX_COUNTER_BITS_IS_ZERO v \<longleftrightarrow> v AND MUTEX_COUNTER_MASK = 0"

definition MUTEX_COUNTER_BITS_ONE :: mword where
  "MUTEX_COUNTER_BITS_ONE = FIELD_TO_BITS 1 2 11"

definition MUTEX_SHARED_MASK :: mword where
  "MUTEX_SHARED_MASK = FIELD_MASK 13 1"

definition MUTEX_TYPE_MASK :: mword where
  "MUTEX_TYPE_MASK = FIELD_MASK 14 2"

definition MUTEX_TYPE_TO_BITS :: "mword \<Rightarrow> mword" where
  "MUTEX_TYPE_TO_BITS t = FIELD_TO_BITS t 14 2"

definition MUTEX_TYPE_BITS_NORMAL :: mword where
  "MUTEX_TYPE_BITS_NORMAL = MUTEX_TYPE_TO_BITS 0"

definition MUTEX_TYPE_BITS_RECURSIVE :: mword where
  "MUTEX_TYPE_BITS_RECURSIVE = MUTEX_TYPE_TO_BITS 1"

definition MUTEX_TYPE_BITS_ERRORCHECK :: mword where
  "MUTEX_TYPE_BITS_ERRORCHECK = MUTEX_TYPE_TO_BITS 2"

definition MUTEX_OWNER_FROM_BITS :: "mword \<Rightarrow> mword" where
  "MUTEX_OWNER_FROM_BITS v = FIELD_FROM_BITS v 16 16"

definition MUTEX_OWNER_TO_BITS :: "mword \<Rightarrow> mword" where
  "MUTEX_OWNER_TO_BITS v = FIELD_TO_BITS v 16 16"

section \<open>Attributes and initialisation\<close>

datatype errno = OK | EPERM | EAGAIN | EBUSY | EDEADLK | ETIMEDOUT | EINVAL

definition MUTEXATTR_TYPE_MASK :: mword where
  "MUTEXATTR_TYPE_MASK = 0x000f"

definition MUTEXATTR_SHARED_MASK :: mword where
  "MUTEXATTR_SHARED_MASK = 0x0010"

definition pthread_mutexattr_init :: "bionic \<Rightarrow> mword \<Rightarrow> errno \<times> mword" where
  "pthread_mutexattr_init B attr = (OK, PTHREAD_MUTEX_DEFAULT B)"

definition pthread_mutexattr_destroy :: "mword \<Rightarrow> errno \<times> mword" where
  "pthread_mutexattr_destroy attr = (OK, - 1)"

text \<open>The C code compares the types as signed integers.\<close>

definition bad_type :: "bionic \<Rightarrow> mword \<Rightarrow> bool" where
  "bad_type B ty \<longleftrightarrow>
     sint ty < sint (PTHREAD_MUTEX_NORMAL B) \<or> sint ty > sint (PTHREAD_MUTEX_ERRORCHECK B)"

definition pthread_mutexattr_gettype :: "bionic \<Rightarrow> mword \<Rightarrow> mword \<Rightarrow> errno \<times> mword" where
  "pthread_mutexattr_gettype B attr type_p =
     (let ty = attr AND MUTEXATTR_TYPE_MASK in
      if bad_type B ty then (EINVAL, type_p) else (OK, ty))"

definition pthread_mutexattr_settype :: "bionic \<Rightarrow> mword \<Rightarrow> mword \<Rightarrow> errno \<times> mword" where
  "pthread_mutexattr_settype B attr ty =
     (if bad_type B ty then (EINVAL, attr)
      else (OK, (attr AND NOT MUTEXATTR_TYPE_MASK) OR ty))"

definition pthread_mutexattr_setpshared :: "bionic \<Rightarrow> mword \<Rightarrow> mword \<Rightarrow> errno \<times> mword" where
  "pthread_mutexattr_setpshared B attr pshared =
     (if pshared = PTHREAD_PROCESS_PRIVATE B then (OK, attr AND NOT MUTEXATTR_SHARED_MASK)
      else if pshared = PTHREAD_PROCESS_SHARED B then (OK, attr OR MUTEXATTR_SHARED_MASK)
      else (EINVAL, attr))"

definition pthread_mutexattr_getpshared :: "bionic \<Rightarrow> mword \<Rightarrow> errno \<times> mword" where
  "pthread_mutexattr_getpshared B attr =
     (OK, if attr AND MUTEXATTR_SHARED_MASK \<noteq> 0 then PTHREAD_PROCESS_SHARED B
          else PTHREAD_PROCESS_PRIVATE B)"

text \<open>The second argument is the word before the call; \<^verbatim>\<open>None\<close> is a null attribute pointer.\<close>

definition pthread_mutex_init :: "bionic \<Rightarrow> mword \<Rightarrow> mword option \<Rightarrow> errno \<times> mword" where
  "pthread_mutex_init B val attr =
     (case attr of
        None \<Rightarrow> (OK, MUTEX_TYPE_BITS_NORMAL)
      | Some a \<Rightarrow>
          let v = (if a AND MUTEXATTR_SHARED_MASK \<noteq> 0 then 0 OR MUTEX_SHARED_MASK else 0);
              ty = a AND MUTEXATTR_TYPE_MASK in
          if ty = PTHREAD_MUTEX_NORMAL B then (OK, v OR MUTEX_TYPE_BITS_NORMAL)
          else if ty = PTHREAD_MUTEX_RECURSIVE B then (OK, v OR MUTEX_TYPE_BITS_RECURSIVE)
          else if ty = PTHREAD_MUTEX_ERRORCHECK B then (OK, v OR MUTEX_TYPE_BITS_ERRORCHECK)
          else (EINVAL, val))"

section \<open>Deadlines\<close>

record timespec =
  tv_sec :: int
  tv_nsec :: int

text \<open>\<^verbatim>\<open>now\<close> is what \<^verbatim>\<open>clock_gettime\<close> returns.\<close>

definition timespec_from_absolute :: "timespec \<Rightarrow> timespec \<Rightarrow> int \<times> timespec" where
  "timespec_from_absolute now abstime =
     (let sec = tv_sec abstime - tv_sec now;
          nsec = tv_nsec abstime - tv_nsec now;
          (sec', nsec') = (if nsec < 0 then (sec - 1, nsec + 1000000000) else (sec, nsec)) in
      (if nsec' < 0 \<or> sec' < 0 then -1 else 0, \<lparr>tv_sec = sec', tv_nsec = nsec'\<rparr>))"

definition expired :: "timespec \<Rightarrow> timespec \<Rightarrow> bool" where
  "expired now abstime \<longleftrightarrow> fst (timespec_from_absolute now abstime) < 0"

definition timeout_np_deadline :: "timespec \<Rightarrow> 32 word \<Rightarrow> timespec" where
  "timeout_np_deadline now ms =
     (let sec = tv_sec now + uint (ms div 1000);
          nsec = tv_nsec now + uint (ms mod 1000) * 1000000 in
      if nsec \<ge> 1000000000 then \<lparr>tv_sec = sec + 1, tv_nsec = nsec - 1000000000\<rparr>
      else \<lparr>tv_sec = sec, tv_nsec = nsec\<rparr>)"

section \<open>Labels\<close>

text \<open>
  Positions in \<^verbatim>\<open>_normal_lock\<close>, \<^verbatim>\<open>_normal_unlock\<close>, \<^verbatim>\<open>_recursive_increment\<close>, \<^verbatim>\<open>pthread_mutex_lock\<close>,
  \<^verbatim>\<open>pthread_mutex_unlock\<close>, \<^verbatim>\<open>pthread_mutex_trylock\<close> and \<^verbatim>\<open>__pthread_mutex_timedlock\<close>; the arguments are
  \<^verbatim>\<open>mvalue\<close>, \<^verbatim>\<open>mtype\<close> and \<^verbatim>\<open>shared\<close>, as far as they are still used.
\<close>

datatype nl_label = NL_cas mword | NL_swap mword | NL_wait mword

datatype nu_label = NU_dec mword | NU_store mword | NU_wake mword

datatype ri_label = RI_cas mword | RI_load

datatype l_label =
  L_load
| L_quick mword mword
| L_reload mword mword
| L_loop mword mword mword
| L_wait mword mword mword

datatype u_label =
  U_load
| U_cas mword
| U_reload
| U_swap mword mword
| U_wake mword

datatype t_label = T_load | TN_cas mword | T_cas mword

datatype d_label =
  D_load
| DN_cas mword
| DN_swap mword
| DN_time mword
| DN_wait mword
| D_quick mword mword
| D_reload mword mword
| D_loop mword mword mword
| D_late mword mword
| D_flipload mword mword
| D_time mword mword mword
| D_wait mword mword mword

text \<open>
  \<^verbatim>\<open>Done e\<close>: the thread is in no call, its last one returned \<^verbatim>\<open>e\<close>.  The flag of \<^verbatim>\<open>RI\<close> and \<^verbatim>\<open>T\<close> says
  that the call was made by \<^verbatim>\<open>pthread_mutex_destroy\<close>, whose store is \<^verbatim>\<open>X_store\<close>.  \<^verbatim>\<open>D\<close> carries the deadline and whether
  the caller is \<^verbatim>\<open>pthread_mutex_lock_timeout_np\<close>.  \<^verbatim>\<open>Asleep l t\<close>: inside a futex wait, after which
  the thread is at \<^verbatim>\<open>l\<close>, or, where the wait has a timeout that ends it, at \<^verbatim>\<open>t\<close>.
\<close>

datatype label =
  Done errno
| NL nl_label
| NU nu_label
| RI bool ri_label
| L l_label
| U u_label
| T bool t_label
| D timespec bool d_label
| X_store
| Asleep label "label option"

text \<open>What a step does besides changing the word and the thread's position.\<close>

datatype act =
  Nop
| Acquired
| Released
| Futex_wait mword mword "label option"
| Futex_wake mword nat

section \<open>Normal mutexes\<close>

fun normal_lock :: "bionic \<Rightarrow> nl_label \<Rightarrow> mword \<Rightarrow> mword \<times> label \<times> act" where
  "normal_lock B (NL_cas shared) v =
     (let unlocked = shared OR MUTEX_STATE_BITS_UNLOCKED;
          locked_uncontended = shared OR MUTEX_STATE_BITS_LOCKED_UNCONTENDED;
          (r, v') = bionic_cmpxchg B unlocked locked_uncontended v in
      if r \<noteq> 0 then (v', NL (NL_swap shared), Nop) else (v', Done OK, Acquired))"
| "normal_lock B (NL_swap shared) v =
     (let unlocked = shared OR MUTEX_STATE_BITS_UNLOCKED;
          locked_contended = shared OR MUTEX_STATE_BITS_LOCKED_CONTENDED;
          (old, v') = bionic_swap B locked_contended v in
      if old \<noteq> unlocked then (v', NL (NL_wait shared), Nop) else (v', Done OK, Acquired))"
| "normal_lock B (NL_wait shared) v =
     (v, NL (NL_swap shared),
      Futex_wait shared (shared OR MUTEX_STATE_BITS_LOCKED_CONTENDED) None)"

fun normal_unlock :: "bionic \<Rightarrow> nu_label \<Rightarrow> mword \<Rightarrow> mword \<times> label \<times> act" where
  "normal_unlock B (NU_dec shared) v =
     (let (old, v') = bionic_atomic_dec B v in
      if old \<noteq> shared OR MUTEX_STATE_BITS_LOCKED_UNCONTENDED then (v', NU (NU_store shared), Nop)
      else (v', Done OK, Nop))"
| "normal_unlock B (NU_store shared) v = (shared, NU (NU_wake shared), Nop)"
| "normal_unlock B (NU_wake shared) v = (v, Done OK, Futex_wake shared 1)"

section \<open>Recursive and error-checking mutexes\<close>

definition ret :: "bool \<Rightarrow> errno \<Rightarrow> label" where
  "ret destroy e = (if destroy \<and> e = OK then X_store else Done e)"

definition recursive_increment :: "bool \<Rightarrow> mword \<Rightarrow> mword \<Rightarrow> label" where
  "recursive_increment destroy mvalue mtype =
     (if mtype = MUTEX_TYPE_BITS_ERRORCHECK then ret destroy EDEADLK
      else if MUTEX_COUNTER_BITS_WILL_OVERFLOW mvalue then ret destroy EAGAIN
      else RI destroy (RI_cas mvalue))"

fun recursive_increment_loop ::
  "bionic \<Rightarrow> bool \<Rightarrow> ri_label \<Rightarrow> mword \<Rightarrow> mword \<times> label \<times> act" where
  "recursive_increment_loop B destroy (RI_cas mvalue) v =
     (let newval = mvalue + MUTEX_COUNTER_BITS_ONE;
          (r, v') = bionic_cmpxchg B mvalue newval v in
      if r = 0 then (v', ret destroy OK, Acquired) else (v', RI destroy RI_load, Nop))"
| "recursive_increment_loop B destroy RI_load v = (v, RI destroy (RI_cas v), Nop)"

fun mutex_lock :: "bionic \<Rightarrow> mword \<Rightarrow> l_label \<Rightarrow> mword \<Rightarrow> mword \<times> label \<times> act" where
  "mutex_lock B tid L_load v =
     (let mvalue = v;
          mtype = mvalue AND MUTEX_TYPE_MASK;
          shared = mvalue AND MUTEX_SHARED_MASK in
      if mtype = MUTEX_TYPE_BITS_NORMAL then (v, NL (NL_cas shared), Nop)
      else if tid = MUTEX_OWNER_FROM_BITS mvalue
      then (v, recursive_increment False mvalue mtype, Nop)
      else let mtype' = mtype OR shared in
        if mvalue = mtype' then (v, L (L_quick mtype' shared), Nop)
        else (v, L (L_loop mvalue mtype' shared), Nop))"
| "mutex_lock B tid (L_quick mtype shared) v =
     (let newval = MUTEX_OWNER_TO_BITS tid OR mtype OR MUTEX_STATE_BITS_LOCKED_UNCONTENDED;
          (r, v') = bionic_cmpxchg B mtype newval v in
      if r = 0 then (v', Done OK, Acquired) else (v', L (L_reload mtype shared), Nop))"
| "mutex_lock B tid (L_reload mtype shared) v = (v, L (L_loop v mtype shared), Nop)"
| "mutex_lock B tid (L_loop mvalue mtype shared) v =
     (if mvalue = mtype then
        let newval = MUTEX_OWNER_TO_BITS tid OR mtype OR MUTEX_STATE_BITS_LOCKED_CONTENDED;
            (r, v') = bionic_cmpxchg B mvalue newval v in
        if r \<noteq> 0 then (v', L (L_reload mtype shared), Nop) else (v', Done OK, Acquired)
      else if MUTEX_STATE_BITS_IS_LOCKED_UNCONTENDED mvalue then
        let newval = MUTEX_STATE_BITS_FLIP_CONTENTION mvalue;
            (r, v') = bionic_cmpxchg B mvalue newval v in
        if r \<noteq> 0 then (v', L (L_reload mtype shared), Nop)
        else (v', L (L_wait newval mtype shared), Nop)
      else (v, L (L_reload mtype shared), Futex_wait shared mvalue None))"
| "mutex_lock B tid (L_wait mvalue mtype shared) v =
     (v, L (L_reload mtype shared), Futex_wait shared mvalue None)"

fun mutex_unlock :: "bionic \<Rightarrow> mword \<Rightarrow> u_label \<Rightarrow> mword \<Rightarrow> mword \<times> label \<times> act" where
  "mutex_unlock B tid U_load v =
     (let mvalue = v;
          mtype = mvalue AND MUTEX_TYPE_MASK;
          shared = mvalue AND MUTEX_SHARED_MASK in
      if mtype = MUTEX_TYPE_BITS_NORMAL then (v, NU (NU_dec shared), Released)
      else if tid \<noteq> MUTEX_OWNER_FROM_BITS mvalue then (v, Done EPERM, Nop)
      else if \<not> MUTEX_COUNTER_BITS_IS_ZERO mvalue then (v, U (U_cas mvalue), Released)
      else (v, U (U_swap mtype shared), Released))"
| "mutex_unlock B tid (U_cas mvalue) v =
     (let newval = mvalue - MUTEX_COUNTER_BITS_ONE;
          (r, v') = bionic_cmpxchg B mvalue newval v in
      if r = 0 then (v', Done OK, Nop) else (v', U U_reload, Nop))"
| "mutex_unlock B tid U_reload v = (v, U (U_cas v), Nop)"
| "mutex_unlock B tid (U_swap mtype shared) v =
     (let (mvalue, v') = bionic_swap B (mtype OR shared OR MUTEX_STATE_BITS_UNLOCKED) v in
      if MUTEX_STATE_BITS_IS_LOCKED_CONTENDED mvalue then (v', U (U_wake shared), Nop)
      else (v', Done OK, Nop))"
| "mutex_unlock B tid (U_wake shared) v = (v, Done OK, Futex_wake shared 1)"

fun mutex_trylock ::
  "bionic \<Rightarrow> mword \<Rightarrow> bool \<Rightarrow> t_label \<Rightarrow> mword \<Rightarrow> mword \<times> label \<times> act" where
  "mutex_trylock B tid destroy T_load v =
     (let mvalue = v;
          mtype = mvalue AND MUTEX_TYPE_MASK;
          shared = mvalue AND MUTEX_SHARED_MASK in
      if mtype = MUTEX_TYPE_BITS_NORMAL then (v, T destroy (TN_cas shared), Nop)
      else if tid = MUTEX_OWNER_FROM_BITS mvalue
      then (v, recursive_increment destroy mvalue mtype, Nop)
      else (v, T destroy (T_cas (mtype OR (shared OR MUTEX_STATE_BITS_UNLOCKED))), Nop))"
| "mutex_trylock B tid destroy (TN_cas shared) v =
     (let (r, v') = bionic_cmpxchg B (shared OR MUTEX_STATE_BITS_UNLOCKED)
                      (shared OR MUTEX_STATE_BITS_LOCKED_UNCONTENDED) v in
      if r = 0 then (v', ret destroy OK, Acquired) else (v', ret destroy EBUSY, Nop))"
| "mutex_trylock B tid destroy (T_cas mtype) v =
     (let mvalue = MUTEX_OWNER_TO_BITS tid OR mtype OR MUTEX_STATE_BITS_LOCKED_UNCONTENDED;
          (r, v') = bionic_cmpxchg B mtype mvalue v in
      if r = 0 then (v', ret destroy OK, Acquired) else (v', ret destroy EBUSY, Nop))"

section \<open>Locking with a deadline\<close>

text \<open>\<^verbatim>\<open>pthread_mutex_lock_timeout_np\<close> turns \<^verbatim>\<open>ETIMEDOUT\<close> into \<^verbatim>\<open>EBUSY\<close>.\<close>

definition late_ret :: "bool \<Rightarrow> label" where
  "late_ret np = (if np then Done EBUSY else Done ETIMEDOUT)"

fun mutex_timedlock ::
  "bionic \<Rightarrow> mword \<Rightarrow> timespec \<Rightarrow> timespec \<Rightarrow> bool \<Rightarrow> d_label \<Rightarrow> mword \<Rightarrow> mword \<times> label \<times> act"
where
  "mutex_timedlock B tid now abstime np D_load v =
     (let mvalue = v;
          mtype = mvalue AND MUTEX_TYPE_MASK;
          shared = mvalue AND MUTEX_SHARED_MASK in
      if mtype = MUTEX_TYPE_BITS_NORMAL then (v, D abstime np (DN_cas shared), Nop)
      else if tid = MUTEX_OWNER_FROM_BITS mvalue
      then (v, recursive_increment False mvalue mtype, Nop)
      else let mtype' = mtype OR shared in
        if mvalue = mtype' then (v, D abstime np (D_quick mtype' shared), Nop)
        else (v, D abstime np (D_loop mvalue mtype' shared), Nop))"
| "mutex_timedlock B tid now abstime np (DN_cas shared) v =
     (let (r, v') = bionic_cmpxchg B (shared OR MUTEX_STATE_BITS_UNLOCKED)
                      (shared OR MUTEX_STATE_BITS_LOCKED_UNCONTENDED) v in
      if r = 0 then (v', Done OK, Acquired) else (v', D abstime np (DN_swap shared), Nop))"
| "mutex_timedlock B tid now abstime np (DN_swap shared) v =
     (let (old, v') = bionic_swap B (shared OR MUTEX_STATE_BITS_LOCKED_CONTENDED) v in
      if old \<noteq> shared OR MUTEX_STATE_BITS_UNLOCKED then (v', D abstime np (DN_time shared), Nop)
      else (v', Done OK, Acquired))"
| "mutex_timedlock B tid now abstime np (DN_time shared) v =
     (if expired now abstime then (v, late_ret np, Nop)
      else (v, D abstime np (DN_wait shared), Nop))"
| "mutex_timedlock B tid now abstime np (DN_wait shared) v =
     (v, D abstime np (DN_swap shared),
      Futex_wait shared (shared OR MUTEX_STATE_BITS_LOCKED_CONTENDED)
        (Some (D abstime np (DN_swap shared))))"
| "mutex_timedlock B tid now abstime np (D_quick mtype shared) v =
     (let mvalue = MUTEX_OWNER_TO_BITS tid OR mtype OR MUTEX_STATE_BITS_LOCKED_UNCONTENDED;
          (r, v') = bionic_cmpxchg B mtype mvalue v in
      if r = 0 then (v', Done OK, Acquired) else (v', D abstime np (D_reload mtype shared), Nop))"
| "mutex_timedlock B tid now abstime np (D_reload mtype shared) v =
     (v, D abstime np (D_loop v mtype shared), Nop)"
| "mutex_timedlock B tid now abstime np (D_loop mvalue mtype shared) v =
     (if mvalue = mtype then
        let newval = MUTEX_OWNER_TO_BITS tid OR mtype OR MUTEX_STATE_BITS_LOCKED_CONTENDED;
            (r, v') = bionic_cmpxchg B mtype newval v in
        if r = 0 then (v', Done OK, Acquired) else (v', D abstime np (D_late mtype shared), Nop)
      else if MUTEX_STATE_BITS_IS_LOCKED_UNCONTENDED mvalue then
        let newval = MUTEX_STATE_BITS_FLIP_CONTENTION mvalue;
            (r, v') = bionic_cmpxchg B mvalue newval v in
        if r \<noteq> 0 then (v', D abstime np (D_flipload mtype shared), Nop)
        else (v', D abstime np (D_time newval mtype shared), Nop)
      else (v, D abstime np (D_time mvalue mtype shared), Nop))"
| "mutex_timedlock B tid now abstime np (D_late mtype shared) v =
     (if expired now abstime then (v, late_ret np, Nop)
      else (v, D abstime np (D_reload mtype shared), Nop))"
| "mutex_timedlock B tid now abstime np (D_flipload mtype shared) v =
     (v, D abstime np (D_time v mtype shared), Nop)"
| "mutex_timedlock B tid now abstime np (D_time mvalue mtype shared) v =
     (if expired now abstime then (v, late_ret np, Nop)
      else if MUTEX_STATE_BITS_IS_LOCKED_CONTENDED mvalue
      then (v, D abstime np (D_wait mvalue mtype shared), Nop)
      else (v, D abstime np (D_loop mvalue mtype shared), Nop))"
| "mutex_timedlock B tid now abstime np (D_wait mvalue mtype shared) v =
     (v, D abstime np (D_reload mtype shared), Futex_wait shared mvalue (Some (late_ret np)))"

definition mutex_destroy_store :: "mword \<times> label \<times> act" where
  "mutex_destroy_store = (0xdead10cc, Done OK, Nop)"

section \<open>Threads\<close>

datatype mutex_call =
  Lock
| Lock_null
| Unlock
| Unlock_null
| Trylock
| Timedlock timespec
| Lock_timeout_np timespec "32 word"
| Destroy

definition start_call :: "bionic \<Rightarrow> mutex_call \<Rightarrow> label option" where
  "start_call B c =
     (case c of
        Lock \<Rightarrow> Some (L L_load)
      | Lock_null \<Rightarrow> if LP64 B then None else Some (Done EINVAL)
      | Unlock \<Rightarrow> Some (U U_load)
      | Unlock_null \<Rightarrow> if LP64 B then None else Some (Done EINVAL)
      | Trylock \<Rightarrow> Some (T False T_load)
      | Timedlock abstime \<Rightarrow> Some (D abstime False D_load)
      | Lock_timeout_np now ms \<Rightarrow> Some (D (timeout_np_deadline now ms) True D_load)
      | Destroy \<Rightarrow> Some (T True T_load))"

text \<open>One step of a thread that is in a call and awake.\<close>

fun thread_step ::
  "bionic \<Rightarrow> mword \<Rightarrow> timespec \<Rightarrow> label \<Rightarrow> mword \<Rightarrow> (mword \<times> label \<times> act) option" where
  "thread_step B tid now (Done e) v = None"
| "thread_step B tid now (NL l) v = Some (normal_lock B l v)"
| "thread_step B tid now (NU l) v = Some (normal_unlock B l v)"
| "thread_step B tid now (RI d l) v = Some (recursive_increment_loop B d l v)"
| "thread_step B tid now (L l) v = Some (mutex_lock B tid l v)"
| "thread_step B tid now (U l) v = Some (mutex_unlock B tid l v)"
| "thread_step B tid now (T d l) v = Some (mutex_trylock B tid d l v)"
| "thread_step B tid now (D a np l) v = Some (mutex_timedlock B tid now a np l v)"
| "thread_step B tid now X_store v = Some mutex_destroy_store"
| "thread_step B tid now (Asleep l t) v = None"

text \<open>
  A process: the mutex word, the position of every thread, the number of times each thread
  holds the mutex, the threads asleep on the futex, and the contents of the \<^verbatim>\<open>tid\<close> field that each
  thread reads through \<^verbatim>\<open>__get_thread()\<close>.
\<close>

record msys =
  m_value :: mword
  m_lab :: "nat \<Rightarrow> label"
  m_held :: "nat \<Rightarrow> nat"
  m_waitq :: "nat list"
  m_tid :: "nat \<Rightarrow> mword"

text \<open>
  Events: a thread makes a call; a thread in a call takes a step, with the current time; a
  signal ends a futex wait; a timeout ends it; the thread's \<^verbatim>\<open>pthread_internal_t\<close> is freed (which
  \<^verbatim>\<open>pthread_exit\<close> does for a detached thread that then still runs) and its \<^verbatim>\<open>tid\<close> reads as the given value.
\<close>

datatype event =
  Call nat mutex_call
| Step nat timespec
| Intr nat
| Expire nat
| Freed nat mword

text \<open>
  \<^verbatim>\<open>__get_thread()->tid\<close>, and the freeing of the structure it reads.  A call reads the field once into a local variable; the
  steps of the model read it anew, which makes a difference only when the structure is freed in the middle of a call.
\<close>

definition get_thread_tid :: "msys \<Rightarrow> nat \<Rightarrow> mword" where
  [simp]: "get_thread_tid s i = m_tid s i"

definition free_detached :: "nat \<Rightarrow> mword \<Rightarrow> msys \<Rightarrow> msys" where
  [simp]: "free_detached i w s = s\<lparr>m_tid := (m_tid s)(i := w)\<rparr>"

fun wakened :: "label \<Rightarrow> label" where
  "wakened (Asleep l t) = l"
| "wakened l = l"

definition apply_act :: "bionic \<Rightarrow> nat \<Rightarrow> mword \<Rightarrow> label \<Rightarrow> act \<Rightarrow> msys \<Rightarrow> msys" where
  "apply_act B i v lab a s =
     (case a of
        Nop \<Rightarrow> s\<lparr>m_value := v, m_lab := (m_lab s)(i := lab)\<rparr>
      | Acquired \<Rightarrow> s\<lparr>m_value := v, m_lab := (m_lab s)(i := lab),
                      m_held := (m_held s)(i := m_held s i + 1)\<rparr>
      | Released \<Rightarrow> s\<lparr>m_value := v, m_lab := (m_lab s)(i := lab),
                      m_held := (m_held s)(i := m_held s i - 1)\<rparr>
      | Futex_wait shared val tmo \<Rightarrow>
          if futex_blocks B shared v val
          then s\<lparr>m_value := v, m_lab := (m_lab s)(i := Asleep lab tmo), m_waitq := m_waitq s @ [i]\<rparr>
          else s\<lparr>m_value := v, m_lab := (m_lab s)(i := lab)\<rparr>
      | Futex_wake shared n \<Rightarrow>
          let w = futex_wakes B shared n (m_waitq s) in
          s\<lparr>m_value := v,
            m_lab := (\<lambda>j. if j = i then lab else if j \<in> set w then wakened (m_lab s j) else m_lab s j),
            m_waitq := filter (\<lambda>j. j \<notin> set w) (m_waitq s)\<rparr>)"

fun mstep :: "bionic \<Rightarrow> event \<Rightarrow> msys \<Rightarrow> msys option" where
  "mstep B (Call i c) s =
     (case m_lab s i of
        Done e \<Rightarrow> do { lab \<leftarrow> start_call B c; Some (s\<lparr>m_lab := (m_lab s)(i := lab)\<rparr>) }
      | _ \<Rightarrow> None)"
| "mstep B (Step i now) s =
     do { (v, lab, a) \<leftarrow> thread_step B (get_thread_tid s i) now (m_lab s i) (m_value s);
          Some (apply_act B i v lab a s) }"
| "mstep B (Intr i) s =
     (case m_lab s i of
        Asleep lab t \<Rightarrow> Some (s\<lparr>m_lab := (m_lab s)(i := lab), m_waitq := remove1 i (m_waitq s)\<rparr>)
      | _ \<Rightarrow> None)"
| "mstep B (Expire i) s =
     (case m_lab s i of
        Asleep l (Some lab) \<Rightarrow>
          Some (s\<lparr>m_lab := (m_lab s)(i := lab), m_waitq := remove1 i (m_waitq s)\<rparr>)
      | _ \<Rightarrow> None)"
| "mstep B (Freed i w) s = Some (free_detached i w s)"

definition msys_init :: "mword \<Rightarrow> (nat \<Rightarrow> mword) \<Rightarrow> msys" where
  "msys_init v tids = \<lparr>m_value = v, m_lab = (\<lambda>_. Done OK), m_held = (\<lambda>_. 0), m_waitq = [], m_tid = tids\<rparr>"

text \<open>
  The runs in which every event satisfies \<^verbatim>\<open>allowed\<close>.
\<close>

inductive mreach :: "bionic \<Rightarrow> (msys \<Rightarrow> event \<Rightarrow> bool) \<Rightarrow> msys \<Rightarrow> msys \<Rightarrow> bool"
  for B allowed s0 where
  start: "mreach B allowed s0 s0"
| step: "mreach B allowed s0 s \<Longrightarrow> allowed s e \<Longrightarrow> mstep B e s = Some s' \<Longrightarrow> mreach B allowed s0 s'"

fun mrun :: "bionic \<Rightarrow> (msys \<Rightarrow> event \<Rightarrow> bool) \<Rightarrow> event list \<Rightarrow> msys \<Rightarrow> msys option" where
  "mrun B allowed [] s = Some s"
| "mrun B allowed (e # es) s =
     (if allowed s e then do { s' \<leftarrow> mstep B e s; mrun B allowed es s' } else None)"

text \<open>
  What the code asks of its callers: only \<^verbatim>\<open>n\<close> threads use the mutex, a normal mutex is
  unlocked only by a thread that holds it, the mutex is not destroyed while in use, and
  no thread runs on a freed \<^verbatim>\<open>pthread_internal_t\<close>.
\<close>

fun event_thread :: "event \<Rightarrow> nat" where
  "event_thread (Call i c) = i"
| "event_thread (Step i now) = i"
| "event_thread (Intr i) = i"
| "event_thread (Expire i) = i"
| "event_thread (Freed i w) = i"

fun client_ok :: "nat \<Rightarrow> msys \<Rightarrow> event \<Rightarrow> bool" where
  "client_ok n s (Freed i w) \<longleftrightarrow> False"
| "client_ok n s (Call i c) \<longleftrightarrow> i < n \<and> c \<noteq> Destroy \<and>
     (c = Unlock \<and> m_value s AND MUTEX_TYPE_MASK = MUTEX_TYPE_BITS_NORMAL \<longrightarrow> 0 < m_held s i)"
| "client_ok n s e \<longleftrightarrow> event_thread e < n"

definition tids_ok :: "nat \<Rightarrow> (nat \<Rightarrow> mword) \<Rightarrow> bool" where
  "tids_ok n tids \<longleftrightarrow>
     (\<forall>i < n. 0 < unat (tids i) \<and> unat (tids i) < 2 ^ 16) \<and> inj_on tids {..<n}"

end
