(* ===== verification/PthreadMutex_Words.thy ===== *)
theory PthreadMutex_Words
  imports PthreadMutex
begin

text \<open>
  The fields of a mutex word: \<^verbatim>\<open>MW b t c st\<close> is the word with type and shared bits \<^verbatim>\<open>b\<close>, owner
  \<^verbatim>\<open>t\<close>, counter \<^verbatim>\<open>c\<close> and state \<^verbatim>\<open>st\<close>.  The lemmas say what the macros of the code read from
  such a word and how they change it.
\<close>

named_theorems mw_simps

definition MW :: "mword \<Rightarrow> mword \<Rightarrow> nat \<Rightarrow> mword \<Rightarrow> mword" where
  "MW b t c st = push_bit 16 t OR push_bit 13 b OR push_bit 2 (word_of_nat c) OR st"

definition fits :: "mword \<Rightarrow> mword \<Rightarrow> nat \<Rightarrow> mword \<Rightarrow> bool" where
  "fits b t c st \<longleftrightarrow> take_bit 3 b = b \<and> take_bit 16 t = t \<and> c < 2 ^ 11 \<and> take_bit 2 st = st"

lemma ones_mask: "push_bit k 1 - 1 = (mask k :: mword)"
  by (simp add: mask_eq_exp_minus_1 push_bit_of_1)

lemma take_bit_bitD: "take_bit k w = w \<Longrightarrow> bit w j \<Longrightarrow> j < k" for w :: mword
  by (metis bit_take_bit_iff)

lemma fits_counter: "c < 2 ^ 11 \<Longrightarrow> take_bit 11 (word_of_nat c :: mword) = word_of_nat c"
  by (simp add: word_unat_eq_iff unsigned_take_bit_eq unat_of_nat take_bit_nat_eq_self)

lemma fits_bits:
  assumes "fits b t c st"
  shows "bit b j \<Longrightarrow> j < 3" "bit t j \<Longrightarrow> j < 16" "bit (word_of_nat c :: mword) j \<Longrightarrow> j < 11"
    "bit st j \<Longrightarrow> j < 2"
  using assms take_bit_bitD fits_counter unfolding fits_def by blast+

lemma MW_bit:
  assumes "fits b t c st" "j < 32"
  shows "bit (MW b t c st) j =
    (if 16 \<le> j then bit t (j - 16) else if 13 \<le> j then bit b (j - 13)
     else if 2 \<le> j then bit (word_of_nat c :: mword) (j - 2) else bit st j)"
  using assms(2) fits_bits [OF assms(1), of "j - 13"] fits_bits [OF assms(1), of "j - 2"]
    fits_bits [OF assms(1), of j]
  by (auto simp: MW_def bit_or_iff bit_push_bit_iff)

lemma field_mask_bit:
  "j < 32 \<Longrightarrow> bit (FIELD_MASK s k) j \<longleftrightarrow> s \<le> j \<and> j - s < k"
  unfolding FIELD_MASK_def ones_mask by (auto simp: bit_push_bit_iff bit_mask_iff)

lemma field_from_bit:
  "bit (FIELD_FROM_BITS v s k) j \<longleftrightarrow> j < k \<and> bit (signed_drop_bit s v) j"
  unfolding FIELD_FROM_BITS_def ones_mask
  by (auto simp: bit_and_iff bit_mask_iff dest: bit_imp_le_length)

lemma field_to_bits: "FIELD_TO_BITS v s k = push_bit s (take_bit k v)"
  unfolding FIELD_TO_BITS_def ones_mask by (simp add: take_bit_eq_mask)

lemma state_consts [simp]:
  "MUTEX_STATE_BITS_UNLOCKED = 0" "MUTEX_STATE_BITS_LOCKED_UNCONTENDED = 1"
  "MUTEX_STATE_BITS_LOCKED_CONTENDED = 2"
  by (simp_all add: MUTEX_STATE_BITS_UNLOCKED_def MUTEX_STATE_BITS_LOCKED_UNCONTENDED_def
      MUTEX_STATE_BITS_LOCKED_CONTENDED_def MUTEX_STATE_TO_BITS_def FIELD_TO_BITS_def)

lemma MW_state:
  assumes "fits b t c st"
  shows "MW b t c st AND MUTEX_STATE_MASK = st"
proof (rule bit_word_eqI)
  fix j assume "j < LENGTH(32)"
  then show "bit (MW b t c st AND MUTEX_STATE_MASK) j = bit st j"
    using fits_bits(4) [OF assms, of j]
    by (auto simp: bit_and_iff MW_bit [OF assms] field_mask_bit MUTEX_STATE_MASK_def)
qed

text \<open>Bits 13 to 15 of a word that has no bit outside them.\<close>

lemma upper_bits:
  fixes b :: mword
  assumes "take_bit 3 b = b" "j < 32"
  shows "bit (push_bit 14 (drop_bit 1 b)) j \<longleftrightarrow> 14 \<le> j \<and> j < 16 \<and> bit b (j - 13)"
    "bit (push_bit 13 (take_bit 1 b)) j \<longleftrightarrow> j = 13 \<and> bit b 0"
proof -
  show "bit (push_bit 14 (drop_bit 1 b)) j \<longleftrightarrow> 14 \<le> j \<and> j < 16 \<and> bit b (j - 13)"
  proof (cases "14 \<le> j")
    case True
    then obtain k where k: "j = 14 + k" using le_Suc_ex by blast
    then show ?thesis using take_bit_bitD [OF assms(1), of "Suc k"] assms(2)
      by (auto simp: bit_push_bit_iff bit_drop_bit_eq)
  qed (simp add: bit_push_bit_iff)
  show "bit (push_bit 13 (take_bit 1 b)) j \<longleftrightarrow> j = 13 \<and> bit b 0"
  proof (cases "j = 13")
    case False
    then show ?thesis unfolding bit_push_bit_iff bit_take_bit_iff by linarith
  qed (simp add: bit_push_bit_iff bit_take_bit_iff bit_0)
qed

lemma MW_type_shared:
  assumes "fits b t c st"
  shows "MW b t c st AND MUTEX_TYPE_MASK = push_bit 14 (drop_bit 1 b)"
    "MW b t c st AND MUTEX_SHARED_MASK = push_bit 13 (take_bit 1 b)"
proof -
  have b: "take_bit 3 b = b" using assms by (simp add: fits_def)
  show "MW b t c st AND MUTEX_TYPE_MASK = push_bit 14 (drop_bit 1 b)"
  proof (rule bit_word_eqI)
    fix j assume j: "j < LENGTH(32)"
    then have "bit (MUTEX_TYPE_MASK) j \<longleftrightarrow> 14 \<le> j \<and> j < 16"
      unfolding MUTEX_TYPE_MASK_def by (subst field_mask_bit) auto
    with j show "bit (MW b t c st AND MUTEX_TYPE_MASK) j = bit (push_bit 14 (drop_bit 1 b)) j"
      using upper_bits(1) [OF b, of j] by (auto simp: bit_and_iff MW_bit [OF assms])
  qed
  show "MW b t c st AND MUTEX_SHARED_MASK = push_bit 13 (take_bit 1 b)"
  proof (rule bit_word_eqI)
    fix j assume j: "j < LENGTH(32)"
    then have "bit (MUTEX_SHARED_MASK) j \<longleftrightarrow> j = 13"
      unfolding MUTEX_SHARED_MASK_def by (subst field_mask_bit) auto
    with j show "bit (MW b t c st AND MUTEX_SHARED_MASK) j = bit (push_bit 13 (take_bit 1 b)) j"
      using upper_bits(2) [OF b, of j] by (auto simp: bit_and_iff MW_bit [OF assms])
  qed
qed

lemma MW_owner:
  assumes "fits b t c st"
  shows "MUTEX_OWNER_FROM_BITS (MW b t c st) = t"
proof (rule bit_word_eqI)
  fix j assume "j < LENGTH(32)"
  then show "bit (MUTEX_OWNER_FROM_BITS (MW b t c st)) j = bit t j"
    using fits_bits(2) [OF assms, of j]
    by (auto simp: MUTEX_OWNER_FROM_BITS_def field_from_bit bit_signed_drop_bit_iff MW_bit [OF assms])
qed

lemma MW_counter:
  assumes "fits b t c st"
  shows "MW b t c st AND MUTEX_COUNTER_MASK = push_bit 2 (word_of_nat c)"
proof (rule bit_word_eqI)
  fix j assume "j < LENGTH(32)"
  then show "bit (MW b t c st AND MUTEX_COUNTER_MASK) j = bit (push_bit 2 (word_of_nat c :: mword)) j"
    using fits_bits(3) [OF assms, of "j - 2"]
    by (auto simp: bit_and_iff MW_bit [OF assms] field_mask_bit MUTEX_COUNTER_MASK_def bit_push_bit_iff)
qed

lemma unat_counter: "c < 2 ^ 11 \<Longrightarrow> unat (push_bit 2 (word_of_nat c :: mword)) = 4 * c"
  by (simp add: push_bit_eq_mult unat_word_ariths unat_of_nat)

lemma MW_counter_tests:
  assumes "fits b t c st"
  shows "MUTEX_COUNTER_BITS_IS_ZERO (MW b t c st) \<longleftrightarrow> c = 0"
    "MUTEX_COUNTER_BITS_WILL_OVERFLOW (MW b t c st) \<longleftrightarrow> c = 2 ^ 11 - 1"
proof -
  have c: "c < 2 ^ 11" using assms by (simp add: fits_def)
  have m: "MUTEX_COUNTER_MASK = 8188" by (simp add: MUTEX_COUNTER_MASK_def FIELD_MASK_def push_bit_eq_mult)
  show "MUTEX_COUNTER_BITS_IS_ZERO (MW b t c st) \<longleftrightarrow> c = 0"
    unfolding MUTEX_COUNTER_BITS_IS_ZERO_def MW_counter [OF assms]
    using unat_counter [OF c] by (metis mult_eq_0_iff unat_0 unat_eq_zero zero_neq_numeral)
  have "push_bit 2 (word_of_nat c :: mword) = 8188 \<longleftrightarrow> unat (push_bit 2 (word_of_nat c :: mword)) = unat (8188 :: mword)"
    by (rule word_unat_eq_iff)
  then show "MUTEX_COUNTER_BITS_WILL_OVERFLOW (MW b t c st) \<longleftrightarrow> c = 2 ^ 11 - 1"
    unfolding MUTEX_COUNTER_BITS_WILL_OVERFLOW_def MW_counter [OF assms] unfolding m
    using unat_counter [OF c] by simp
qed

lemma MW_sum:
  assumes "fits b t c st"
  shows "MW b t c st = push_bit 16 t + (push_bit 13 b + (push_bit 2 (word_of_nat c) + st))"
proof -
  note f = fits_bits [OF assms]
  have 1: "push_bit 2 (word_of_nat c) + st = push_bit 2 (word_of_nat c) OR st"
    by (rule disjunctive_add) (use f(4) in \<open>fastforce simp: bit_push_bit_iff\<close>)
  have 2: "push_bit 13 b + (push_bit 2 (word_of_nat c) OR st) = push_bit 13 b OR (push_bit 2 (word_of_nat c) OR st)"
    by (rule disjunctive_add) (use f(3,4) in \<open>fastforce simp: bit_push_bit_iff bit_or_iff\<close>)
  have 3: "push_bit 16 t + (push_bit 13 b OR (push_bit 2 (word_of_nat c) OR st)) =
      push_bit 16 t OR (push_bit 13 b OR (push_bit 2 (word_of_nat c) OR st))"
    by (rule disjunctive_add) (use f(1,3,4) in \<open>fastforce simp: bit_push_bit_iff bit_or_iff\<close>)
  show ?thesis by (simp add: 1 2 3 MW_def or.assoc)
qed

lemma fits_Suc: "fits b t (Suc c) st \<Longrightarrow> fits b t c st"
  by (simp add: fits_def)

lemma MW_inc:
  assumes "fits b t (Suc c) st"
  shows "MW b t c st + MUTEX_COUNTER_BITS_ONE = MW b t (Suc c) st"
  unfolding MW_sum [OF assms] MW_sum [OF fits_Suc [OF assms]]
  by (simp add: MUTEX_COUNTER_BITS_ONE_def FIELD_TO_BITS_def push_bit_eq_mult algebra_simps)

lemma MW_dec: "fits b t (Suc c) st \<Longrightarrow> MW b t (Suc c) st - MUTEX_COUNTER_BITS_ONE = MW b t c st"
  by (drule MW_inc, drule sym, simp)

lemma xor_low:
  fixes h :: mword
  assumes "\<And>j. bit h j \<Longrightarrow> 2 \<le> j"
  shows "(h OR 1) XOR 3 = h OR 2"
proof (rule bit_word_eqI)
  fix j assume "j < LENGTH(32)"
  have 3: "bit (3 :: mword) j \<longleftrightarrow> j = 0 \<or> j = 1" "bit (2 :: mword) j \<longleftrightarrow> j = 1" "bit (1 :: mword) j \<longleftrightarrow> j = 0"
    by (cases j; simp add: bit_Suc; cases "j - 1"; simp add: bit_Suc)+
  show "bit ((h OR 1) XOR 3) j = bit (h OR 2) j"
    using assms [of j] unfolding bit_xor_iff bit_or_iff 3 by auto
qed

lemma MW_flip:
  assumes "fits b t c 1"
  shows "MUTEX_STATE_BITS_FLIP_CONTENTION (MW b t c 1) = MW b t c 2"
proof -
  let ?h = "push_bit 16 t OR push_bit 13 b OR push_bit 2 (word_of_nat c)"
  have "MUTEX_STATE_BITS_FLIP_CONTENTION (MW b t c 1) = (?h OR 1) XOR 3"
    by (simp add: MUTEX_STATE_BITS_FLIP_CONTENTION_def MW_def or.assoc)
  also have "\<dots> = ?h OR 2" by (rule xor_low) (auto simp: bit_or_iff bit_push_bit_iff)
  finally show ?thesis by (simp add: MW_def or.assoc)
qed

lemma MW_eq_iff:
  assumes "fits b t c st" "fits b' t' c' st'"
  shows "MW b t c st = MW b' t' c' st' \<longleftrightarrow> b = b' \<and> t = t' \<and> c = c' \<and> st = st'"
proof
  assume e: "MW b t c st = MW b' t' c' st'"
  have "bit b j = bit b' j" if "j < 3" for j
    using that MW_bit [OF assms(1), of "13 + j"] MW_bit [OF assms(2), of "13 + j"] e by simp
  moreover have "bit b j = bit b' j" if "\<not> j < 3" for j
    using that fits_bits(1) [OF assms(1)] fits_bits(1) [OF assms(2)] by blast
  ultimately have "b = b'" by (metis bit_word_eqI)
  moreover have "t = t'" using MW_owner assms e by metis
  moreover have "st = st'" using MW_state assms e by metis
  moreover have "4 * c = 4 * c'"
    using MW_counter assms e unat_counter unfolding fits_def by metis
  ultimately show "b = b' \<and> t = t' \<and> c = c' \<and> st = st'" by simp
qed simp

lemma MW_base:
  assumes "fits b t c st"
  shows "push_bit 14 (drop_bit 1 b) OR push_bit 13 (take_bit 1 b) = MW b 0 0 0"
proof (rule bit_word_eqI)
  have f: "fits b 0 0 0" and b: "take_bit 3 b = b" using assms by (simp_all add: fits_def)
  fix j assume j: "j < LENGTH(32)"
  have "bit (MW b 0 0 0) j \<longleftrightarrow> 13 \<le> j \<and> j < 16 \<and> bit b (j - 13)"
    using j by (auto simp: MW_bit [OF f])
  moreover have "bit b (j - 13) = bit b 0" if "j = 13" using that by simp
  ultimately show "bit (push_bit 14 (drop_bit 1 b) OR push_bit 13 (take_bit 1 b)) j = bit (MW b 0 0 0) j"
    using upper_bits [OF b, of j] j unfolding bit_or_iff by (auto simp: le_less)
qed

lemma MW_own:
  assumes "fits b t 0 st"
  shows "MUTEX_OWNER_TO_BITS t OR MW b 0 0 0 OR st = MW b t 0 st"
  using assms unfolding MW_def MUTEX_OWNER_TO_BITS_def field_to_bits fits_def by (simp add: or.assoc)

lemma MW_plain: "push_bit 13 b OR st = MW b 0 0 st"
  by (simp add: MW_def)

end
