(* ===== verification/PthreadMutex_Props.thy ===== *)
theory PthreadMutex_Props
  imports PthreadMutex_Words
begin

text \<open>
  One step of one thread: what the thread may assume of the mutex word, which local variables
  its position allows, and what its step does to the ownership of the word and to the
  threads that wait for it.
\<close>

section \<open>The primitives\<close>

lemma cmpxchg_if:
  assumes "bionic_ok B"
  shows "(case bionic_cmpxchg B old new cur of (r, v) \<Rightarrow> if r = 0 then f v else g v) =
      (if cur = old then f new else g cur)"
    "(case bionic_cmpxchg B old new cur of (r, v) \<Rightarrow> if r \<noteq> 0 then g v else f v) =
      (if cur = old then f new else g cur)"
proof -
  obtain r v where rv: "bionic_cmpxchg B old new cur = (r, v)" by fastforce
  have "fst (bionic_cmpxchg B old new cur) = 0 \<longleftrightarrow> cur = old"
    "snd (bionic_cmpxchg B old new cur) = (if cur = old then new else cur)"
    using assms unfolding bionic_ok_def by blast+
  then show "(case bionic_cmpxchg B old new cur of (r, v) \<Rightarrow> if r = 0 then f v else g v) =
      (if cur = old then f new else g cur)"
    "(case bionic_cmpxchg B old new cur of (r, v) \<Rightarrow> if r \<noteq> 0 then g v else f v) =
      (if cur = old then f new else g cur)"
    by (auto simp: rv)
qed

lemma bionic_prims:
  assumes "bionic_ok B"
  shows "bionic_swap B new cur = (cur, new)" "bionic_atomic_dec B cur = (cur, cur - 1)"
    "futex_blocks B shared cur val \<longleftrightarrow> cur = val"
  using assms unfolding bionic_ok_def by blast+

lemma bionic_wakes:
  assumes "bionic_ok B" "distinct q"
  shows "set (futex_wakes B shared n q) \<subseteq> set q" "length (futex_wakes B shared n q) = min n (length q)"
  using assms unfolding bionic_ok_def by blast+

section \<open>Ownership\<close>

text \<open>\<^verbatim>\<open>b\<close> holds the type and shared bits; a normal mutex does not record its owner.\<close>

definition normal :: "mword \<Rightarrow> bool" where
  "normal b \<longleftrightarrow> drop_bit 1 b = 0"

abbreviation base :: "mword \<Rightarrow> mword" where
  "base b \<equiv> MW b 0 0 0"

definition sharedb :: "mword \<Rightarrow> mword" where
  "sharedb b = push_bit 13 (take_bit 1 b)"

definition typeb :: "mword \<Rightarrow> mword" where
  "typeb b = push_bit 14 (drop_bit 1 b)"

definition locked_state :: "mword \<Rightarrow> bool" where
  "locked_state st \<longleftrightarrow> st = 1 \<or> st = 2"

text \<open>The unlocking thread owns the mutex until it writes the unlocked value.\<close>

fun in_release :: "label \<Rightarrow> bool" where
  "in_release (NU (NU_dec sh)) = True"
| "in_release (NU (NU_store sh)) = True"
| "in_release (U (U_swap mt sh)) = True"
| "in_release lab = False"

fun in_dec :: "label \<Rightarrow> bool" where
  "in_dec (U (U_cas mv)) = True"
| "in_dec (U U_reload) = True"
| "in_dec lab = False"

definition own :: "nat \<Rightarrow> label \<Rightarrow> bool" where
  "own h lab \<longleftrightarrow> 0 < h \<or> in_release lab"

text \<open>The owner and counter fields while a thread with tid \<^verbatim>\<open>t\<close> owns the mutex.\<close>

definition otid :: "mword \<Rightarrow> mword \<Rightarrow> mword" where
  "otid b t = (if normal b then 0 else t)"

definition cnt :: "mword \<Rightarrow> nat \<Rightarrow> label \<Rightarrow> nat" where
  "cnt b h lab = (if normal b then 0 else if in_dec lab then h else h - 1)"

definition own_ok :: "mword \<Rightarrow> nat \<Rightarrow> label \<Rightarrow> bool" where
  "own_ok b h lab \<longleftrightarrow> cnt b h lab < 2 ^ 11 \<and> (normal b \<longrightarrow> h \<le> 1)"

section \<open>Positions\<close>

definition owner_word :: "mword \<Rightarrow> mword \<Rightarrow> nat \<Rightarrow> mword \<Rightarrow> bool" where
  "owner_word b t c mv \<longleftrightarrow> (\<exists>st. locked_state st \<and> mv = MW b t c st)"

definition seen_word :: "mword \<Rightarrow> mword \<Rightarrow> bool" where
  "seen_word b mv \<longleftrightarrow> mv = base b \<or> (\<exists>t c. fits b t c 0 \<and> owner_word b t c mv)"

definition contended_word :: "mword \<Rightarrow> mword \<Rightarrow> bool" where
  "contended_word b mv \<longleftrightarrow> (\<exists>t c. fits b t c 0 \<and> mv = MW b t c 2)"

definition locals :: "mword \<Rightarrow> mword \<Rightarrow> mword \<Rightarrow> bool" where
  "locals b mt sh \<longleftrightarrow> mt = base b \<and> sh = sharedb b"

fun nl_ok :: "mword \<Rightarrow> nl_label \<Rightarrow> bool" where
  "nl_ok b (NL_cas sh) = (sh = sharedb b)"
| "nl_ok b (NL_swap sh) = (sh = sharedb b)"
| "nl_ok b (NL_wait sh) = (sh = sharedb b)"

fun nu_ok :: "mword \<Rightarrow> nat \<Rightarrow> nu_label \<Rightarrow> bool" where
  "nu_ok b h (NU_dec sh) = (sh = sharedb b \<and> h = 0)"
| "nu_ok b h (NU_store sh) = (sh = sharedb b \<and> h = 0)"
| "nu_ok b h (NU_wake sh) = True"

fun ri_ok :: "mword \<Rightarrow> mword \<Rightarrow> nat \<Rightarrow> ri_label \<Rightarrow> bool" where
  "ri_ok b t h (RI_cas mv) = (0 < h \<and> h < 2 ^ 11 \<and> owner_word b t (h - 1) mv)"
| "ri_ok b t h RI_load = (0 < h \<and> h < 2 ^ 11)"

fun l_ok :: "mword \<Rightarrow> l_label \<Rightarrow> bool" where
  "l_ok b L_load = True"
| "l_ok b (L_quick mt sh) = (\<not> normal b \<and> locals b mt sh)"
| "l_ok b (L_reload mt sh) = (\<not> normal b \<and> locals b mt sh)"
| "l_ok b (L_loop mv mt sh) = (\<not> normal b \<and> locals b mt sh \<and> seen_word b mv)"
| "l_ok b (L_wait mv mt sh) = (\<not> normal b \<and> locals b mt sh \<and> contended_word b mv)"

fun u_ok :: "mword \<Rightarrow> mword \<Rightarrow> nat \<Rightarrow> u_label \<Rightarrow> bool" where
  "u_ok b t h U_load = (normal b \<longrightarrow> 0 < h)"
| "u_ok b t h (U_cas mv) = (\<not> normal b \<and> 0 < h \<and> owner_word b t h mv)"
| "u_ok b t h U_reload = (\<not> normal b \<and> 0 < h)"
| "u_ok b t h (U_swap mt sh) = (\<not> normal b \<and> h = 0 \<and> mt = typeb b \<and> sh = sharedb b)"
| "u_ok b t h (U_wake sh) = True"

fun t_ok :: "mword \<Rightarrow> t_label \<Rightarrow> bool" where
  "t_ok b T_load = True"
| "t_ok b (TN_cas sh) = (normal b \<and> sh = sharedb b)"
| "t_ok b (T_cas mt) = (\<not> normal b \<and> mt = base b)"

fun d_ok :: "mword \<Rightarrow> d_label \<Rightarrow> bool" where
  "d_ok b D_load = True"
| "d_ok b (DN_cas sh) = (normal b \<and> sh = sharedb b)"
| "d_ok b (DN_swap sh) = (normal b \<and> sh = sharedb b)"
| "d_ok b (DN_time sh) = (normal b \<and> sh = sharedb b)"
| "d_ok b (DN_wait sh) = (normal b \<and> sh = sharedb b)"
| "d_ok b (D_quick mt sh) = (\<not> normal b \<and> locals b mt sh)"
| "d_ok b (D_reload mt sh) = (\<not> normal b \<and> locals b mt sh)"
| "d_ok b (D_loop mv mt sh) = (\<not> normal b \<and> locals b mt sh)"
| "d_ok b (D_late mt sh) = (\<not> normal b \<and> locals b mt sh)"
| "d_ok b (D_flipload mt sh) = (\<not> normal b \<and> locals b mt sh)"
| "d_ok b (D_time mv mt sh) = (\<not> normal b \<and> locals b mt sh)"
| "d_ok b (D_wait mv mt sh) = (\<not> normal b \<and> locals b mt sh)"

fun lab_ok :: "mword \<Rightarrow> mword \<Rightarrow> nat \<Rightarrow> label \<Rightarrow> bool" where
  "lab_ok b t h (Done e) = True"
| "lab_ok b t h (NL l) = (normal b \<and> nl_ok b l)"
| "lab_ok b t h (NU l) = (normal b \<and> nu_ok b h l)"
| "lab_ok b t h (RI d l) = (\<not> normal b \<and> \<not> d \<and> ri_ok b t h l)"
| "lab_ok b t h (L l) = l_ok b l"
| "lab_ok b t h (U l) = u_ok b t h l"
| "lab_ok b t h (T d l) = (\<not> d \<and> t_ok b l)"
| "lab_ok b t h (D a np l) = d_ok b l"
| "lab_ok b t h X_store = False"
| "lab_ok b t h (Asleep l tmo) =
     ((\<exists>sh. l = NL (NL_swap sh) \<and> normal b \<and> sh = sharedb b \<and> tmo = None) \<or>
      (\<exists>mt sh. l = L (L_reload mt sh) \<and> l_ok b (L_reload mt sh) \<and> tmo = None) \<or>
      (\<exists>a np sh. l = D a np (DN_swap sh) \<and> d_ok b (DN_swap sh) \<and> tmo = Some l) \<or>
      (\<exists>a np mt sh. l = D a np (D_reload mt sh) \<and> d_ok b (D_reload mt sh) \<and> tmo = Some (late_ret np)))"

section \<open>What a thread sees of the word\<close>

definition tid_ok :: "mword \<Rightarrow> bool" where
  "tid_ok t \<longleftrightarrow> t \<noteq> 0 \<and> take_bit 16 t = t"

definition other_word :: "mword \<Rightarrow> mword \<Rightarrow> mword \<Rightarrow> nat \<Rightarrow> bool" where
  "other_word b t t' c \<longleftrightarrow> fits b t' c 0 \<and> (if normal b then t' = 0 \<and> c = 0 else t' \<noteq> 0 \<and> t' \<noteq> t)"

definition view_ok :: "mword \<Rightarrow> mword \<Rightarrow> nat \<Rightarrow> label \<Rightarrow> mword \<Rightarrow> bool" where
  "view_ok b t h lab v \<longleftrightarrow>
     (if own h lab then own_ok b h lab \<and> owner_word b (otid b t) (cnt b h lab) v
      else v = base b \<or> (\<exists>t' c. other_word b t t' c \<and> owner_word b t' c v))"

fun held_after :: "act \<Rightarrow> nat \<Rightarrow> nat" where
  "held_after Acquired h = h + 1"
| "held_after Released h = h - 1"
| "held_after a h = h"

fun lab_after :: "act \<Rightarrow> label \<Rightarrow> label" where
  "lab_after (Futex_wait sh val tmo) lab = Asleep lab tmo"
| "lab_after a lab = lab"

text \<open>The effect of a step on the word, by who owned the mutex before and after.\<close>

definition relocked :: "mword \<Rightarrow> mword \<Rightarrow> mword \<Rightarrow> bool" where
  "relocked b v v' \<longleftrightarrow> (\<exists>t c st st'. fits b t c 0 \<and> locked_state st \<and> locked_state st' \<and>
     v = MW b t c st \<and> v' = MW b t c st')"

definition word_step :: "mword \<Rightarrow> mword \<Rightarrow> nat \<Rightarrow> label \<Rightarrow> mword \<Rightarrow> nat \<Rightarrow> label \<Rightarrow> mword \<Rightarrow> bool" where
  "word_step b t h lab v h' lab' v' \<longleftrightarrow>
     (if own h lab \<and> \<not> own h' lab' then v' = base b
      else if own h' lab' then
        own_ok b h' lab' \<and> owner_word b (otid b t) (cnt b h' lab') v' \<and> (own h lab \<or> v = base b)
      else v' = v \<or> relocked b v v')"

fun asleep :: "label \<Rightarrow> bool" where
  "asleep (Asleep l tmo) = True"
| "asleep lab = False"

definition step_ok :: "mword \<Rightarrow> mword \<Rightarrow> nat \<Rightarrow> label \<Rightarrow> mword \<Rightarrow> mword \<times> label \<times> act \<Rightarrow> bool" where
  "step_ok b t h lab v r \<longleftrightarrow>
     (case r of (v', lab', a) \<Rightarrow>
        \<not> asleep lab' \<and> lab_ok b t (held_after a h) lab' \<and> lab_ok b t (held_after a h) (lab_after a lab') \<and>
        word_step b t h lab v (held_after a h) lab' v')"

section \<open>Reading the word\<close>

lemma MW_or0: "MW b t c 0 OR st = MW b t c st"
  by (simp add: MW_def or.assoc)

lemma type_bits_normal [simp]: "MUTEX_TYPE_BITS_NORMAL = 0"
  by (simp add: MUTEX_TYPE_BITS_NORMAL_def MUTEX_TYPE_TO_BITS_def field_to_bits)

lemma upper_zero: "take_bit 3 b = b \<Longrightarrow> push_bit 14 (drop_bit 1 b) = 0 \<longleftrightarrow> normal b" for b :: mword
proof
  assume b: "take_bit 3 b = b" and z: "push_bit 14 (drop_bit 1 b) = 0"
  have "\<not> bit (drop_bit 1 b) k" for k
  proof
    assume k: "bit (drop_bit 1 b) k"
    then have "1 + k < 3" using take_bit_bitD [OF b, of "1 + k"] by (simp add: bit_drop_bit_eq)
    then have "bit (push_bit 14 (drop_bit 1 b)) (14 + k)" using k by (simp add: bit_push_bit_iff)
    with z show False by simp
  qed
  then show "normal b" unfolding normal_def by (metis bit_0_eq bit_eqI bot_apply bot_bool_def)
qed (simp add: normal_def)

lemma normal_sharedb: "take_bit 3 b = b \<Longrightarrow> normal b \<Longrightarrow> sharedb b = base b"
  using MW_base [of b 0 0 0] unfolding sharedb_def by (simp add: normal_def fits_def)

lemma fits_any: "fits b t c 0 \<Longrightarrow> locked_state st \<Longrightarrow> fits b t c st"
  by (auto simp: fits_def locked_state_def take_bit_eq_mod)

lemma owner_words:
  "owner_word b t c (MW b t c 1)" "owner_word b t c (MW b t c 2)"
  by (auto simp: owner_word_def locked_state_def)

lemma relocked_words:
  "fits b t c 0 \<Longrightarrow> relocked b (MW b t c 1) (MW b t c 2)"
  "fits b t c 0 \<Longrightarrow> relocked b (MW b t c 2) (MW b t c 1)"
  by (auto simp: relocked_def locked_state_def)

lemma seen_words:
  "seen_word b (base b)"
  "fits b t c 0 \<Longrightarrow> seen_word b (MW b t c 1)" "fits b t c 0 \<Longrightarrow> seen_word b (MW b t c 2)"
  "fits b t c 0 \<Longrightarrow> contended_word b (MW b t c 2)"
  unfolding seen_word_def contended_word_def by (blast intro: owner_words)+

lemma locked_states: "locked_state 1" "locked_state 2" "\<not> locked_state 0"
  by (simp_all add: locked_state_def)

lemma view_cases:
  assumes v: "view_ok b t h lab v" and b: "take_bit 3 b = b" and t: "tid_ok t"
  obtains
    (Free) "v = base b" "fits b 0 0 0" "\<not> own h lab"
  | (Mine) st where "v = MW b (otid b t) (cnt b h lab) st" "fits b (otid b t) (cnt b h lab) 0"
      "locked_state st" "own h lab" "own_ok b h lab"
  | (Other) t' c st where "v = MW b t' c st" "fits b t' c 0" "locked_state st" "other_word b t t' c" "\<not> own h lab"
proof (cases "own h lab")
  case True
  then have "fits b (otid b t) (cnt b h lab) 0"
    using v b t by (auto simp: view_ok_def own_ok_def fits_def otid_def tid_ok_def)
  with True v that(2) show ?thesis by (auto simp: view_ok_def owner_word_def)
next
  case False
  then have "v = base b \<or> (\<exists>t' c. other_word b t t' c \<and> owner_word b t' c v)"
    using v by (simp add: view_ok_def)
  then show ?thesis
  proof
    assume "v = base b"
    then show ?thesis using that(1) False b by (simp add: fits_def)
  next
    assume "\<exists>t' c. other_word b t t' c \<and> owner_word b t' c v"
    then show ?thesis using that(3) False by (auto simp: other_word_def owner_word_def)
  qed
qed

lemma word_cases:
  assumes v: "view_ok b t h lab v" and b: "take_bit 3 b = b" and t: "tid_ok t"
  obtains
    (Free) "v = base b" "fits b 0 0 0" "\<not> own h lab"
  | (Mine1) "v = MW b (otid b t) (cnt b h lab) 1" "fits b (otid b t) (cnt b h lab) 0"
      "fits b (otid b t) (cnt b h lab) 1" "own h lab" "own_ok b h lab"
  | (Mine2) "v = MW b (otid b t) (cnt b h lab) 2" "fits b (otid b t) (cnt b h lab) 0"
      "fits b (otid b t) (cnt b h lab) 2" "own h lab" "own_ok b h lab"
  | (Other1) t' c where "v = MW b t' c 1" "fits b t' c 0" "fits b t' c 1" "other_word b t t' c" "\<not> own h lab"
  | (Other2) t' c where "v = MW b t' c 2" "fits b t' c 0" "fits b t' c 2" "other_word b t t' c" "\<not> own h lab"
  using v b t
proof (cases rule: view_cases)
  case (Mine st)
  then show ?thesis using that(2,3) fits_any [OF Mine(2,3)] by (auto simp: locked_state_def)
next
  case (Other t' c st)
  then show ?thesis using that(4,5) fits_any [OF Other(2,3)] by (auto simp: locked_state_def)
qed (use that in auto)

text \<open>What each test of the code yields on a word.\<close>

lemma word_tests:
  assumes "fits b t c st"
  shows "MW b t c st AND MUTEX_TYPE_MASK = 0 \<longleftrightarrow> normal b"
    "MW b t c st AND MUTEX_SHARED_MASK = sharedb b"
    "MW b t c st AND MUTEX_TYPE_MASK = typeb b" "typeb b OR sharedb b = base b" "typeb b = 0 \<longleftrightarrow> normal b"
    "MUTEX_STATE_BITS_IS_LOCKED_UNCONTENDED (MW b t c st) \<longleftrightarrow> st = 1"
    "MUTEX_STATE_BITS_IS_LOCKED_CONTENDED (MW b t c st) \<longleftrightarrow> st = 2"
    "MW b t c st = base b \<longleftrightarrow> t = 0 \<and> c = 0 \<and> st = 0"
proof -
  have b: "take_bit 3 b = b" "fits b 0 0 0" using assms by (simp_all add: fits_def)
  show "MW b t c st AND MUTEX_TYPE_MASK = 0 \<longleftrightarrow> normal b"
    "MW b t c st AND MUTEX_SHARED_MASK = sharedb b"
    "MW b t c st AND MUTEX_TYPE_MASK = typeb b" "typeb b OR sharedb b = base b" "typeb b = 0 \<longleftrightarrow> normal b"
    unfolding MW_type_shared [OF assms] sharedb_def typeb_def using upper_zero [OF b(1)] MW_base [OF assms] by simp_all
  show "MUTEX_STATE_BITS_IS_LOCKED_UNCONTENDED (MW b t c st) \<longleftrightarrow> st = 1"
    "MUTEX_STATE_BITS_IS_LOCKED_CONTENDED (MW b t c st) \<longleftrightarrow> st = 2"
    by (simp_all add: MUTEX_STATE_BITS_IS_LOCKED_UNCONTENDED_def MUTEX_STATE_BITS_IS_LOCKED_CONTENDED_def
        MW_state [OF assms])
  show "MW b t c st = base b \<longleftrightarrow> t = 0 \<and> c = 0 \<and> st = 0" using MW_eq_iff [OF assms b(2)] by simp
qed

lemma word_states:
  assumes "fits b t c 0"
  shows "MW b t c 1 \<noteq> MW b t c 2" "MW b t c 2 \<noteq> MW b t c 1" "MW b t c 0 \<noteq> MW b t c 1" "MW b t c 0 \<noteq> MW b t c 2"
    "MW b t c 1 \<noteq> MW b t c 0" "MW b t c 2 \<noteq> MW b t c 0"
proof -
  have f: "fits b t c 1" "fits b t c 2" using assms by (auto simp: fits_def take_bit_eq_mod)
  show "MW b t c 1 \<noteq> MW b t c 2" "MW b t c 2 \<noteq> MW b t c 1" "MW b t c 0 \<noteq> MW b t c 1" "MW b t c 0 \<noteq> MW b t c 2"
    "MW b t c 1 \<noteq> MW b t c 0" "MW b t c 2 \<noteq> MW b t c 0"
    by (simp_all add: MW_eq_iff [OF f(1,2)] MW_eq_iff [OF f(2,1)] MW_eq_iff [OF assms f(1)]
        MW_eq_iff [OF assms f(2)] MW_eq_iff [OF f(1) assms] MW_eq_iff [OF f(2) assms])
qed

lemma word_changes:
  assumes "fits b t c 0"
  shows "MUTEX_OWNER_TO_BITS t OR base b OR st = MW b t 0 st"
    "MUTEX_STATE_BITS_FLIP_CONTENTION (MW b t c 1) = MW b t c 2"
    "MW b t c 1 - 1 = MW b t c 0" "MW b t c 2 - 1 = MW b t c 1"
proof -
  have f: "fits b t c 1" "fits b t c 2" "fits b t 0 0" using assms by (auto simp: fits_def take_bit_eq_mod)
  show "MUTEX_OWNER_TO_BITS t OR base b OR st = MW b t 0 st"
    using MW_own [OF f(3)] by (metis MW_or0 or.assoc or.right_neutral)
  show "MUTEX_STATE_BITS_FLIP_CONTENTION (MW b t c 1) = MW b t c 2" by (rule MW_flip [OF f(1)])
  show "MW b t c 1 - 1 = MW b t c 0" "MW b t c 2 - 1 = MW b t c 1"
    by (simp_all add: MW_sum [OF f(1)] MW_sum [OF f(2)] MW_sum [OF assms])
qed

lemma word_own: "take_bit 16 t = t \<Longrightarrow> MUTEX_OWNER_TO_BITS t OR MW b 0 0 st = MW b t 0 st"
  unfolding MW_def MUTEX_OWNER_TO_BITS_def field_to_bits by (simp add: or.assoc)

lemma word_counts:
  assumes "locked_state st" "0 < h" "fits b t (h - Suc 0) 0" "h < 2 ^ 11"
  shows "MW b t h st - MUTEX_COUNTER_BITS_ONE = MW b t (h - Suc 0) st"
    "MW b t (h - Suc 0) st + MUTEX_COUNTER_BITS_ONE = MW b t h st"
proof -
  have "fits b t h 0" using assms(3,4) by (simp add: fits_def)
  then have "fits b t (Suc (h - 1)) st" using fits_any assms(1,2) by simp
  with assms(2) show "MW b t h st - MUTEX_COUNTER_BITS_ONE = MW b t (h - Suc 0) st"
    "MW b t (h - Suc 0) st + MUTEX_COUNTER_BITS_ONE = MW b t h st"
    using MW_inc [of b t "h - 1" st] MW_dec [of b t "h - 1" st] by simp_all
qed

lemma fits_less: "fits b t h 0 \<Longrightarrow> fits b t (h - Suc 0) 0"
  by (auto simp: fits_def)

section \<open>Steps\<close>

lemmas step_defs = step_ok_def word_step_def own_def own_ok_def cnt_def otid_def other_word_def
  owner_words relocked_words Let_def MW_or0 normal_sharedb word_tests word_changes word_states
  word_own word_counts locked_states MW_owner MW_counter_tests tid_ok_def recursive_increment_def ret_def
  locals_def seen_words fits_less

lemma normal_lock_step:
  assumes B: "bionic_ok B" and v: "view_ok b t h (NL l) v" and b: "take_bit 3 b = b" and t: "tid_ok t"
    and l: "lab_ok b t h (NL l)"
  shows "step_ok b t h (NL l) v (normal_lock B l v)"
  using v b t
  by (cases rule: word_cases; cases l)
    (use l b in \<open>auto simp: step_defs cmpxchg_if [OF B] bionic_prims [OF B]\<close>)

lemma normal_unlock_step:
  assumes B: "bionic_ok B" and v: "view_ok b t h (NU l) v" and b: "take_bit 3 b = b" and t: "tid_ok t"
    and l: "lab_ok b t h (NU l)"
  shows "step_ok b t h (NU l) v (normal_unlock B l v)"
  using v b t
  by (cases rule: word_cases; cases l)
    (use l b in \<open>auto simp: step_defs cmpxchg_if [OF B] bionic_prims [OF B]\<close>)

lemma trylock_step:
  assumes B: "bionic_ok B" and v: "view_ok b t h (T d l) v" and b: "take_bit 3 b = b" and t: "tid_ok t"
    and l: "lab_ok b t h (T d l)"
  shows "step_ok b t h (T d l) v (mutex_trylock B t d l v)"
  using v b t
  by (cases rule: word_cases; cases l; cases "normal b")
    (use l b t in \<open>auto simp: step_defs cmpxchg_if [OF B] bionic_prims [OF B]\<close>)

lemma recursive_increment_step:
  assumes B: "bionic_ok B" and v: "view_ok b t h (RI d l) v" and b: "take_bit 3 b = b" and t: "tid_ok t"
    and l: "lab_ok b t h (RI d l)"
  shows "step_ok b t h (RI d l) v (recursive_increment_loop B d l v)"
  using v b t
  by (cases rule: word_cases; cases l; cases "normal b")
    (use l b t in \<open>auto simp: step_defs cmpxchg_if [OF B] bionic_prims [OF B]\<close>)

lemma unlock_step:
  assumes B: "bionic_ok B" and v: "view_ok b t h (U l) v" and b: "take_bit 3 b = b" and t: "tid_ok t"
    and l: "lab_ok b t h (U l)"
  shows "step_ok b t h (U l) v (mutex_unlock B t l v)"
  using v b t
  by (cases rule: word_cases; cases l; cases "normal b")
    (use l b t in \<open>auto simp: step_defs cmpxchg_if [OF B] bionic_prims [OF B]\<close>)

lemma lock_step:
  assumes B: "bionic_ok B" and v: "view_ok b t h (L l) v" and b: "take_bit 3 b = b" and t: "tid_ok t"
    and l: "lab_ok b t h (L l)"
  shows "step_ok b t h (L l) v (mutex_lock B t l v)"
  using v b t
  by (cases rule: word_cases; cases l; cases "normal b")
    (use l b t in \<open>auto simp: step_defs cmpxchg_if [OF B] bionic_prims [OF B]\<close>)


lemma timedlock_step:
  assumes B: "bionic_ok B" and v: "view_ok b t h (D a np l) v" and b: "take_bit 3 b = b" and t: "tid_ok t"
    and l: "lab_ok b t h (D a np l)"
  shows "step_ok b t h (D a np l) v (mutex_timedlock B t now a np l v)"
  using v b t
  by (cases rule: word_cases; cases l; cases "normal b")
    (use l b t in \<open>auto simp: step_defs cmpxchg_if [OF B] bionic_prims [OF B] late_ret_def\<close>)

lemma thread_step_ok:
  assumes "bionic_ok B" "view_ok b t h lab v" "take_bit 3 b = b" "tid_ok t" "lab_ok b t h lab"
    "thread_step B t now lab v = Some r"
  shows "step_ok b t h lab v r"
  using assms normal_lock_step normal_unlock_step recursive_increment_step lock_step unlock_step trylock_step
    timedlock_step
  by (cases lab) auto

end
