(* ===== verification/PthreadMutex_Wake.thy ===== *)
theory PthreadMutex_Wake
  imports PthreadMutex_Props
begin

text \<open>
  One step of one thread, as far as the threads that sleep on the mutex depend on it.
\<close>

section \<open>Waking\<close>

text \<open>Threads that are about to wake a sleeper, and threads that compete for the mutex knowing of others.\<close>

abbreviation contended :: "mword \<Rightarrow> bool" where
  "contended v \<equiv> MUTEX_STATE_BITS_IS_LOCKED_CONTENDED v"

fun waker :: "label \<Rightarrow> bool" where
  "waker (NU (NU_store sh)) = True"
| "waker (NU (NU_wake sh)) = True"
| "waker (U (U_wake sh)) = True"
| "waker lab = False"

fun contender :: "label \<Rightarrow> bool" where
  "contender (NL (NL_swap sh)) = True"
| "contender (NL (NL_wait sh)) = True"
| "contender (L (L_reload mt sh)) = True"
| "contender (L (L_loop mv mt sh)) = True"
| "contender (L (L_wait mv mt sh)) = True"
| "contender (D a np (DN_swap sh)) = True"
| "contender (D a np (DN_wait sh)) = True"
| "contender lab = False"

text \<open>Positions that the loop with a deadline never reaches: those of recursive and error-checking mutexes.\<close>

fun untimed :: "mword \<Rightarrow> label \<Rightarrow> bool" where
  "untimed b (D a np l) = normal b"
| "untimed b (Asleep l tmo) = untimed b l"
| "untimed b lab = True"

definition wake_step :: "mword \<Rightarrow> label \<Rightarrow> mword \<Rightarrow> mword \<times> label \<times> act \<Rightarrow> bool" where
  "wake_step b lab v r \<longleftrightarrow>
     (case r of (v', lab', a) \<Rightarrow>
        untimed b lab' \<and>
        (contended v \<and> \<not> contended v' \<longrightarrow> waker lab') \<and>
        (contender lab \<longrightarrow> contender lab' \<or> contended v') \<and>
        (waker lab \<longrightarrow> waker lab' \<or> (\<exists>sh. a = Futex_wake sh 1)) \<and>
        (\<forall>sh n. a = Futex_wake sh n \<longrightarrow> n = 1) \<and>
        (\<forall>sh val tmo. a = Futex_wait sh val tmo \<longrightarrow> contended val))"

lemma seen_contended:
  "seen_word b mv \<Longrightarrow> mv \<noteq> base b \<Longrightarrow> \<not> MUTEX_STATE_BITS_IS_LOCKED_UNCONTENDED mv \<Longrightarrow> contended mv"
  "contended_word b mv \<Longrightarrow> contended mv"
  by (auto simp: seen_word_def owner_word_def contended_word_def locked_state_def
      word_tests [OF fits_any [OF _ locked_states(1)]] word_tests [OF fits_any [OF _ locked_states(2)]])

lemma contended_states:
  assumes "fits b t c 0"
  shows "\<not> contended (MW b t c 0)" "\<not> contended (MW b t c 1)" "contended (MW b t c 2)"
  using word_tests(7) assms fits_any [OF assms locked_states(1)] fits_any [OF assms locked_states(2)] by simp_all

lemma contended_two: "take_bit 3 b = b \<Longrightarrow> take_bit 16 t = t \<Longrightarrow> c < 2 ^ 11 \<Longrightarrow> contended (MW b t c 2)"
  by (rule contended_states(3)) (simp add: fits_def)

lemmas wake_defs = contended_two wake_step_def own_def own_ok_def cnt_def otid_def other_word_def
  Let_def MW_or0 normal_sharedb word_tests word_changes word_states contended_states seen_contended
  word_own word_counts locked_states MW_owner MW_counter_tests tid_ok_def recursive_increment_def ret_def
  locals_def fits_less

lemma normal_lock_wake:
  assumes B: "bionic_ok B" and v: "view_ok b t h (NL l) v" and b: "take_bit 3 b = b" and t: "tid_ok t"
    and l: "lab_ok b t h (NL l)"
  shows "wake_step b (NL l) v (normal_lock B l v)"
  using v b t
  by (cases rule: word_cases; cases l)
    (use l b in \<open>auto simp: wake_defs cmpxchg_if [OF B] bionic_prims [OF B]\<close>)

lemma normal_unlock_wake:
  assumes B: "bionic_ok B" and v: "view_ok b t h (NU l) v" and b: "take_bit 3 b = b" and t: "tid_ok t"
    and l: "lab_ok b t h (NU l)"
  shows "wake_step b (NU l) v (normal_unlock B l v)"
  using v b t
  by (cases rule: word_cases; cases l)
    (use l b in \<open>auto simp: wake_defs cmpxchg_if [OF B] bionic_prims [OF B]\<close>)

lemma trylock_wake:
  assumes B: "bionic_ok B" and v: "view_ok b t h (T d l) v" and b: "take_bit 3 b = b" and t: "tid_ok t"
    and l: "lab_ok b t h (T d l)"
  shows "wake_step b (T d l) v (mutex_trylock B t d l v)"
  using v b t
  by (cases rule: word_cases; cases l; cases "normal b")
    (use l b t in \<open>auto simp: wake_defs cmpxchg_if [OF B] bionic_prims [OF B]\<close>)

lemma recursive_increment_wake:
  assumes B: "bionic_ok B" and v: "view_ok b t h (RI d l) v" and b: "take_bit 3 b = b" and t: "tid_ok t"
    and l: "lab_ok b t h (RI d l)"
  shows "wake_step b (RI d l) v (recursive_increment_loop B d l v)"
  using v b t
  by (cases rule: word_cases; cases l; cases "normal b")
    (use l b t in \<open>auto simp: wake_defs cmpxchg_if [OF B] bionic_prims [OF B]\<close>)

lemma unlock_wake:
  assumes B: "bionic_ok B" and v: "view_ok b t h (U l) v" and b: "take_bit 3 b = b" and t: "tid_ok t"
    and l: "lab_ok b t h (U l)"
  shows "wake_step b (U l) v (mutex_unlock B t l v)"
  using v b t
  by (cases rule: word_cases; cases l; cases "normal b")
    (use l b t in \<open>auto simp: wake_defs cmpxchg_if [OF B] bionic_prims [OF B]\<close>)

lemma lock_wake:
  assumes B: "bionic_ok B" and v: "view_ok b t h (L l) v" and b: "take_bit 3 b = b" and t: "tid_ok t"
    and l: "lab_ok b t h (L l)"
  shows "wake_step b (L l) v (mutex_lock B t l v)"
  using v b t
  by (cases rule: word_cases; cases l; cases "normal b")
    (use l b t in \<open>auto simp: wake_defs cmpxchg_if [OF B] bionic_prims [OF B]\<close>)

lemma timedlock_wake:
  assumes B: "bionic_ok B" and v: "view_ok b t h (D a np l) v" and b: "take_bit 3 b = b" and t: "tid_ok t"
    and l: "lab_ok b t h (D a np l)" and n: "normal b"
  shows "wake_step b (D a np l) v (mutex_timedlock B t now a np l v)"
  using v b t
  by (cases rule: word_cases; cases l)
    (use l b t n in \<open>auto simp: wake_defs cmpxchg_if [OF B] bionic_prims [OF B] late_ret_def\<close>)

lemma thread_step_wake:
  assumes "bionic_ok B" "view_ok b t h lab v" "take_bit 3 b = b" "tid_ok t" "lab_ok b t h lab" "untimed b lab"
    "thread_step B t now lab v = Some r"
  shows "wake_step b lab v r"
  using assms normal_lock_wake normal_unlock_wake recursive_increment_wake lock_wake unlock_wake trylock_wake
    timedlock_wake
  by (cases lab) auto

end
