(* ===== verification/PthreadMutex_Sys.thy ===== *)
theory PthreadMutex_Sys
  imports PthreadMutex_Wake
begin

text \<open>
  All threads together: the invariant of the mutex word and of the positions of the threads,
  mutual exclusion, and the absence (and, with deadlines, the presence) of lost wake-ups.
\<close>

section \<open>The invariant\<close>

definition owns :: "msys \<Rightarrow> nat \<Rightarrow> bool" where
  "owns s i \<longleftrightarrow> own (m_held s i) (m_lab s i)"

definition owned_by :: "mword \<Rightarrow> msys \<Rightarrow> nat \<Rightarrow> bool" where
  "owned_by b s i \<longleftrightarrow>
     owns s i \<and> (\<forall>j. owns s j \<longrightarrow> j = i) \<and> own_ok b (m_held s i) (m_lab s i) \<and>
     owner_word b (otid b (m_tid s i)) (cnt b (m_held s i) (m_lab s i)) (m_value s)"

definition value_ok :: "nat \<Rightarrow> mword \<Rightarrow> msys \<Rightarrow> bool" where
  "value_ok n b s \<longleftrightarrow> (m_value s = base b \<and> (\<forall>i. \<not> owns s i)) \<or> (\<exists>i < n. owned_by b s i)"

definition queue_ok :: "msys \<Rightarrow> bool" where
  "queue_ok s \<longleftrightarrow> distinct (m_waitq s) \<and> (\<forall>i. i \<in> set (m_waitq s) \<longleftrightarrow> asleep (m_lab s i))"

definition threads_ok :: "nat \<Rightarrow> mword \<Rightarrow> msys \<Rightarrow> bool" where
  "threads_ok n b s \<longleftrightarrow>
     (\<forall>i < n. tid_ok (m_tid s i)) \<and> inj_on (m_tid s) {..<n} \<and>
     (\<forall>i < n. lab_ok b (m_tid s i) (m_held s i) (m_lab s i)) \<and>
     (\<forall>i \<ge> n. m_lab s i = Done OK \<and> m_held s i = 0)"

definition sys_ok :: "nat \<Rightarrow> mword \<Rightarrow> msys \<Rightarrow> bool" where
  "sys_ok n b s \<longleftrightarrow> take_bit 3 b = b \<and> threads_ok n b s \<and> queue_ok s \<and> value_ok n b s"

lemma sys_okD:
  assumes "sys_ok n b s"
  shows "take_bit 3 b = b" "threads_ok n b s" "queue_ok s" "value_ok n b s"
  using assms by (simp_all add: sys_ok_def)

lemma threads_okD:
  assumes "threads_ok n b s" "i < n"
  shows "tid_ok (m_tid s i)" "lab_ok b (m_tid s i) (m_held s i) (m_lab s i)"
    "j < n \<Longrightarrow> m_tid s i = m_tid s j \<longleftrightarrow> i = j"
  using assms by (auto simp: threads_ok_def inj_on_def)

lemma owned_fits:
  assumes "take_bit 3 b = b" "threads_ok n b s" "i < n" "owned_by b s i"
  shows "fits b (otid b (m_tid s i)) (cnt b (m_held s i) (m_lab s i)) 0"
  using assms threads_okD(1) [OF assms(2,3)]
  by (auto simp: fits_def owned_by_def own_ok_def otid_def tid_ok_def)

lemma owned_other:
  assumes "take_bit 3 b = b" "threads_ok n b s" "i < n" "owned_by b s i" "j < n" "j \<noteq> i"
  shows "other_word b (m_tid s j) (otid b (m_tid s i)) (cnt b (m_held s i) (m_lab s i))"
  using owned_fits [OF assms(1-4)] threads_okD(3) [OF assms(2,3,5)] threads_okD(1) [OF assms(2,3)] assms(6)
  by (auto simp: other_word_def otid_def cnt_def tid_ok_def)

lemma sys_view:
  assumes s: "sys_ok n b s" and i: "i < n"
  shows "view_ok b (m_tid s i) (m_held s i) (m_lab s i) (m_value s)"
proof -
  note b = sys_okD(1) [OF s] and th = sys_okD(2) [OF s]
  have "m_value s = base b \<and> (\<forall>i. \<not> owns s i) \<or> (\<exists>k < n. owned_by b s k)"
    using sys_okD(4) [OF s] by (simp add: value_ok_def)
  then show ?thesis
  proof
    assume "m_value s = base b \<and> (\<forall>i. \<not> owns s i)"
    then show ?thesis by (simp add: view_ok_def owns_def)
  next
    assume "\<exists>k < n. owned_by b s k"
    then obtain k where k: "k < n" "owned_by b s k" by blast
    show ?thesis
    proof (cases "i = k")
      case True
      then show ?thesis using k by (simp add: view_ok_def owned_by_def owns_def)
    next
      case False
      then have "\<not> owns s i" using k by (auto simp: owned_by_def)
      moreover have "owner_word b (otid b (m_tid s k)) (cnt b (m_held s k) (m_lab s k)) (m_value s)"
        using k by (simp add: owned_by_def)
      ultimately show ?thesis using owned_other [OF b th k i False] by (auto simp: view_ok_def owns_def)
    qed
  qed
qed

lemma locked_not_base:
  assumes "fits b t c 0" "owner_word b t c v"
  shows "v \<noteq> base b"
proof -
  obtain st where st: "locked_state st" "v = MW b t c st" using assms by (auto simp: owner_word_def)
  then show ?thesis using word_tests(8) [OF fits_any [OF assms(1) st(1)]] by (auto simp: locked_state_def)
qed

lemma relocked_owner:
  assumes "fits b t c 0" "owner_word b t c v" "relocked b v v'"
  shows "owner_word b t c v'"
proof -
  obtain st where st: "locked_state st" "v = MW b t c st" using assms by (auto simp: owner_word_def)
  obtain t' c' st1 st2 where r: "fits b t' c' 0" "locked_state st1" "locked_state st2"
    "v = MW b t' c' st1" "v' = MW b t' c' st2" using assms(3) by (auto simp: relocked_def)
  have "t' = t" "c' = c"
    using MW_eq_iff [OF fits_any [OF assms(1) st(1)] fits_any [OF r(1,2)]] st(2) r(4) by auto
  with r show ?thesis by (auto simp: owner_word_def)
qed

lemma not_relocked: "\<not> relocked b (base b) v"
  unfolding relocked_def using locked_not_base unfolding owner_word_def by metis

text \<open>The step of one thread keeps the word and its owner consistent.\<close>

lemma value_step:
  assumes s: "sys_ok n b s" and i: "i < n" and tid: "m_tid s' = m_tid s"
    and w: "word_step b (m_tid s i) (m_held s i) (m_lab s i) (m_value s) (m_held s' i) (m_lab s' i) (m_value s')"
    and o: "\<forall>j. j \<noteq> i \<longrightarrow> m_held s' j = m_held s j \<and> in_release (m_lab s' j) = in_release (m_lab s j) \<and>
              in_dec (m_lab s' j) = in_dec (m_lab s j)"
  shows "value_ok n b s'"
proof -
  note b = sys_okD(1) [OF s] and th = sys_okD(2) [OF s]
  have ow: "owns s' j = owns s j" if "j \<noteq> i" for j using o that by (simp add: owns_def own_def)
  have w1: "m_value s' = base b" if "owns s i" "\<not> owns s' i"
    using w that by (simp add: word_step_def owns_def)
  have w2: "own_ok b (m_held s' i) (m_lab s' i)" "owns s i \<or> m_value s = base b"
    "owner_word b (otid b (m_tid s' i)) (cnt b (m_held s' i) (m_lab s' i)) (m_value s')" if "owns s' i"
    using w that tid by (simp_all add: word_step_def owns_def)
  have w3: "m_value s' = m_value s \<or> relocked b (m_value s) (m_value s')" if "\<not> owns s i" "\<not> owns s' i"
    using w that by (simp add: word_step_def owns_def)
  have new: "owned_by b s' i" if "owns s' i" "\<forall>j. j \<noteq> i \<longrightarrow> \<not> owns s j"
    unfolding owned_by_def using that(1) w2 [OF that(1)] that(2) ow by blast
  consider (free) "m_value s = base b" "\<forall>i. \<not> owns s i" | (owned) k where "k < n" "owned_by b s k"
    using sys_okD(4) [OF s] unfolding value_ok_def by blast
  then show ?thesis
  proof cases
    case free
    have "m_value s' = base b" if "\<not> owns s' i"
      using w3 [OF _ that] free not_relocked by metis
    then show ?thesis using new free(2) ow i unfolding value_ok_def by metis
  next
    case (owned k)
    note f = owned_fits [OF b th owned]
    have kw: "owner_word b (otid b (m_tid s k)) (cnt b (m_held s k) (m_lab s k)) (m_value s)"
      and kok: "own_ok b (m_held s k) (m_lab s k)" and ks: "owns s k" using owned(2) by (simp_all add: owned_by_def)
    have only: "\<not> owns s j" if "j \<noteq> k" for j using owned(2) that by (auto simp: owned_by_def)
    show ?thesis
    proof (cases "k = i")
      case True
      then show ?thesis using new w1 ks only ow i unfolding value_ok_def by metis
    next
      case False
      then have n: "\<not> owns s i" using only [of i] by simp
      with w2(2) locked_not_base [OF f kw] have n': "\<not> owns s' i" by blast
      have "owner_word b (otid b (m_tid s k)) (cnt b (m_held s k) (m_lab s k)) (m_value s')"
        using w3 [OF n n'] relocked_owner [OF f kw] kw by metis
      moreover have c: "cnt b (m_held s' k) (m_lab s' k) = cnt b (m_held s k) (m_lab s k)"
        using o False by (simp add: cnt_def)
      moreover have "own_ok b (m_held s' k) (m_lab s' k)"
        using o False kok unfolding own_ok_def c by simp
      ultimately have "owned_by b s' k"
        unfolding owned_by_def using ow False ks only n' tid by metis
      then show ?thesis using owned(1) unfolding value_ok_def by blast
    qed
  qed
qed

section \<open>Preservation\<close>

lemma asleep_lab:
  assumes "lab_ok b t h (Asleep l tmo)"
  shows "lab_ok b t h l" "\<not> in_release l" "\<not> in_dec l" "\<not> asleep l"
    "tmo = Some l' \<Longrightarrow> lab_ok b t h l' \<and> \<not> in_release l' \<and> \<not> in_dec l' \<and> \<not> asleep l'"
  using assms by (auto simp: late_ret_def split: if_splits)

lemma wakened_lab:
  assumes "lab_ok b t h lab"
  shows "lab_ok b t h (wakened lab)" "in_release (wakened lab) = in_release lab" "in_dec (wakened lab) = in_dec lab"
    "\<not> asleep (wakened lab)"
  using assms asleep_lab by (cases lab; simp)+

lemma mutex_sys_step:
  assumes s: "sys_ok n b s" and i: "i < n" and tid: "m_tid s' = m_tid s"
    and w: "word_step b (m_tid s i) (m_held s i) (m_lab s i) (m_value s) (m_held s' i) (m_lab s' i) (m_value s')"
    and l: "lab_ok b (m_tid s i) (m_held s' i) (m_lab s' i)"
    and o: "\<forall>j. j \<noteq> i \<longrightarrow> m_held s' j = m_held s j \<and> (m_lab s' j = m_lab s j \<or> m_lab s' j = wakened (m_lab s j))"
    and q: "queue_ok s'"
  shows "sys_ok n b s'"
proof -
  note th = sys_okD(2) [OF s]
  have lab: "in_release (m_lab s' j) = in_release (m_lab s j) \<and> in_dec (m_lab s' j) = in_dec (m_lab s j)"
    if "j \<noteq> i" for j
    using o that wakened_lab(2,3) [OF threads_okD(2) [OF th, of j]] th
    by (cases "j < n") (auto simp: threads_ok_def)
  have "value_ok n b s'" by (rule value_step [OF s i tid w]) (use o lab in blast)
  moreover have "threads_ok n b s'"
    unfolding threads_ok_def
  proof (intro conjI allI impI)
    fix j assume j: "j < n"
    show "tid_ok (m_tid s' j)" using threads_okD(1) [OF th j] tid by simp
    show "lab_ok b (m_tid s' j) (m_held s' j) (m_lab s' j)"
      using o l tid threads_okD(2) [OF th j] wakened_lab(1) by (cases "j = i") (simp, metis)
  next
    show "inj_on (m_tid s') {..<n}" using th tid by (simp add: threads_ok_def)
  next
    fix j assume "n \<le> j"
    then have "j \<noteq> i" "m_lab s j = Done OK" "m_held s j = 0" using i th by (simp_all add: threads_ok_def)
    then show "m_lab s' j = Done OK" "m_held s' j = 0" using o by auto
  qed
  ultimately show ?thesis using q sys_okD(1) [OF s] by (simp add: sys_ok_def)
qed

lemma queue_same:
  "queue_ok s \<Longrightarrow> \<not> asleep (m_lab s i) \<Longrightarrow> \<not> asleep lab \<Longrightarrow> m_lab s' = (m_lab s)(i := lab) \<Longrightarrow>
   m_waitq s' = m_waitq s \<Longrightarrow> queue_ok s'"
  by (auto simp: queue_ok_def)

lemma queue_left:
  "queue_ok s \<Longrightarrow> \<not> asleep lab \<Longrightarrow> m_lab s' = (m_lab s)(i := lab) \<Longrightarrow>
   m_waitq s' = remove1 i (m_waitq s) \<Longrightarrow> queue_ok s'"
  by (auto simp: queue_ok_def)

lemma apply_act_ok:
  assumes B: "bionic_ok B" and s: "sys_ok n b s" and i: "i < n" and aw: "\<not> asleep (m_lab s i)"
    and st: "step_ok b (m_tid s i) (m_held s i) (m_lab s i) (m_value s) (v, lab, a)"
  shows "sys_ok n b (apply_act B i v lab a s)"
proof -
  note q = sys_okD(3) [OF s]
  have r: "\<not> asleep lab" "lab_ok b (m_tid s i) (held_after a (m_held s i)) lab"
    "lab_ok b (m_tid s i) (held_after a (m_held s i)) (lab_after a lab)"
    "word_step b (m_tid s i) (m_held s i) (m_lab s i) (m_value s) (held_after a (m_held s i)) lab v"
    using st by (simp_all add: step_ok_def)
  note go = mutex_sys_step [OF s i]
  show ?thesis
  proof (cases a)
    case (Futex_wait sh val tmo)
    have "lab_ok b (m_tid s i) (m_held s i) (Asleep lab tmo)" using r(3) Futex_wait by simp
    from asleep_lab(2,3) [OF this]
    have o: "own (m_held s i) (Asleep lab tmo) = own (m_held s i) lab"
      "cnt b (m_held s i) (Asleep lab tmo) = cnt b (m_held s i) lab"
      "own_ok b (m_held s i) (Asleep lab tmo) = own_ok b (m_held s i) lab"
      by (simp_all add: own_def own_ok_def cnt_def)
    have w: "word_step b (m_tid s i) (m_held s i) (m_lab s i) (m_value s) (m_held s i) (Asleep lab tmo) v"
      using r(4) unfolding word_step_def o Futex_wait held_after.simps .
    have "i \<notin> set (m_waitq s)" using q aw by (simp add: queue_ok_def)
    then have "queue_ok (s\<lparr>m_value := v, m_lab := (m_lab s)(i := Asleep lab tmo), m_waitq := m_waitq s @ [i]\<rparr>)"
      using q by (auto simp: queue_ok_def)
    from go [OF _ _ _ _ this]
    have "sys_ok n b (s\<lparr>m_value := v, m_lab := (m_lab s)(i := Asleep lab tmo), m_waitq := m_waitq s @ [i]\<rparr>)"
      using w r(3) Futex_wait by simp
    moreover have "sys_ok n b (s\<lparr>m_value := v, m_lab := (m_lab s)(i := lab)\<rparr>)"
      by (rule go [OF _ _ _ _ queue_same [OF q aw r(1)]]) (use r Futex_wait in simp_all)
    ultimately show ?thesis using Futex_wait by (simp add: apply_act_def)
  next
    case (Futex_wake sh k)
    let ?w = "futex_wakes B sh k (m_waitq s)"
    have "queue_ok (apply_act B i v lab a s)"
    proof -
      have "\<not> asleep (wakened (m_lab s j))" for j
        using wakened_lab(4) threads_okD(2) [OF sys_okD(2) [OF s]] sys_okD(2) [OF s]
        by (cases "j < n") (fastforce simp: threads_ok_def)+
      then show ?thesis using q r(1) aw by (auto simp: queue_ok_def apply_act_def Futex_wake Let_def)
    qed
    then show ?thesis by (rule go [rotated -1]) (use r Futex_wake in \<open>auto simp: apply_act_def Let_def\<close>)
  qed (rule go [OF _ _ _ _ queue_same [OF q aw r(1)]]; use r in \<open>simp add: apply_act_def\<close>)+
qed

lemma sys_move:
  assumes s: "sys_ok n b s" and i: "i < n" and l: "lab_ok b (m_tid s i) (m_held s i) lab"
    and r: "in_release lab = in_release (m_lab s i)" "in_dec lab = in_dec (m_lab s i)"
    and q: "queue_ok (s\<lparr>m_lab := (m_lab s)(i := lab), m_waitq := q\<rparr>)"
  shows "sys_ok n b (s\<lparr>m_lab := (m_lab s)(i := lab), m_waitq := q\<rparr>)"
  by (rule mutex_sys_step [OF s i _ _ _ _ q])
    (use sys_view [OF s i] l r in \<open>auto simp: word_step_def view_ok_def own_def own_ok_def cnt_def split: if_splits\<close>)

lemma start_call_ok:
  assumes "start_call B c = Some lab" "c \<noteq> Destroy" "c = Unlock \<and> normal b \<longrightarrow> 0 < h"
  shows "lab_ok b t h lab" "\<not> in_release lab" "\<not> in_dec lab" "\<not> asleep lab"
  using assms by (auto simp: start_call_def split: mutex_call.splits if_splits)

lemma value_type:
  assumes "sys_ok n b s"
  shows "m_value s AND MUTEX_TYPE_MASK = 0 \<longleftrightarrow> normal b"
proof -
  have "\<exists>t c st. m_value s = MW b t c st \<and> fits b t c st"
  proof (cases "m_value s = base b")
    case True
    then show ?thesis using sys_okD(1) [OF assms] by (intro exI [of _ 0]) (simp add: fits_def)
  next
    case False
    then obtain k where k: "k < n" "owned_by b s k" using sys_okD(4) [OF assms] by (auto simp: value_ok_def)
    then obtain st where "locked_state st" "m_value s = MW b (otid b (m_tid s k)) (cnt b (m_held s k) (m_lab s k)) st"
      by (auto simp: owned_by_def owner_word_def)
    then show ?thesis using fits_any [OF owned_fits [OF sys_okD(1,2) [OF assms] k]] by blast
  qed
  then show ?thesis using word_tests(1) by auto
qed

lemma mstep_ok:
  assumes B: "bionic_ok B" and s: "sys_ok n b s" and c: "client_ok n s e" and m: "mstep B e s = Some s'"
  shows "sys_ok n b s'"
proof (cases e)
  case (Call i k)
  then obtain x lab where r: "m_lab s i = Done x" "start_call B k = Some lab"
    "s' = s\<lparr>m_lab := (m_lab s)(i := lab), m_waitq := m_waitq s\<rparr>"
    using m by (auto split: label.splits bind_splits)
  have i: "i < n" and k: "k \<noteq> Destroy" "k = Unlock \<and> normal b \<longrightarrow> 0 < m_held s i"
    using c Call value_type [OF s] by auto
  note l = start_call_ok [OF r(2) k]
  show ?thesis unfolding r(3)
    by (rule sys_move [OF s i l(1)]) (use l r(1) in \<open>auto intro: queue_same [OF sys_okD(3) [OF s], of i lab]\<close>)
next
  case (Step i now)
  then obtain v lab a where r: "thread_step B (m_tid s i) now (m_lab s i) (m_value s) = Some (v, lab, a)"
    "s' = apply_act B i v lab a s" using m by (auto split: bind_splits)
  have i: "i < n" using c Step by simp
  have "\<not> asleep (m_lab s i)" using r(1) by (cases "m_lab s i") auto
  then show ?thesis unfolding r(2) using threads_okD [OF sys_okD(2) [OF s] i]
    by (intro apply_act_ok [OF B s i _ thread_step_ok [OF B sys_view [OF s i] sys_okD(1) [OF s] _ _ r(1)]])
next
  case (Intr i)
  then obtain lab tmo where r: "m_lab s i = Asleep lab tmo"
    "s' = s\<lparr>m_lab := (m_lab s)(i := lab), m_waitq := remove1 i (m_waitq s)\<rparr>"
    using m by (auto split: label.splits)
  have i: "i < n" using c Intr by simp
  note l = asleep_lab [OF threads_okD(2) [OF sys_okD(2) [OF s] i, unfolded r(1)]]
  show ?thesis unfolding r(2)
    by (rule sys_move [OF s i l(1)]) (use l r(1) in \<open>auto intro: queue_left [OF sys_okD(3) [OF s]]\<close>)
next
  case (Expire i)
  then obtain l0 lab where r: "m_lab s i = Asleep l0 (Some lab)"
    "s' = s\<lparr>m_lab := (m_lab s)(i := lab), m_waitq := remove1 i (m_waitq s)\<rparr>"
    using m by (auto split: label.splits option.splits)
  have i: "i < n" using c Expire by simp
  have l: "lab_ok b (m_tid s i) (m_held s i) lab \<and> \<not> in_release lab \<and> \<not> in_dec lab \<and> \<not> asleep lab"
    using asleep_lab(5) [OF threads_okD(2) [OF sys_okD(2) [OF s] i, unfolded r(1)]] by blast
  show ?thesis unfolding r(2)
    by (rule sys_move [OF s i conjunct1 [OF l]]) (use l r(1) in \<open>auto intro: queue_left [OF sys_okD(3) [OF s]]\<close>)
qed (use c in simp)

section \<open>Sleepers\<close>

definition wake_ok :: "nat \<Rightarrow> mword \<Rightarrow> msys \<Rightarrow> bool" where
  "wake_ok n b s \<longleftrightarrow>
     (\<forall>i. untimed b (m_lab s i)) \<and>
     (m_waitq s \<noteq> [] \<longrightarrow> contended (m_value s) \<or> (\<exists>i < n. waker (m_lab s i) \<or> contender (m_lab s i)))"

lemma asleep_contender:
  assumes "lab_ok b t h (Asleep l tmo)" "untimed b (Asleep l tmo)"
  shows "contender l" "untimed b l" "tmo = Some l' \<Longrightarrow> contender l' \<and> untimed b l'"
  using assms by auto

lemma wake_others:
  assumes "\<forall>j. j \<noteq> i \<longrightarrow> m_lab s' j = m_lab s j \<or> m_lab s' j = wakened (m_lab s j)"
    "j \<noteq> i" "waker (m_lab s j) \<or> contender (m_lab s j)"
  shows "waker (m_lab s' j) \<or> contender (m_lab s' j)"
proof -
  have "wakened (m_lab s j) = m_lab s j" using assms(3) by (cases "m_lab s j") auto
  then show ?thesis using assms by metis
qed

lemma wake_untimed: "untimed b lab \<Longrightarrow> untimed b (wakened lab)"
  by (cases lab) auto

lemma apply_act_parts:
  "m_value (apply_act B i v lab a s) = v"
  "m_lab (apply_act B i v lab a s) i =
     (case a of Futex_wait sh val tmo \<Rightarrow> if futex_blocks B sh v val then Asleep lab tmo else lab | _ \<Rightarrow> lab)"
  "j \<noteq> i \<Longrightarrow> m_lab (apply_act B i v lab a s) j =
     (case a of Futex_wake sh k \<Rightarrow>
        if j \<in> set (futex_wakes B sh k (m_waitq s)) then wakened (m_lab s j) else m_lab s j | _ \<Rightarrow> m_lab s j)"
  "m_waitq (apply_act B i v lab a s) =
     (case a of Futex_wait sh val tmo \<Rightarrow> if futex_blocks B sh v val then m_waitq s @ [i] else m_waitq s
      | Futex_wake sh k \<Rightarrow> filter (\<lambda>j. j \<notin> set (futex_wakes B sh k (m_waitq s))) (m_waitq s)
      | _ \<Rightarrow> m_waitq s)"
  by (cases a; simp add: apply_act_def Let_def)+

lemma apply_act_wake:
  assumes B: "bionic_ok B" and s: "sys_ok n b s" and w: "wake_ok n b s" and i: "i < n"
    and aw: "\<not> asleep (m_lab s i)" and st: "wake_step b (m_lab s i) (m_value s) (v, lab, a)"
  shows "wake_ok n b (apply_act B i v lab a s)"
proof -
  note th = sys_okD(2) [OF s] and q = sys_okD(3) [OF s]
  let ?s = "apply_act B i v lab a s"
  have r: "untimed b lab" "contended (m_value s) \<Longrightarrow> contended v \<or> waker lab"
    "contender (m_lab s i) \<Longrightarrow> contender lab \<or> contended v"
    "waker (m_lab s i) \<Longrightarrow> waker lab \<or> (\<exists>sh. a = Futex_wake sh 1)"
    "\<And>sh n. a = Futex_wake sh n \<Longrightarrow> n = 1" "\<And>sh val tmo. a = Futex_wait sh val tmo \<Longrightarrow> contended val"
    using st by (auto simp: wake_step_def)
  have u: "untimed b (m_lab s j)" for j using w by (simp add: wake_ok_def)
  have oth: "\<forall>j. j \<noteq> i \<longrightarrow> m_lab ?s j = m_lab s j \<or> m_lab ?s j = wakened (m_lab s j)"
    by (cases a) (simp_all add: apply_act_parts)
  have "untimed b (m_lab ?s i)" using r(1) by (cases a) (simp_all add: apply_act_parts)
  then have un: "untimed b (m_lab ?s j)" for j
    using oth u wake_untimed [OF u] by metis
  have blk: "contended v" if "a = Futex_wait sh val tmo" "futex_blocks B sh v val" for sh val tmo
    using r(6) [OF that(1)] that(2) bionic_prims(3) [OF B] by simp
  have lab: "\<not> contended v \<Longrightarrow> m_lab ?s i = lab" using blk by (cases a) (auto simp: apply_act_parts)
  have "contended v \<or> (\<exists>j < n. waker (m_lab ?s j) \<or> contender (m_lab ?s j))" if ne: "m_waitq ?s \<noteq> []"
  proof (rule ccontr)
    assume no: "\<not> (contended v \<or> (\<exists>j < n. waker (m_lab ?s j) \<or> contender (m_lab ?s j)))"
    then have nl: "\<not> waker lab" "\<not> contender lab" "\<not> contended (m_value s)" using lab i r(2) by metis+
    have "m_waitq s \<noteq> []" using ne no blk by (cases a) (auto simp: apply_act_parts split: if_splits)
    then obtain j where j: "j < n" "waker (m_lab s j) \<or> contender (m_lab s j)"
      using w nl(3) unfolding wake_ok_def by blast
    have "j = i"
    proof (rule ccontr)
      assume "j \<noteq> i"
      from wake_others [OF oth this j(2)] no j(1) show False by blast
    qed
    then obtain sh where a: "a = Futex_wake sh 1" using j(2) nl(1,2) r(3,4) no by blast
    have "length (futex_wakes B sh 1 (m_waitq s)) = 1" "set (futex_wakes B sh 1 (m_waitq s)) \<subseteq> set (m_waitq s)"
      using bionic_wakes [OF B, of "m_waitq s"] q \<open>m_waitq s \<noteq> []\<close> by (simp_all add: queue_ok_def Suc_leI)
    then obtain k where k: "k \<in> set (futex_wakes B sh 1 (m_waitq s))" "k \<in> set (m_waitq s)"
      by (metis length_0_conv list.set_sel(1) subsetD zero_neq_one)
    then have "asleep (m_lab s k)" using q by (simp add: queue_ok_def)
    then obtain l tmo where l: "m_lab s k = Asleep l tmo" by (cases "m_lab s k") auto
    have "k \<noteq> i" using aw \<open>asleep (m_lab s k)\<close> by blast
    have "k < n"
    proof (rule ccontr)
      assume "\<not> k < n"
      then show False using th l by (simp add: threads_ok_def)
    qed
    moreover have "m_lab ?s k = l" using k l a by (simp add: apply_act_parts(3) [OF \<open>k \<noteq> i\<close>])
    moreover have "contender l"
      using asleep_contender(1) threads_okD(2) [OF th \<open>k < n\<close>] u [of k] l by metis
    ultimately show False using no by blast
  qed
  with un show ?thesis unfolding wake_ok_def apply_act_parts(1) by blast
qed

end
