(* ===== verification/PthreadMutex_Main.thy ===== *)
theory PthreadMutex_Main
  imports PthreadMutex_Sys
begin

text \<open>
  The properties of the mutex: its attributes and initialisation, the shape of its word, mutual exclusion
  with the recursion count, and what can and cannot leave a thread asleep.
\<close>

section \<open>Reachable states\<close>

text \<open>Recursive and error-checking mutexes are not locked with a deadline.\<close>

fun timed_call :: "event \<Rightarrow> bool" where
  "timed_call (Call i (Timedlock a)) = True"
| "timed_call (Call i (Lock_timeout_np now ms)) = True"
| "timed_call e = False"

definition untimed_client :: "nat \<Rightarrow> msys \<Rightarrow> event \<Rightarrow> bool" where
  "untimed_client n s e \<longleftrightarrow> client_ok n s e \<and>
     (timed_call e \<longrightarrow> m_value s AND MUTEX_TYPE_MASK = MUTEX_TYPE_BITS_NORMAL)"

lemma start_call_untimed:
  assumes "start_call B c = Some lab" "timed_call (Call i c) \<longrightarrow> normal b"
  shows "untimed b lab"
  using assms by (auto simp: start_call_def split: mutex_call.splits if_splits)

lemma wake_move:
  assumes w: "wake_ok n b s" and u: "untimed b lab" and i: "i < n"
    and l: "contender lab \<or> (m_lab s i = Done x \<and> q = m_waitq s)"
  shows "wake_ok n b (s\<lparr>m_lab := (m_lab s)(i := lab), m_waitq := q\<rparr>)"
  using l
proof
  assume "contender lab"
  then show ?thesis using w u i by (auto simp: wake_ok_def)
next
  assume d: "m_lab s i = Done x \<and> q = m_waitq s"
  let ?f = "(m_lab s)(i := lab)"
  have "waker (?f j) \<or> contender (?f j)" if "waker (m_lab s j) \<or> contender (m_lab s j)" for j
    using that d by (cases "j = i") auto
  then have "m_waitq s \<noteq> [] \<longrightarrow> contended (m_value s) \<or> (\<exists>j < n. waker (?f j) \<or> contender (?f j))"
    using w unfolding wake_ok_def by meson
  moreover have "\<forall>j. untimed b (?f j)" using w u by (simp add: wake_ok_def)
  ultimately show ?thesis using d by (simp add: wake_ok_def)
qed

lemma mstep_wake:
  assumes B: "bionic_ok B" and s: "sys_ok n b s" and w: "wake_ok n b s" and c: "untimed_client n s e"
    and m: "mstep B e s = Some s'"
  shows "wake_ok n b s'"
proof -
  have cl: "client_ok n s e" "timed_call e \<longrightarrow> normal b"
    using c value_type [OF s] by (auto simp: untimed_client_def)
  note th = sys_okD(2) [OF s]
  have u: "untimed b (m_lab s j)" for j using w by (simp add: wake_ok_def)
  show ?thesis
  proof (cases e)
    case (Call i k)
    then obtain x lab where r: "m_lab s i = Done x" "start_call B k = Some lab"
      "s' = s\<lparr>m_lab := (m_lab s)(i := lab), m_waitq := m_waitq s\<rparr>"
      using m by (auto split: label.splits bind_splits)
    show ?thesis unfolding r(3)
      using cl Call r(1) by (intro wake_move [OF w start_call_untimed [OF r(2), of i] _ disjI2]) auto
  next
    case (Step i now)
    then obtain v lab a where r: "thread_step B (m_tid s i) now (m_lab s i) (m_value s) = Some (v, lab, a)"
      "s' = apply_act B i v lab a s" using m by (auto split: bind_splits)
    have i: "i < n" using cl Step by simp
    have "\<not> asleep (m_lab s i)" using r(1) by (cases "m_lab s i") auto
    then show ?thesis unfolding r(2) using threads_okD [OF th i]
      by (intro apply_act_wake [OF B s w i _ thread_step_wake [OF B sys_view [OF s i] sys_okD(1) [OF s] _ _ u r(1)]])
  next
    case (Intr i)
    then obtain lab tmo where r: "m_lab s i = Asleep lab tmo"
      "s' = s\<lparr>m_lab := (m_lab s)(i := lab), m_waitq := remove1 i (m_waitq s)\<rparr>"
      using m by (auto split: label.splits)
    have i: "i < n" using cl Intr by simp
    show ?thesis unfolding r(2)
      using wake_move [OF w _ i] asleep_contender(1,2) threads_okD(2) [OF th i] u [of i] r(1) by metis
  next
    case (Expire i)
    then obtain l0 lab where r: "m_lab s i = Asleep l0 (Some lab)"
      "s' = s\<lparr>m_lab := (m_lab s)(i := lab), m_waitq := remove1 i (m_waitq s)\<rparr>"
      using m by (auto split: label.splits option.splits)
    have i: "i < n" using cl Expire by simp
    show ?thesis unfolding r(2)
      using wake_move [OF w _ i] asleep_contender(3) threads_okD(2) [OF th i] u [of i] r(1) by metis
  qed (use cl in simp)
qed

lemma tid_okI: "0 < unat t \<Longrightarrow> unat t < 2 ^ 16 \<Longrightarrow> tid_ok t"
  unfolding tid_ok_def by (auto simp: word_unat_eq_iff [of "take_bit 16 t"] unsigned_take_bit_eq take_bit_nat_eq_self)

lemma init_ok:
  assumes "take_bit 3 b = b" "tids_ok n tids"
  shows "sys_ok n b (msys_init (base b) tids)" "wake_ok n b (msys_init (base b) tids)"
  using assms tid_okI
  by (auto simp: sys_ok_def threads_ok_def queue_ok_def value_ok_def owns_def own_def msys_init_def tids_ok_def wake_ok_def)

lemma reach_ok:
  assumes "mreach B allowed s0 s" "\<forall>s e. allowed s e \<longrightarrow> client_ok n s e" "bionic_ok B" "sys_ok n b s0"
  shows "sys_ok n b s"
  using assms by (induction rule: mreach.induct) (auto intro: mstep_ok)

lemma reach_wake:
  assumes "mreach B (untimed_client n) s0 s" "bionic_ok B" "sys_ok n b s0" "wake_ok n b s0"
  shows "wake_ok n b s"
  using assms
proof (induction rule: mreach.induct)
  case (step s e s')
  have "sys_ok n b s"
    by (rule reach_ok [OF step.hyps(1) _ step.prems(1,2)]) (simp add: untimed_client_def)
  then show ?case using mstep_wake step by blast
qed

lemma mrun_reach: "mreach B allowed s0 s \<Longrightarrow> mrun B allowed es s = Some s' \<Longrightarrow> mreach B allowed s0 s'"
proof (induction es arbitrary: s)
  case (Cons e es)
  then obtain s1 where "allowed s e" "mstep B e s = Some s1" "mrun B allowed es s1 = Some s'"
    by (auto split: if_splits bind_splits)
  then show ?case using Cons.IH mreach.step [OF Cons.prems(1)] by blast
qed simp

section \<open>Initialisation\<close>

lemma init_consts:
  "MUTEX_SHARED_MASK = push_bit 13 1" "MUTEX_TYPE_BITS_RECURSIVE = push_bit 13 2"
  "MUTEX_TYPE_BITS_ERRORCHECK = push_bit 13 4"
  by (simp_all add: MUTEX_SHARED_MASK_def FIELD_MASK_def MUTEX_TYPE_BITS_RECURSIVE_def
      MUTEX_TYPE_BITS_ERRORCHECK_def MUTEX_TYPE_TO_BITS_def FIELD_TO_BITS_def push_bit_eq_mult)

lemma mutex_init_base:
  assumes "pthread_mutex_init B v0 attr = (OK, v)"
  obtains b where "take_bit 3 b = b" "v = base b"
proof -
  have c: "v \<in> {0, 0x2000, 0x4000, 0x6000, 0x8000, 0xA000}"
    using assms by (auto simp: pthread_mutex_init_def init_consts Let_def split: option.splits if_splits)
  have "\<exists>b. take_bit 3 b = b \<and> v = base b"
    using c by (auto simp: MW_def intro: exI [of _ 0] exI [of _ 1] exI [of _ 2] exI [of _ 3] exI [of _ 4] exI [of _ 5])
  with that show ?thesis by blast
qed

section \<open>Concrete runs\<close>

definition bionic_sample :: bionic where
  "bionic_sample = \<lparr>bionic_cmpxchg = (\<lambda>old new cur. if cur = old then (0, new) else (1, cur)),
     bionic_swap = (\<lambda>new cur. (cur, new)), bionic_atomic_dec = (\<lambda>cur. (cur, cur - 1)),
     futex_blocks = (\<lambda>_ cur val. cur = val), futex_wakes = (\<lambda>_ n q. take n q),
     PTHREAD_MUTEX_NORMAL = 0, PTHREAD_MUTEX_RECURSIVE = 1, PTHREAD_MUTEX_ERRORCHECK = 2,
     PTHREAD_MUTEX_DEFAULT = 0, PTHREAD_PROCESS_PRIVATE = 0, PTHREAD_PROCESS_SHARED = 1, LP64 = False\<rparr>"

definition sample_tids :: "nat \<Rightarrow> mword" where
  "sample_tids i = word_of_nat (i + 1)"

abbreviation at_sec :: "int \<Rightarrow> timespec" where
  "at_sec t \<equiv> \<lparr>tv_sec = t, tv_nsec = 0\<rparr>"

definition steps :: "nat \<Rightarrow> nat \<Rightarrow> int \<Rightarrow> event list" where
  "steps k i t = replicate k (Step i (at_sec t))"

lemma bionic_sample_ok: "bionic_ok bionic_sample" "constants_ok bionic_sample"
  using set_take_subset by (auto simp: bionic_ok_def constants_ok_def bionic_sample_def min.commute dest: in_set_takeD)

lemma sample_tids_ok: "n \<le> 100 \<Longrightarrow> tids_ok n sample_tids"
  unfolding tids_ok_def sample_tids_def
  by (auto simp: unat_of_nat inj_on_def word_unat_eq_iff simp del: of_nat_Suc)

lemma sample_init: "pthread_mutex_init bionic_sample 0 (Some 1) = (OK, 0x4000)"
  by code_simp

text \<open>Thread 0 locks a recursive mutex twice and thread 1 goes to sleep on it.\<close>

definition nested_run :: "event list" where
  "nested_run = Call 0 Lock # steps 2 0 0 @ Call 0 Lock # steps 2 0 0 @ Call 1 Lock # steps 3 1 0"

lemma nested_run_end:
  "map_option (\<lambda>s. (m_value s, m_held s 0, m_held s 1, m_lab s 0, asleep (m_lab s 1)))
     (mrun bionic_sample (untimed_client 2) nested_run (msys_init 0x4000 sample_tids)) =
   Some (0x00014006, 2, 0, Done OK, True)"
  by code_simp

lemma nested_run_reach:
  obtains s where "mreach bionic_sample (untimed_client 2) (msys_init 0x4000 sample_tids) s"
    "m_value s = 0x00014006" "m_held s 0 = 2" "m_lab s 0 = Done OK" "asleep (m_lab s 1)"
proof -
  obtain s where r: "mrun bionic_sample (untimed_client 2) nested_run (msys_init 0x4000 sample_tids) = Some s"
    and s: "m_value s = 0x00014006" "m_held s 0 = 2" "m_lab s 0 = Done OK" "asleep (m_lab s 1)"
    using nested_run_end by auto
  show ?thesis by (rule that [OF mrun_reach [OF mreach.start r] s])
qed

lemma mreach_mono: "mreach B allowed s0 s \<Longrightarrow> \<forall>s e. allowed s e \<longrightarrow> allowed' s e \<Longrightarrow> mreach B allowed' s0 s"
  by (induction rule: mreach.induct) (auto intro: mreach.intros)

text \<open>
  Threads 1 (with a deadline) and 2 sleep while thread 0 holds a recursive mutex.  The unlock wakes thread 1, but thread 3
  takes the mutex first, so that the \<^verbatim>\<open>cmpxchg\<close> of thread 1 fails.
\<close>

definition timed_run :: "event list" where
  "timed_run =
     Call 0 Lock # steps 2 0 0 @
     Call 1 (Timedlock (at_sec 1)) # steps 4 1 0 @
     Call 2 Lock # steps 2 2 0 @
     Call 0 Unlock # steps 3 0 0 @
     steps 1 1 0 @
     Call 3 Lock # steps 2 3 0 @
     steps 1 1 0"

lemma timed_run_end:
  "map_option (\<lambda>s. (m_value s, m_held s 3, m_lab s 0, m_lab s 1, asleep (m_lab s 2), m_lab s 3, m_waitq s))
     (mrun bionic_sample (client_ok 4) timed_run (msys_init 0x4000 sample_tids)) =
   Some (0x00044001, 1, Done OK, D (at_sec 1) False (D_late 0x4000 0), True, Done OK, [2])"
  by code_simp

section \<open>Properties\<close>

lemma owned_word:
  assumes s: "sys_ok n b s"
  obtains (Free) "m_value s = base b" "\<forall>i. \<not> owns s i"
  | (Owned) i t c st where "i < n" "owned_by b s i" "t = otid b (m_tid s i)" "c = cnt b (m_held s i) (m_lab s i)"
      "m_value s = MW b t c st" "locked_state st" "fits b t c st"
proof (cases "\<exists>i < n. owned_by b s i")
  case True
  then obtain i where i: "i < n" "owned_by b s i" by blast
  then obtain st where "locked_state st" "m_value s = MW b (otid b (m_tid s i)) (cnt b (m_held s i) (m_lab s i)) st"
    by (auto simp: owned_by_def owner_word_def)
  then show ?thesis using that(2) i fits_any [OF owned_fits [OF sys_okD(1,2) [OF s] i]] by blast
next
  case False
  then show ?thesis using that(1) sys_okD(4) [OF s] by (auto simp: value_ok_def)
qed

text \<open>
  C34: In every state that threads calling the mutex functions can reach, the mutex word is well formed:
  its type and shared bits are those of the initialisation, its lock state is 0, 1 or 2, an unlocked
  mutex has exactly its initial value, and a normal mutex has no owner and no recursion count.
\<close>

theorem mutex_word_type:
  assumes "bionic_ok B" "tids_ok n tids" "pthread_mutex_init B v0 attr = (OK, v)"
    "mreach B (client_ok n) (msys_init v tids) s"
  shows "m_value s AND MUTEX_TYPE_MASK = v AND MUTEX_TYPE_MASK \<and>
    m_value s AND MUTEX_SHARED_MASK = v AND MUTEX_SHARED_MASK \<and>
    m_value s AND MUTEX_STATE_MASK \<in> {0, 1, 2} \<and>
    (m_value s AND MUTEX_STATE_MASK = 0 \<longrightarrow> m_value s = v) \<and>
    (v AND MUTEX_TYPE_MASK = MUTEX_TYPE_BITS_NORMAL \<longrightarrow>
      MUTEX_OWNER_FROM_BITS (m_value s) = 0 \<and> MUTEX_COUNTER_BITS_IS_ZERO (m_value s))"
proof -
  obtain b where b: "take_bit 3 b = b" "v = base b" using mutex_init_base [OF assms(3)] .
  have f0: "fits b 0 0 0" using b(1) by (simp add: fits_def)
  have "sys_ok n b s"
    by (rule reach_ok [OF assms(4)]) (use init_ok(1) [OF b(1) assms(2)] b(2) assms(1) in auto)
  then show ?thesis
  proof (cases rule: owned_word)
    case Free
    then show ?thesis using b(2) f0 by (simp add: MW_state MW_owner MW_counter_tests)
  next
    case (Owned i t c st)
    have "t = 0 \<and> c = 0" if "normal b" using Owned(3,4) that by (simp add: otid_def cnt_def)
    moreover have "st = 1 \<or> st = 2" using Owned(6) by (simp add: locked_state_def)
    ultimately show ?thesis using Owned(5,7) b(2) f0
      by (auto simp: MW_state MW_owner MW_counter_tests word_tests)
  qed
qed

theorem mutex_word_type_witness:
  "\<exists>s. mreach bionic_sample (client_ok 2) (msys_init 0x4000 sample_tids) s \<and> m_held s 0 = 2 \<and>
     m_value s AND MUTEX_TYPE_MASK = 0x4000 AND MUTEX_TYPE_MASK \<and> m_value s AND MUTEX_STATE_MASK \<in> {0, 1, 2}"
proof -
  obtain s where s: "mreach bionic_sample (untimed_client 2) (msys_init 0x4000 sample_tids) s" "m_held s 0 = 2"
    using nested_run_reach by metis
  have r: "mreach bionic_sample (client_ok 2) (msys_init 0x4000 sample_tids) s"
    by (rule mreach_mono [OF s(1)]) (simp add: untimed_client_def)
  with mutex_word_type [OF bionic_sample_ok(1) sample_tids_ok sample_init r] s show ?thesis by auto
qed

text \<open>
  C4: At most one thread holds the mutex, and while it does the word says locked.  A normal mutex is held
  once; the word of a recursive or error-checking one names the holder and, while the holder is
  not inside a call, its counter is one less than the number of successful locks not yet undone,
  which is at most 2048.
\<close>

theorem mutex_exclusion:
  assumes "bionic_ok B" "tids_ok n tids" "pthread_mutex_init B v0 attr = (OK, v)"
    "mreach B (client_ok n) (msys_init v tids) s" "0 < m_held s i"
  shows "(\<forall>j. 0 < m_held s j \<longrightarrow> j = i) \<and> m_value s AND MUTEX_STATE_MASK \<noteq> 0 \<and>
    (if v AND MUTEX_TYPE_MASK = MUTEX_TYPE_BITS_NORMAL then m_held s i = 1
     else MUTEX_OWNER_FROM_BITS (m_value s) = m_tid s i \<and>
       (\<forall>e. m_lab s i = Done e \<longrightarrow> m_held s i \<le> 2048 \<and>
          m_value s AND MUTEX_COUNTER_MASK = push_bit 2 (word_of_nat (m_held s i - 1))))"
proof -
  obtain b where b: "take_bit 3 b = b" "v = base b" using mutex_init_base [OF assms(3)] .
  have f0: "fits b 0 0 0" using b(1) by (simp add: fits_def)
  have "sys_ok n b s"
    by (rule reach_ok [OF assms(4)]) (use init_ok(1) [OF b(1) assms(2)] b(2) assms(1) in auto)
  then show ?thesis
  proof (cases rule: owned_word)
    case Free
    then show ?thesis using assms(5) by (simp add: owns_def own_def)
  next
    case (Owned k t c st)
    have only: "j = k" if "0 < m_held s j" for j
      using Owned(2) that by (auto simp: owned_by_def owns_def own_def)
    have i: "k = i" using only [OF assms(5)] by simp
    have ok: "own_ok b (m_held s i) (m_lab s i)" using Owned(2) i by (simp add: owned_by_def)
    have "st \<noteq> 0" using Owned(6) by (auto simp: locked_state_def)
    moreover have "m_held s i = 1" if "normal b" using ok that assms(5) by (simp add: own_ok_def)
    moreover have "t = m_tid s i" if "\<not> normal b" using Owned(3) that i by (simp add: otid_def)
    moreover have "c = m_held s i - 1 \<and> m_held s i \<le> 2048" if "\<not> normal b" "m_lab s i = Done e" for e
      using Owned(4) that i ok by (simp add: own_ok_def cnt_def)
    moreover have "\<forall>j. 0 < m_held s j \<longrightarrow> j = i" using only i by simp
    ultimately show ?thesis using Owned(5,7) b(2) f0
      by (auto simp: MW_state MW_owner MW_counter word_tests)
  qed
qed

theorem mutex_exclusion_witness:
  "\<exists>s. mreach bionic_sample (client_ok 2) (msys_init 0x4000 sample_tids) s \<and> m_held s 0 = 2 \<and>
     (\<forall>j. m_held s j = 0 \<or> j = 0) \<and> MUTEX_OWNER_FROM_BITS (m_value s) = 1 \<and>
     m_value s AND MUTEX_COUNTER_MASK = 4"
proof -
  obtain s where s: "mreach bionic_sample (untimed_client 2) (msys_init 0x4000 sample_tids) s" "m_held s 0 = 2"
    "m_value s = 0x00014006"
    using nested_run_reach by metis
  have r: "mreach bionic_sample (client_ok 2) (msys_init 0x4000 sample_tids) s"
    by (rule mreach_mono [OF s(1)]) (simp add: untimed_client_def)
  have "\<forall>j. 0 < m_held s j \<longrightarrow> j = 0"
    using mutex_exclusion [OF bionic_sample_ok(1) sample_tids_ok sample_init r, of 0] s(2) by auto
  moreover have "MUTEX_OWNER_FROM_BITS 0x00014006 = 1" "0x00014006 AND MUTEX_COUNTER_MASK = 4" by code_simp+
  ultimately show ?thesis using r s(2,3) by auto
qed

text \<open>
  C5: No wake-up is lost as long as recursive and error-checking mutexes are locked without a deadline:
  when every thread is either outside the mutex functions or asleep in them, and some thread is
  asleep, then the mutex is held and its state is 2, so that the holder's unlock wakes a thread.
\<close>

theorem mutex_no_lost_wakeup:
  assumes "bionic_ok B" "tids_ok n tids" "pthread_mutex_init B v0 attr = (OK, v)"
    "mreach B (untimed_client n) (msys_init v tids) s"
    "\<forall>j. asleep (m_lab s j) \<or> (\<exists>e. m_lab s j = Done e)" "asleep (m_lab s i)"
  shows "MUTEX_STATE_BITS_IS_LOCKED_CONTENDED (m_value s) \<and> (\<exists>j. 0 < m_held s j)"
proof -
  obtain b where b: "take_bit 3 b = b" "v = base b" using mutex_init_base [OF assms(3)] .
  note i0 = init_ok [OF b(1) assms(2)]
  have ok: "sys_ok n b s"
    by (rule reach_ok [OF assms(4)]) (use i0 b(2) assms(1) in \<open>auto simp: untimed_client_def\<close>)
  have wk: "wake_ok n b s"
    by (rule reach_wake [OF assms(4)]) (use i0 b(2) assms(1) in auto)
  have quiet: "\<not> waker (m_lab s j) \<and> \<not> contender (m_lab s j) \<and> \<not> in_release (m_lab s j)" for j
    using assms(5) by (cases "m_lab s j") (auto dest: spec [of _ j])
  have "i \<in> set (m_waitq s)" using sys_okD(3) [OF ok] assms(6) by (simp add: queue_ok_def)
  then have "m_waitq s \<noteq> []" by auto
  then have c: "contended (m_value s)" using wk quiet unfolding wake_ok_def by blast
  from ok show ?thesis
  proof (cases rule: owned_word)
    case Free
    have "fits b 0 0 0" using b(1) by (simp add: fits_def)
    from contended_states(1) [OF this] show ?thesis using Free(1) c by simp
  next
    case (Owned k t c' st)
    then have "0 < m_held s k" using quiet [of k] by (auto simp: owned_by_def owns_def own_def)
    then show ?thesis using c by blast
  qed
qed

theorem mutex_no_lost_wakeup_witness:
  "\<exists>s. mreach bionic_sample (untimed_client 2) (msys_init 0x4000 sample_tids) s \<and> asleep (m_lab s 1) \<and>
     MUTEX_STATE_BITS_IS_LOCKED_CONTENDED (m_value s) \<and> (\<exists>j. 0 < m_held s j)"
proof -
  obtain s where s: "mreach bionic_sample (untimed_client 2) (msys_init 0x4000 sample_tids) s" "asleep (m_lab s 1)"
    "m_lab s 0 = Done OK"
    using nested_run_reach by metis
  obtain b where b: "take_bit 3 b = b" "0x4000 = base b" using mutex_init_base [OF sample_init] .
  have "sys_ok 2 b s"
    by (rule reach_ok [OF s(1) _ bionic_sample_ok(1)])
      (use init_ok(1) [OF b(1) sample_tids_ok] b(2) in \<open>auto simp: untimed_client_def\<close>)
  then have "m_lab s j = Done OK" if "2 \<le> j" for j using that by (simp add: sys_ok_def threads_ok_def)
  moreover have "j = 0 \<or> j = 1 \<or> 2 \<le> j" for j :: nat by linarith
  ultimately have "asleep (m_lab s j) \<or> (\<exists>e. m_lab s j = Done e)" for j
    using s(2,3) by metis
  with mutex_no_lost_wakeup [OF bionic_sample_ok(1) sample_tids_ok sample_init s(1), of 1] s show ?thesis by auto
qed

text \<open>
  A mutex of the other two types that a thread outside the mutex functions holds once: its word, seen by the holder
  and by a thread that waits for it with a deadline.
\<close>

lemma held_once:
  assumes ok: "sys_ok n b s" and nn: "\<not> normal b" and k: "m_held s k = 1" "m_lab s k = Done e"
    and u: "MUTEX_STATE_BITS_IS_LOCKED_UNCONTENDED (m_value s)"
  shows "k < n" "m_value s = MW b (m_tid s k) 0 1" "fits b (m_tid s k) 0 1" "\<And>j. j \<noteq> k \<Longrightarrow> m_held s j = 0"
proof -
  have own: "owns s k" using k by (simp add: owns_def own_def)
  have "k < n \<and> m_value s = MW b (m_tid s k) 0 1 \<and> fits b (m_tid s k) 0 1 \<and> (\<forall>j. j \<noteq> k \<longrightarrow> m_held s j = 0)"
    using ok
  proof (cases rule: owned_word)
    case Free
    then show ?thesis using own by blast
  next
    case (Owned i t c st)
    have i: "i = k" and o: "\<forall>j. owns s j \<longrightarrow> j = i" using Owned(2) own by (auto simp: owned_by_def)
    have "m_held s j = 0" if "j \<noteq> k" for j
      using o that i by (cases "m_held s j") (auto simp: owns_def own_def)
    moreover have "t = m_tid s k" "c = 0" using Owned(3,4) nn i k by (simp_all add: otid_def cnt_def)
    moreover have "st = 1" using u Owned(5,7) by (simp add: word_tests)
    ultimately show ?thesis using Owned i by auto
  qed
  then show "k < n" "m_value s = MW b (m_tid s k) 0 1" "fits b (m_tid s k) 0 1" "\<And>j. j \<noteq> k \<Longrightarrow> m_held s j = 0"
    by blast+
qed

text \<open>
  C33: With deadlines a wake-up can be lost on a recursive or error-checking mutex, and the deadline is what loses it.
  Take any reachable state in which thread \<^verbatim>\<open>i\<close>, in \<^verbatim>\<open>__pthread_mutex_timedlock\<close>, has seen the mutex unlocked but lost the race
  for it (its \<^verbatim>\<open>cmpxchg\<close> failed), and thread \<^verbatim>\<open>k\<close>, outside the mutex functions, holds the mutex once in the uncontended state.
  If the deadline of \<^verbatim>\<open>i\<close> has passed, it returns \<^verbatim>\<open>ETIMEDOUT\<close> and leaves the word uncontended; the unlock of \<^verbatim>\<open>k\<close> then leaves
  the mutex unlocked and held by nobody, and wakes none of the threads asleep on it: no other thread has moved and the
  queue of sleepers is the same.  If the deadline has not passed, \<^verbatim>\<open>i\<close> goes on to mark the word contended, and
  the unlock of \<^verbatim>\<open>k\<close> wakes one of the sleepers.
\<close>

theorem mutex_timed_lost_wakeup:
  assumes "bionic_ok B" "tids_ok n tids" "pthread_mutex_init B v0 attr = (OK, v)"
    "mreach B (client_ok n) (msys_init v tids) s" "v AND MUTEX_TYPE_MASK \<noteq> MUTEX_TYPE_BITS_NORMAL"
    "i < n" "m_lab s i = D abstime False (D_late mtype shared)"
    "m_held s k = 1" "m_lab s k = Done e" "MUTEX_STATE_BITS_IS_LOCKED_UNCONTENDED (m_value s)"
  shows "(expired now abstime \<longrightarrow>
      (\<exists>s'. mrun B (client_ok n) [Step i now, Call k Unlock, Step k now, Step k now] s = Some s' \<and>
        m_lab s' i = Done ETIMEDOUT \<and> m_lab s' k = Done OK \<and> m_value s' = v \<and> (\<forall>j. m_held s' j = 0) \<and>
        m_waitq s' = m_waitq s \<and> (\<forall>j. j \<noteq> i \<and> j \<noteq> k \<longrightarrow> m_lab s' j = m_lab s j))) \<and>
    (\<not> expired now abstime \<and> m_waitq s \<noteq> [] \<longrightarrow>
      (\<exists>s'. mrun B (client_ok n) [Step i now, Step i now, Step i now, Call k Unlock, Step k now, Step k now, Step k now] s =
          Some s' \<and> m_lab s' k = Done OK \<and> m_value s' = v \<and> (\<forall>j. m_held s' j = 0) \<and>
        (\<exists>j \<in> set (m_waitq s). asleep (m_lab s j) \<and> \<not> asleep (m_lab s' j))))"
proof -
  obtain b where b: "take_bit 3 b = b" "v = base b" using mutex_init_base [OF assms(3)] .
  have f0: "fits b 0 0 0" using b(1) by (simp add: fits_def)
  have nn: "\<not> normal b" using assms(5) b(2) word_tests(1) [OF f0] by simp
  have ok: "sys_ok n b s"
    by (rule reach_ok [OF assms(4)]) (use init_ok(1) [OF b(1) assms(2)] b(2) assms(1) in auto)
  note h = held_once [OF ok nn assms(8-10)]
  have th: "lab_ok b (m_tid s j) (m_held s j) (m_lab s j)" if "j < n" for j
    using threads_okD(2) [OF sys_okD(2) [OF ok] that] .
  have l: "mtype = base b" "shared = sharedb b" using th [OF assms(6)] assms(7) by (simp_all add: locals_def)
  have ik: "i \<noteq> k" "k \<noteq> i" using assms(7,9) by auto
  have f2: "fits b (m_tid s k) 0 2" using h(3) by (simp add: fits_def)
  have t0: "m_tid s k \<noteq> 0" using threads_okD(1) [OF sys_okD(2) [OF ok] h(1)] by (simp add: tid_ok_def)
  note w1 = word_tests [OF h(3)] MW_owner [OF h(3)] MW_counter_tests [OF h(3)] MW_flip [OF h(3)]
  note w2 = word_tests [OF f2] MW_owner [OF f2] MW_counter_tests [OF f2]
  note pr = bionic_prims [OF assms(1)] cmpxchg_if [OF assms(1)]
  have q: "distinct (m_waitq s)" "\<And>j. j \<in> set (m_waitq s) \<Longrightarrow> asleep (m_lab s j)"
    using sys_okD(3) [OF ok] by (auto simp: queue_ok_def)
  show ?thesis
  proof (intro conjI impI)
    assume "expired now abstime"
    then show "\<exists>s'. mrun B (client_ok n) [Step i now, Call k Unlock, Step k now, Step k now] s = Some s' \<and>
        m_lab s' i = Done ETIMEDOUT \<and> m_lab s' k = Done OK \<and> m_value s' = v \<and> (\<forall>j. m_held s' j = 0) \<and>
        m_waitq s' = m_waitq s \<and> (\<forall>j. j \<noteq> i \<and> j \<noteq> k \<longrightarrow> m_lab s' j = m_lab s j)"
      using assms(6-9) h(1,4) ik nn
      by (simp add: h(2) w1 pr l b(2) Let_def apply_act_def start_call_def late_ret_def)
  next
    assume a: "\<not> expired now abstime \<and> m_waitq s \<noteq> []"
    define w where "w = futex_wakes B (sharedb b) (Suc 0) (m_waitq s)"
    have "set w \<subseteq> set (m_waitq s)" "length w = 1"
      using bionic_wakes [OF assms(1) q(1), of "sharedb b" "Suc 0"] a by (cases "m_waitq s"; simp add: w_def)+
    then obtain j where j: "j \<in> set w" "j \<in> set (m_waitq s)" by (cases w) auto
    have js: "asleep (m_lab s j)" "j \<noteq> i" "j \<noteq> k" using q(2) [OF j(2)] assms(7,9) by auto
    have "j < n" using js(1) sys_okD(2) [OF ok] by (cases "j < n") (auto simp: threads_ok_def)
    then have jw: "\<not> asleep (wakened (m_lab s j))" by (rule wakened_lab(4) [OF th])
    show "\<exists>s'. mrun B (client_ok n) [Step i now, Step i now, Step i now, Call k Unlock, Step k now, Step k now, Step k now] s =
          Some s' \<and> m_lab s' k = Done OK \<and> m_value s' = v \<and> (\<forall>j. m_held s' j = 0) \<and>
        (\<exists>j \<in> set (m_waitq s). asleep (m_lab s j) \<and> \<not> asleep (m_lab s' j))"
      using assms(6-9) h(1,4) ik nn a t0
      by (simp add: h(2) w1 w2 pr l b(2) Let_def apply_act_def start_call_def w_def [symmetric])
        (use j js jw in \<open>auto intro!: bexI [of _ j]\<close>)
  qed
qed


theorem mutex_timed_lost_wakeup_witness:
  "\<exists>s s'. mreach bionic_sample (client_ok 4) (msys_init 0x4000 sample_tids) s \<and> asleep (m_lab s 2) \<and>
     mrun bionic_sample (client_ok 4) [Step 1 (at_sec 2), Call 3 Unlock, Step 3 (at_sec 2), Step 3 (at_sec 2)] s = Some s' \<and>
     m_lab s' 1 = Done ETIMEDOUT \<and> m_value s' = 0x4000 \<and> (\<forall>j. m_held s' j = 0) \<and> m_waitq s' = [2] \<and> asleep (m_lab s' 2)"
proof -
  obtain s where r: "mrun bionic_sample (client_ok 4) timed_run (msys_init 0x4000 sample_tids) = Some s"
    and s: "m_value s = 0x00044001" "m_held s 3 = 1" "m_lab s 1 = D (at_sec 1) False (D_late 0x4000 0)" "asleep (m_lab s 2)"
      "m_lab s 3 = Done OK" "m_waitq s = [2]"
    using timed_run_end by auto
  have reach: "mreach bionic_sample (client_ok 4) (msys_init 0x4000 sample_tids) s"
    by (rule mrun_reach [OF mreach.start r])
  have c: "0x4000 AND MUTEX_TYPE_MASK \<noteq> MUTEX_TYPE_BITS_NORMAL" "MUTEX_STATE_BITS_IS_LOCKED_UNCONTENDED (m_value s)"
    "expired (at_sec 2) (at_sec 1)"
    unfolding s(1) by code_simp+
  have "\<exists>s'. mrun bionic_sample (client_ok 4) [Step 1 (at_sec 2), Call 3 Unlock, Step 3 (at_sec 2), Step 3 (at_sec 2)] s = Some s' \<and>
        m_lab s' 1 = Done ETIMEDOUT \<and> m_lab s' 3 = Done OK \<and> m_value s' = 0x4000 \<and> (\<forall>j. m_held s' j = 0) \<and>
        m_waitq s' = m_waitq s \<and> (\<forall>j. j \<noteq> 1 \<and> j \<noteq> 3 \<longrightarrow> m_lab s' j = m_lab s j)"
    by (rule mp [OF conjunct1 [OF mutex_timed_lost_wakeup [OF bionic_sample_ok(1) sample_tids_ok sample_init reach
            c(1) _ s(3) s(2) s(5) c(2)]] c(3)]) simp_all
  then obtain s' where
    "mrun bionic_sample (client_ok 4) [Step 1 (at_sec 2), Call 3 Unlock, Step 3 (at_sec 2), Step 3 (at_sec 2)] s = Some s'"
    "m_lab s' 1 = Done ETIMEDOUT" "m_value s' = 0x4000" "\<forall>j. m_held s' j = 0" "m_waitq s' = m_waitq s"
    "m_lab s' 2 = m_lab s 2" by auto
  then show ?thesis using reach s(4,6) by (intro exI [of _ s] exI [of _ s']) simp
qed

text \<open>
  C35: Unlocking a recursive or error-checking mutex returns \<^verbatim>\<open>EPERM\<close>, and changes nothing, exactly when the
  calling thread does not hold it.  But a holder whose \<^verbatim>\<open>pthread_internal_t\<close> has been freed, so that its tid
  reads differently, also gets \<^verbatim>\<open>EPERM\<close>: the mutex stays locked in its name.
\<close>

theorem mutex_unlock_check:
  assumes "bionic_ok B" "tids_ok n tids" "pthread_mutex_init B v0 attr = (OK, v)"
    "mreach B (client_ok n) (msys_init v tids) s" "v AND MUTEX_TYPE_MASK \<noteq> MUTEX_TYPE_BITS_NORMAL"
    "i < n" "m_lab s i = U U_load"
  shows "\<exists>s'. mstep B (Step i now) s = Some s' \<and> m_value s' = m_value s \<and>
      (m_lab s' i = Done EPERM \<longleftrightarrow> m_held s i = 0) \<and> m_held s' i = m_held s i - 1 \<and>
      (0 < m_held s i \<longrightarrow> (\<forall>w. w \<noteq> m_tid s i \<longrightarrow>
         mrun B (\<lambda>_ _. True) [Freed i w, Step i now] s =
         Some (s\<lparr>m_tid := (m_tid s)(i := w), m_lab := (m_lab s)(i := Done EPERM)\<rparr>)))"
proof -
  obtain b where b: "take_bit 3 b = b" "v = base b" using mutex_init_base [OF assms(3)] .
  have f0: "fits b 0 0 0" using b(1) by (simp add: fits_def)
  have nn: "\<not> normal b" using assms(5) b(2) word_tests(1) [OF f0] by simp
  have ok: "sys_ok n b s"
    by (rule reach_ok [OF assms(4)]) (use init_ok(1) [OF b(1) assms(2)] b(2) assms(1) in auto)
  have t: "tid_ok (m_tid s i)" using threads_okD(1) [OF sys_okD(2) [OF ok] assms(6)] .
  have o: "own (m_held s i) (m_lab s i) \<longleftrightarrow> 0 < m_held s i" using assms(7) by (simp add: own_def)
  show ?thesis using sys_view [OF ok assms(6)] b(1) t
    by (cases rule: word_cases; cases "m_held s i")
      (use nn o assms(7) t in \<open>auto simp: Let_def apply_act_def word_tests MW_owner MW_counter_tests other_word_def
        otid_def cnt_def tid_ok_def fun_upd_def\<close>)
qed

text \<open>A run that ends while thread 0 is about to unlock the mutex that it holds twice.\<close>

definition unlocking_run :: "event list" where
  "unlocking_run = nested_run @ [Call 0 Unlock]"

lemma unlocking_run_end:
  "map_option (\<lambda>s. (m_value s, m_held s 0, m_lab s 0))
     (mrun bionic_sample (client_ok 2) unlocking_run (msys_init 0x4000 sample_tids)) =
   Some (0x00014006, 2, U U_load)"
  by code_simp

theorem mutex_unlock_check_witness:
  "\<exists>s. mreach bionic_sample (client_ok 2) (msys_init 0x4000 sample_tids) s \<and> m_held s 0 = 2 \<and>
     mrun bionic_sample (\<lambda>_ _. True) [Freed 0 0, Step 0 (at_sec 0)] s =
       Some (s\<lparr>m_tid := (m_tid s)(0 := 0), m_lab := (m_lab s)(0 := Done EPERM)\<rparr>)"
proof -
  obtain s where r: "mrun bionic_sample (client_ok 2) unlocking_run (msys_init 0x4000 sample_tids) = Some s"
    and s: "m_value s = 0x00014006" "m_held s 0 = 2" "m_lab s 0 = U U_load"
    using unlocking_run_end by auto
  have reach: "mreach bionic_sample (client_ok 2) (msys_init 0x4000 sample_tids) s"
    by (rule mrun_reach [OF mreach.start r])
  have "0x4000 AND MUTEX_TYPE_MASK \<noteq> MUTEX_TYPE_BITS_NORMAL" by code_simp
  note c = mutex_unlock_check [OF bionic_sample_ok(1) sample_tids_ok sample_init reach this, of 0 "at_sec 0"]
  obtain b where b: "take_bit 3 b = b" "0x4000 = base b" using mutex_init_base [OF sample_init] .
  have "sys_ok 2 b s"
    by (rule reach_ok [OF reach _ bionic_sample_ok(1)]) (use init_ok(1) [OF b(1) sample_tids_ok] b(2) in auto)
  then have "(0 :: mword) \<noteq> m_tid s 0" by (auto simp: sys_ok_def threads_ok_def tid_ok_def)
  with c s reach show ?thesis by auto
qed

text \<open>
  C36: \<^verbatim>\<open>pthread_mutex_destroy\<close> of an unlocked mutex succeeds and poisons the word; of a mutex that another thread
  holds it returns \<^verbatim>\<open>EBUSY\<close> and changes nothing.  But it also succeeds on a recursive mutex that the
  caller itself has locked (fewer than 2048 times), because the \<^verbatim>\<open>trylock\<close> that is to detect a locked mutex
  then succeeds.
\<close>

theorem mutex_destroy:
  assumes "bionic_ok B" "tids_ok n tids" "pthread_mutex_init B v0 attr = (OK, v)"
    "mreach B (client_ok n) (msys_init v tids) s" "i < n" "m_lab s i = Done e"
  shows "(m_value s = v \<longrightarrow> (\<exists>s'. mrun B (\<lambda>_ _. True) (Call i Destroy # replicate 3 (Step i now)) s = Some s' \<and>
        m_lab s' i = Done OK \<and> m_value s' = 0xdead10cc)) \<and>
    (m_value s \<noteq> v \<and> m_held s i = 0 \<longrightarrow>
        (\<exists>s'. mrun B (\<lambda>_ _. True) (Call i Destroy # replicate 2 (Step i now)) s = Some s' \<and>
        m_lab s' i = Done EBUSY \<and> m_value s' = m_value s \<and> m_held s' = m_held s)) \<and>
    (v AND MUTEX_TYPE_MASK = MUTEX_TYPE_BITS_RECURSIVE \<and> 0 < m_held s i \<and> m_held s i < 2048 \<longrightarrow>
        (\<exists>s'. mrun B (\<lambda>_ _. True) (Call i Destroy # replicate 3 (Step i now)) s = Some s' \<and>
        m_lab s' i = Done OK \<and> m_value s' = 0xdead10cc))"
proof -
  obtain b where b: "take_bit 3 b = b" "v = base b" using mutex_init_base [OF assms(3)] .
  have f0: "fits b 0 0 0" using b(1) by (simp add: fits_def)
  have ok: "sys_ok n b s"
    by (rule reach_ok [OF assms(4)]) (use init_ok(1) [OF b(1) assms(2)] b(2) assms(1) in auto)
  have t: "tid_ok (m_tid s i)" using threads_okD(1) [OF sys_okD(2) [OF ok] assms(5)] .
  have o: "own (m_held s i) (m_lab s i) \<longleftrightarrow> 0 < m_held s i" using assms(6) by (simp add: own_def)
  have e: "MUTEX_TYPE_BITS_RECURSIVE \<noteq> MUTEX_TYPE_BITS_ERRORCHECK" "MUTEX_TYPE_BITS_RECURSIVE \<noteq> 0" by code_simp+
  have r3: "replicate 3 x = [x, x, x]" "replicate 2 x = [x, x]" for x :: event by (simp_all add: numeral_eq_Suc)
  have ty: "normal b \<Longrightarrow> typeb b \<noteq> MUTEX_TYPE_BITS_RECURSIVE" using word_tests(5) [OF f0] e(2) by metis
  note cas = cmpxchg_if [OF assms(1)]
  show ?thesis using sys_view [OF ok assms(5)] b(1) t
    by (cases rule: word_cases; cases "normal b")
      (use f0 o assms(6) t b e in \<open>auto simp: Let_def apply_act_def word_tests MW_owner MW_counter_tests other_word_def
        otid_def cnt_def tid_ok_def fun_upd_def r3 ty start_call_def cas recursive_increment_def ret_def
        mutex_destroy_store_def MW_or0 normal_sharedb word_own word_states\<close>)
qed

theorem mutex_destroy_witness:
  "\<exists>s s'. mreach bionic_sample (client_ok 2) (msys_init 0x4000 sample_tids) s \<and> m_held s 0 = 2 \<and>
     mrun bionic_sample (\<lambda>_ _. True) (Call 0 Destroy # replicate 3 (Step 0 (at_sec 0))) s = Some s' \<and>
     m_lab s' 0 = Done OK \<and> m_value s' = 0xdead10cc"
proof -
  obtain s where s: "mreach bionic_sample (untimed_client 2) (msys_init 0x4000 sample_tids) s" "m_held s 0 = 2"
    "m_lab s 0 = Done OK"
    using nested_run_reach by metis
  have r: "mreach bionic_sample (client_ok 2) (msys_init 0x4000 sample_tids) s"
    by (rule mreach_mono [OF s(1)]) (simp add: untimed_client_def)
  have "0x4000 AND MUTEX_TYPE_MASK = MUTEX_TYPE_BITS_RECURSIVE" by code_simp
  with mutex_destroy [OF bionic_sample_ok(1) sample_tids_ok sample_init r, of 0 OK "at_sec 0"] s r
  show ?thesis by auto
qed

lemma attr_masks:
  fixes a ty :: mword
  assumes "ty = 0 \<or> ty = 1 \<or> ty = 2"
  shows "(a AND NOT 15 OR ty) AND 15 = ty" "(a AND NOT 15 OR ty) AND 16 = a AND 16"
    "(a AND NOT 16) AND 15 = a AND 15" "(a OR 16) AND 15 = a AND 15" "(a AND NOT 16) AND 16 = 0" "(a OR 16) AND 16 = 16"
proof -
  have t: "ty AND 15 = ty" "ty AND 16 = 0" using assms by auto
  have n: "(NOT 15 :: mword) AND 15 = 0" "(NOT 15 :: mword) AND 16 = 16" "(NOT 16 :: mword) AND 15 = 15"
    "(NOT 16 :: mword) AND 16 = 0" "(16 :: mword) AND 15 = 0" by simp_all
  show "(a AND NOT 15 OR ty) AND 15 = ty" "(a AND NOT 15 OR ty) AND 16 = a AND 16"
    "(a AND NOT 16) AND 15 = a AND 15" "(a OR 16) AND 15 = a AND 15" "(a AND NOT 16) AND 16 = 0" "(a OR 16) AND 16 = 16"
    by (simp_all only: bit.conj_disj_distrib2 and.assoc n t) (simp_all add: or.commute)
qed

lemma valid_type:
  assumes "constants_ok B"
  shows "bad_type B ty \<longleftrightarrow> ty \<notin> {PTHREAD_MUTEX_NORMAL B, PTHREAD_MUTEX_RECURSIVE B, PTHREAD_MUTEX_ERRORCHECK B}"
proof -
  have e: "sint ty = k \<longleftrightarrow> ty = word_of_int k" if "k = 0 \<or> k = 1 \<or> k = 2" for k :: int
  proof
    assume "sint ty = k"
    then show "ty = word_of_int k" by auto
  qed (use that in auto)
  have "sint ty = 0 \<or> sint ty = 1 \<or> sint ty = 2 \<longleftrightarrow> ty = 0 \<or> ty = 1 \<or> ty = 2" by (simp add: e)
  then show ?thesis using assms by (auto simp: bad_type_def constants_ok_def)
qed

lemma settype_get:
  assumes "constants_ok B" "ty \<in> {PTHREAD_MUTEX_NORMAL B, PTHREAD_MUTEX_RECURSIVE B, PTHREAD_MUTEX_ERRORCHECK B}"
  shows "\<exists>a'. pthread_mutexattr_settype B a ty = (OK, a') \<and> pthread_mutexattr_gettype B a' x = (OK, ty) \<and>
    pthread_mutexattr_getpshared B a' = pthread_mutexattr_getpshared B a"
proof -
  have ty: "ty = 0 \<or> ty = 1 \<or> ty = 2" using assms by (auto simp: constants_ok_def)
  show ?thesis using assms valid_type [OF assms(1), of ty] attr_masks(1,2) [OF ty, of a]
    by (simp add: pthread_mutexattr_settype_def pthread_mutexattr_gettype_def pthread_mutexattr_getpshared_def
        MUTEXATTR_TYPE_MASK_def MUTEXATTR_SHARED_MASK_def)
qed

lemma setpshared_get:
  assumes "constants_ok B" "p \<in> {PTHREAD_PROCESS_PRIVATE B, PTHREAD_PROCESS_SHARED B}"
  shows "\<exists>a'. pthread_mutexattr_setpshared B a p = (OK, a') \<and> pthread_mutexattr_getpshared B a' = (OK, p) \<and>
    pthread_mutexattr_gettype B a' x = pthread_mutexattr_gettype B a x"
  using assms attr_masks(3-6) [of 0 a, OF disjI1 [OF refl]]
  by (auto simp: pthread_mutexattr_setpshared_def pthread_mutexattr_gettype_def pthread_mutexattr_getpshared_def
      MUTEXATTR_TYPE_MASK_def MUTEXATTR_SHARED_MASK_def constants_ok_def)

lemma init_attr:
  assumes "constants_ok B" "pthread_mutexattr_gettype B a x = (OK, ty)" "pthread_mutexattr_getpshared B a = (OK, p)"
  shows "pthread_mutex_init B v0 (Some a) =
    (OK, MUTEX_TYPE_TO_BITS ty OR (if p = PTHREAD_PROCESS_SHARED B then MUTEX_SHARED_MASK else 0))"
proof -
  have ty: "a AND 15 = ty" "ty = 0 \<or> ty = 1 \<or> ty = 2"
    using assms(1,2) valid_type [OF assms(1), of "a AND 15"]
    by (auto simp: pthread_mutexattr_gettype_def MUTEXATTR_TYPE_MASK_def Let_def constants_ok_def split: if_splits)
  have sh: "a AND 16 \<noteq> 0 \<longleftrightarrow> p = PTHREAD_PROCESS_SHARED B"
    using assms(1,3) by (auto simp: pthread_mutexattr_getpshared_def MUTEXATTR_SHARED_MASK_def constants_ok_def split: if_splits)
  have c: "PTHREAD_MUTEX_NORMAL B = 0" "PTHREAD_MUTEX_RECURSIVE B = 1" "PTHREAD_MUTEX_ERRORCHECK B = 2"
    using assms(1) by (simp_all add: constants_ok_def)
  show ?thesis
    unfolding pthread_mutex_init_def option.case Let_def MUTEXATTR_SHARED_MASK_def MUTEXATTR_TYPE_MASK_def ty(1) sh c
      MUTEX_TYPE_BITS_NORMAL_def MUTEX_TYPE_BITS_RECURSIVE_def MUTEX_TYPE_BITS_ERRORCHECK_def
    using ty(2) by (elim disjE) (simp_all add: or.commute)
qed

text \<open>
  C37: What is stored in an attribute object is what is read back, whatever the object held before.  Setting a valid
  type makes \<^verbatim>\<open>gettype\<close> return it and keeps the sharing mode; setting a valid sharing mode makes
  \<^verbatim>\<open>getpshared\<close> return it and keeps the type; any other value is refused with \<^verbatim>\<open>EINVAL\<close> and changes nothing.
  \<^verbatim>\<open>pthread_mutex_init\<close> writes exactly the bits of the type and mode that are read back, and a freshly initialised attribute
  object holds the default type, private to the process.
\<close>

theorem mutexattr_roundtrip:
  assumes "constants_ok B"
  shows "(case pthread_mutexattr_settype B a ty of (e, a') \<Rightarrow>
      if ty \<in> {PTHREAD_MUTEX_NORMAL B, PTHREAD_MUTEX_RECURSIVE B, PTHREAD_MUTEX_ERRORCHECK B}
      then e = OK \<and> pthread_mutexattr_gettype B a' x = (OK, ty) \<and>
        pthread_mutexattr_getpshared B a' = pthread_mutexattr_getpshared B a
      else e = EINVAL \<and> a' = a) \<and>
    (case pthread_mutexattr_setpshared B a p of (e, a') \<Rightarrow>
      if p \<in> {PTHREAD_PROCESS_PRIVATE B, PTHREAD_PROCESS_SHARED B}
      then e = OK \<and> pthread_mutexattr_getpshared B a' = (OK, p) \<and>
        pthread_mutexattr_gettype B a' x = pthread_mutexattr_gettype B a x
      else e = EINVAL \<and> a' = a) \<and>
    (pthread_mutexattr_gettype B a x = (OK, ty) \<and> pthread_mutexattr_getpshared B a = (OK, p) \<longrightarrow>
      pthread_mutex_init B v0 (Some a) =
        (OK, MUTEX_TYPE_TO_BITS ty OR (if p = PTHREAD_PROCESS_SHARED B then MUTEX_SHARED_MASK else 0))) \<and>
    (case pthread_mutexattr_init B a of (e, a') \<Rightarrow> e = OK \<and>
      pthread_mutexattr_gettype B a' x = (OK, PTHREAD_MUTEX_DEFAULT B) \<and>
      pthread_mutexattr_getpshared B a' = (OK, PTHREAD_PROCESS_PRIVATE B))"
proof (intro conjI)
  let ?T = "{PTHREAD_MUTEX_NORMAL B, PTHREAD_MUTEX_RECURSIVE B, PTHREAD_MUTEX_ERRORCHECK B}"
  show "case pthread_mutexattr_settype B a ty of (e, a') \<Rightarrow>
      if ty \<in> ?T then e = OK \<and> pthread_mutexattr_gettype B a' x = (OK, ty) \<and>
        pthread_mutexattr_getpshared B a' = pthread_mutexattr_getpshared B a
      else e = EINVAL \<and> a' = a"
  proof (cases "ty \<in> ?T")
    case True
    then show ?thesis using settype_get [OF assms True, of a x] by auto
  next
    case False
    then show ?thesis using valid_type [OF assms, of ty] by (simp add: pthread_mutexattr_settype_def)
  qed
  let ?P = "{PTHREAD_PROCESS_PRIVATE B, PTHREAD_PROCESS_SHARED B}"
  show "case pthread_mutexattr_setpshared B a p of (e, a') \<Rightarrow>
      if p \<in> ?P then e = OK \<and> pthread_mutexattr_getpshared B a' = (OK, p) \<and>
        pthread_mutexattr_gettype B a' x = pthread_mutexattr_gettype B a x
      else e = EINVAL \<and> a' = a"
  proof (cases "p \<in> ?P")
    case True
    then show ?thesis using setpshared_get [OF assms True, of a x] by auto
  next
    case False
    then show ?thesis by (simp add: pthread_mutexattr_setpshared_def)
  qed
  show "pthread_mutexattr_gettype B a x = (OK, ty) \<and> pthread_mutexattr_getpshared B a = (OK, p) \<longrightarrow>
      pthread_mutex_init B v0 (Some a) =
        (OK, MUTEX_TYPE_TO_BITS ty OR (if p = PTHREAD_PROCESS_SHARED B then MUTEX_SHARED_MASK else 0))"
    using init_attr [OF assms] by blast
  show "case pthread_mutexattr_init B a of (e, a') \<Rightarrow> e = OK \<and>
      pthread_mutexattr_gettype B a' x = (OK, PTHREAD_MUTEX_DEFAULT B) \<and>
      pthread_mutexattr_getpshared B a' = (OK, PTHREAD_PROCESS_PRIVATE B)"
    using assms by (simp add: pthread_mutexattr_init_def pthread_mutexattr_gettype_def pthread_mutexattr_getpshared_def
        valid_type MUTEXATTR_TYPE_MASK_def MUTEXATTR_SHARED_MASK_def constants_ok_def)
qed

text \<open>An attribute object that held a shared recursive mutex becomes one of a private error-checking mutex.\<close>

theorem mutexattr_roundtrip_witness:
  "pthread_mutexattr_settype bionic_sample 0x11 2 = (OK, 0x12) \<and> pthread_mutexattr_gettype bionic_sample 0x12 0 = (OK, 2) \<and>
   pthread_mutexattr_setpshared bionic_sample 0x12 0 = (OK, 2) \<and> pthread_mutexattr_getpshared bionic_sample 2 = (OK, 0) \<and>
   pthread_mutex_init bionic_sample 0 (Some 2) = (OK, MUTEX_TYPE_TO_BITS 2)"
proof -
  have s: "pthread_mutexattr_settype bionic_sample 0x11 2 = (OK, 0x12)"
    "pthread_mutexattr_setpshared bionic_sample 0x12 0 = (OK, 2)" "pthread_mutexattr_gettype bionic_sample 2 0 = (OK, 2)"
    by code_simp+
  have k: "PTHREAD_MUTEX_ERRORCHECK bionic_sample = 2" "PTHREAD_PROCESS_PRIVATE bionic_sample = 0"
    "PTHREAD_PROCESS_SHARED bionic_sample = 1" by (simp_all add: bionic_sample_def)
  have a: "pthread_mutexattr_gettype bionic_sample 0x12 0 = (OK, 2)"
    using mutexattr_roundtrip [OF bionic_sample_ok(2), where a = "0x11" and ty = 2 and x = 0] s(1) k(1) by simp
  have b: "pthread_mutexattr_getpshared bionic_sample 2 = (OK, 0)"
    using mutexattr_roundtrip [OF bionic_sample_ok(2), where a = "0x12" and p = 0] s(2) k(2) by simp
  have "pthread_mutex_init bionic_sample 0 (Some 2) = (OK, MUTEX_TYPE_TO_BITS 2)"
    using mutexattr_roundtrip [OF bionic_sample_ok(2), where a = 2 and ty = 2 and x = 0 and p = 0 and ?v0.0 = 0] s(3) b k(3) by simp
  then show ?thesis using s a b by blast
qed

end
