(* ===== verification/Buddy.thy ===== *)
theory Buddy
  imports Prelude
begin

text \<open>
  The buddy allocator of one zone with its per-processor page lists
  (\<^verbatim>\<open>src/ulk_pf/page_alloc.c\<close>, \<^verbatim>\<open>src/ulk_pf/mmzone.h\<close>).

  Pages are named by their page frame numbers.  The fields of \<^verbatim>\<open>struct page\<close> that the allocator uses are
  functions of the page; a page is on at most one list, and \<^verbatim>\<open>list_del\<close> takes it off the list
  it is on.  The configuration has no contiguous memory areas, no isolated page blocks, no
  guard pages and no holes inside a zone, as in the header \<^verbatim>\<open>mmzone.h\<close>; pages are not compound, and
  their reference counts are not part of the state.  \<^verbatim>\<open>zn_free_pages\<close> is the number of free pages that the updates of the
  counter add up to; what \<^verbatim>\<open>zone_page_state\<close> reads of it may lag behind, and is a parameter of the watermark tests.  A
  \<^verbatim>\<open>BUG_ON\<close> or \<^verbatim>\<open>VM_BUG_ON\<close> that fires, and a loop that does not end, is \<^verbatim>\<open>None\<close>.
\<close>

section \<open>Zones and pages\<close>

record bd_config =
  MAX_ORDER :: nat
  pageblock_order :: nat
  page_group_by_mobility_disabled :: bool
  min_free_order_shift :: nat
  ALLOC_HIGH :: nat
  ALLOC_HARDER :: nat

definition MIGRATE_UNMOVABLE :: nat where
  [simp]: "MIGRATE_UNMOVABLE = 0"

definition MIGRATE_RECLAIMABLE :: nat where
  [simp]: "MIGRATE_RECLAIMABLE = 1"

definition MIGRATE_MOVABLE :: nat where
  [simp]: "MIGRATE_MOVABLE = 2"

definition MIGRATE_PCPTYPES :: nat where
  [simp]: "MIGRATE_PCPTYPES = 3"

definition MIGRATE_RESERVE :: nat where
  [simp]: "MIGRATE_RESERVE = MIGRATE_PCPTYPES"

definition MIGRATE_TYPES :: nat where
  [simp]: "MIGRATE_TYPES = 4"

record zone =
  zn_id :: nat
  zn_start :: nat
  zn_spanned :: nat
  zn_list :: "nat \<Rightarrow> nat \<Rightarrow> nat list"
  zn_nr_free :: "nat \<Rightarrow> 64 word"
  zn_free_pages :: int
  zn_block :: "nat \<Rightarrow> nat"
  zn_all_unreclaimable :: bool
  zn_pages_scanned :: nat
  zn_lowmem_reserve :: "nat \<Rightarrow> 64 word"
  zn_watermark_low :: "64 word"
  zn_percpu_drift_mark :: "64 word"
  pg_zone :: "nat \<Rightarrow> nat"
  pg_buddy :: "nat \<Rightarrow> bool"
  pg_private :: "nat \<Rightarrow> nat"
  pg_migratetype :: "nat \<Rightarrow> nat"

definition zone_spans_pfn :: "zone \<Rightarrow> nat \<Rightarrow> bool" where
  "zone_spans_pfn z p \<longleftrightarrow> zn_start z \<le> p \<and> p < zn_start z + zn_spanned z"

definition bad_range :: "zone \<Rightarrow> nat \<Rightarrow> bool" where
  "bad_range z p \<longleftrightarrow> \<not> zone_spans_pfn z p \<or> zn_id z \<noteq> pg_zone z p"

definition set_pageblock_migratetype :: "bd_config \<Rightarrow> nat \<Rightarrow> nat \<Rightarrow> zone \<Rightarrow> zone" where
  "set_pageblock_migratetype c p m z =
     (let m' = (if page_group_by_mobility_disabled c then MIGRATE_UNMOVABLE else m) in
      z\<lparr>zn_block := (zn_block z)(p div 2 ^ pageblock_order c := m')\<rparr>)"

definition get_pageblock_migratetype :: "bd_config \<Rightarrow> nat \<Rightarrow> zone \<Rightarrow> nat" where
  "get_pageblock_migratetype c p z = zn_block z (p div 2 ^ pageblock_order c)"

definition set_freepage_migratetype :: "nat \<Rightarrow> nat \<Rightarrow> zone \<Rightarrow> zone" where
  "set_freepage_migratetype p m z = z\<lparr>pg_migratetype := (pg_migratetype z)(p := m)\<rparr>"

definition set_page_order :: "nat \<Rightarrow> nat \<Rightarrow> zone \<Rightarrow> zone" where
  "set_page_order p k z =
     z\<lparr>pg_private := (pg_private z)(p := k), pg_buddy := (pg_buddy z)(p := True)\<rparr>"

definition rmv_page_order :: "nat \<Rightarrow> zone \<Rightarrow> zone" where
  "rmv_page_order p z =
     z\<lparr>pg_buddy := (pg_buddy z)(p := False), pg_private := (pg_private z)(p := 0)\<rparr>"

text \<open>The list operations on \<^verbatim>\<open>page->lru\<close> and the counter of a free area.\<close>

definition lru_del :: "nat \<Rightarrow> zone \<Rightarrow> zone" where
  "lru_del p z = z\<lparr>zn_list := (\<lambda>k m. remove1 p (zn_list z k m))\<rparr>"

definition lru_add :: "nat \<Rightarrow> nat \<Rightarrow> nat \<Rightarrow> zone \<Rightarrow> zone" where
  "lru_add p k m z = z\<lparr>zn_list := (zn_list z)(k := (zn_list z k)(m := p # zn_list z k m))\<rparr>"

definition lru_add_tail :: "nat \<Rightarrow> nat \<Rightarrow> nat \<Rightarrow> zone \<Rightarrow> zone" where
  "lru_add_tail p k m z = z\<lparr>zn_list := (zn_list z)(k := (zn_list z k)(m := zn_list z k m @ [p]))\<rparr>"

definition nr_free_inc :: "nat \<Rightarrow> zone \<Rightarrow> zone" where
  "nr_free_inc k z = z\<lparr>zn_nr_free := (zn_nr_free z)(k := zn_nr_free z k + 1)\<rparr>"

definition nr_free_dec :: "nat \<Rightarrow> zone \<Rightarrow> zone" where
  "nr_free_dec k z = z\<lparr>zn_nr_free := (zn_nr_free z)(k := zn_nr_free z k - 1)\<rparr>"

definition mod_free_pages :: "int \<Rightarrow> zone \<Rightarrow> zone" where
  "mod_free_pages n z = z\<lparr>zn_free_pages := zn_free_pages z + n\<rparr>"

section \<open>Freeing\<close>

definition find_buddy_index :: "nat \<Rightarrow> nat \<Rightarrow> nat" where
  "find_buddy_index page_idx order = page_idx XOR 2 ^ order"

definition page_is_buddy :: "zone \<Rightarrow> nat \<Rightarrow> nat \<Rightarrow> nat \<Rightarrow> bool" where
  "page_is_buddy z page buddy order \<longleftrightarrow>
     pg_zone z page = pg_zone z buddy \<and> pg_buddy z buddy \<and> pg_private z buddy = order"

text \<open>The loop of \<^verbatim>\<open>__free_one_page\<close>: page, index, order and last buddy index when it ends.\<close>

function merge_loop ::
  "bd_config \<Rightarrow> nat \<Rightarrow> nat \<Rightarrow> nat \<Rightarrow> nat \<Rightarrow> zone \<Rightarrow> nat \<times> nat \<times> nat \<times> nat \<times> zone" where
  "merge_loop c page page_idx order buddy_idx z =
     (if order < MAX_ORDER c - 1 then
        let buddy_idx = find_buddy_index page_idx order;
            buddy = page + buddy_idx - page_idx in
        if \<not> page_is_buddy z page buddy order then (page, page_idx, order, buddy_idx, z)
        else
          let z' = rmv_page_order buddy (nr_free_dec order (lru_del buddy z));
              combined_idx = buddy_idx AND page_idx in
          merge_loop c (page + combined_idx - page_idx) combined_idx (order + 1) buddy_idx z'
      else (page, page_idx, order, buddy_idx, z))"
  by pat_completeness auto
termination by (relation "measure (\<lambda>(c, page, idx, order, b, z). MAX_ORDER c - order)") auto

declare merge_loop.simps [simp del]

definition do_free_one_page :: "bd_config \<Rightarrow> nat \<Rightarrow> nat \<Rightarrow> nat \<Rightarrow> zone \<Rightarrow> zone option" where
  "do_free_one_page c page0 order0 migratetype z0 =
     (let page_idx0 = page0 AND (2 ^ MAX_ORDER c - 1) in
      if page_idx0 AND (2 ^ order0 - 1) \<noteq> 0 then None
      else if bad_range z0 page0 then None
      else
        let (page, page_idx, order, buddy_idx, z1) = merge_loop c page0 page_idx0 order0 0 z0;
            z2 = set_page_order page order z1;
            tail = (order < MAX_ORDER c - 2 \<and>
                    (let combined_idx = buddy_idx AND page_idx;
                         higher_page = page + combined_idx - page_idx;
                         buddy_idx' = find_buddy_index combined_idx (order + 1);
                         higher_buddy = higher_page + buddy_idx' - combined_idx in
                     page_is_buddy z2 higher_page higher_buddy (order + 1)));
            z3 = (if tail then lru_add_tail page order migratetype z2
                  else lru_add page order migratetype z2) in
        Some (nr_free_inc order z3))"

definition free_one_page :: "bd_config \<Rightarrow> nat \<Rightarrow> nat \<Rightarrow> nat \<Rightarrow> zone \<Rightarrow> zone option" where
  "free_one_page c page order migratetype z =
     do { z1 \<leftarrow> do_free_one_page c page order migratetype
                  (z\<lparr>zn_all_unreclaimable := False, zn_pages_scanned := 0\<rparr>);
          Some (mod_free_pages (2 ^ order) z1) }"

text \<open>\<^verbatim>\<open>prepare page order\<close> stands for the checks of \<^verbatim>\<open>free_pages_prepare\<close> on the page structures.\<close>

definition free_pages_ok ::
  "bd_config \<Rightarrow> (nat \<Rightarrow> nat \<Rightarrow> bool) \<Rightarrow> nat \<Rightarrow> nat \<Rightarrow> zone \<Rightarrow> zone option" where
  "free_pages_ok c prepare page order z =
     (if \<not> prepare page order then Some z
      else let migratetype = get_pageblock_migratetype c page z in
        free_one_page c page order migratetype (set_freepage_migratetype page migratetype z))"

section \<open>Allocating\<close>

function expand :: "nat \<Rightarrow> nat \<Rightarrow> nat \<Rightarrow> nat \<Rightarrow> zone \<Rightarrow> zone option" where
  "expand page low high migratetype z =
     (if high > low then
        let high' = high - 1; half = page + 2 ^ high' in
        if bad_range z half then None
        else expand page low high' migratetype
               (set_page_order half high' (nr_free_inc high' (lru_add half high' migratetype z)))
      else Some z)"
  by pat_completeness auto
termination by (relation "measure (\<lambda>(page, low, high, m, z). high)") auto

declare expand.simps [simp del]

text \<open>A null page is \<^verbatim>\<open>None\<close>.\<close>

function rmqueue_smallest_loop ::
  "bd_config \<Rightarrow> nat \<Rightarrow> nat \<Rightarrow> nat \<Rightarrow> zone \<Rightarrow> (nat option \<times> zone) option" where
  "rmqueue_smallest_loop c order current_order migratetype z =
     (if current_order < MAX_ORDER c then
        (case zn_list z current_order migratetype of
           [] \<Rightarrow> rmqueue_smallest_loop c order (current_order + 1) migratetype z
         | page # _ \<Rightarrow>
             do { z' \<leftarrow> expand page order current_order migratetype
                         (nr_free_dec current_order (rmv_page_order page (lru_del page z)));
                  Some (Some page, z') })
      else Some (None, z))"
  by pat_completeness auto
termination by (relation "measure (\<lambda>(c, order, cur, m, z). MAX_ORDER c - cur)") auto

declare rmqueue_smallest_loop.simps [simp del]

definition rmqueue_smallest :: "bd_config \<Rightarrow> nat \<Rightarrow> nat \<Rightarrow> zone \<Rightarrow> (nat option \<times> zone) option" where
  "rmqueue_smallest c order migratetype z = rmqueue_smallest_loop c order order migratetype z"

definition fallbacks :: "nat \<Rightarrow> nat list" where
  "fallbacks m =
     (if m = MIGRATE_UNMOVABLE then [MIGRATE_RECLAIMABLE, MIGRATE_MOVABLE, MIGRATE_RESERVE, 0]
      else if m = MIGRATE_RECLAIMABLE then [MIGRATE_UNMOVABLE, MIGRATE_MOVABLE, MIGRATE_RESERVE, 0]
      else if m = MIGRATE_MOVABLE then [MIGRATE_RECLAIMABLE, MIGRATE_UNMOVABLE, MIGRATE_RESERVE, 0]
      else [MIGRATE_RESERVE, 0, 0, 0])"

function move_freepages_loop :: "nat \<Rightarrow> nat \<Rightarrow> nat \<Rightarrow> nat \<Rightarrow> zone \<Rightarrow> nat \<times> zone" where
  "move_freepages_loop page end_page migratetype pages_moved z =
     (if page \<le> end_page then
        if \<not> pg_buddy z page then move_freepages_loop (page + 1) end_page migratetype pages_moved z
        else let order = pg_private z page in
          move_freepages_loop (page + 2 ^ order) end_page migratetype (pages_moved + 2 ^ order)
            (set_freepage_migratetype page migratetype
              (lru_add page order migratetype (lru_del page z)))
      else (pages_moved, z))"
  by pat_completeness auto
termination by (relation "measure (\<lambda>(page, e, m, n, z). e + 1 - page)") (auto intro!: diff_less_mono2)

declare move_freepages_loop.simps [simp del]

definition move_freepages :: "nat \<Rightarrow> nat \<Rightarrow> nat \<Rightarrow> zone \<Rightarrow> (nat \<times> zone) option" where
  "move_freepages start_page end_page migratetype z =
     (if pg_zone z start_page \<noteq> pg_zone z end_page then None
      else Some (move_freepages_loop start_page end_page migratetype 0 z))"

definition move_freepages_block :: "bd_config \<Rightarrow> nat \<Rightarrow> nat \<Rightarrow> zone \<Rightarrow> (nat \<times> zone) option" where
  "move_freepages_block c page migratetype z =
     (let pageblock_nr_pages = 2 ^ pageblock_order c;
          start_pfn = page - page mod pageblock_nr_pages;
          end_pfn = start_pfn + pageblock_nr_pages - 1;
          start_page = (if zone_spans_pfn z start_pfn then start_pfn else page) in
      if \<not> zone_spans_pfn z end_pfn then Some (0, z)
      else move_freepages start_page end_pfn migratetype z)"

fun change_pageblock_loop :: "bd_config \<Rightarrow> nat \<Rightarrow> nat \<Rightarrow> nat \<Rightarrow> zone \<Rightarrow> zone" where
  "change_pageblock_loop c page 0 migratetype z = z"
| "change_pageblock_loop c page (Suc n) migratetype z =
     change_pageblock_loop c (page + 2 ^ pageblock_order c) n migratetype
       (set_pageblock_migratetype c page migratetype z)"

definition change_pageblock_range :: "bd_config \<Rightarrow> nat \<Rightarrow> nat \<Rightarrow> nat \<Rightarrow> zone \<Rightarrow> zone" where
  "change_pageblock_range c page start_order migratetype z =
     change_pageblock_loop c page (2 ^ (start_order - pageblock_order c)) migratetype z"

text \<open>What \<^verbatim>\<open>__rmqueue_fallback\<close> does with the first block it finds.\<close>

definition fallback_take ::
  "bd_config \<Rightarrow> nat \<Rightarrow> nat \<Rightarrow> nat \<Rightarrow> nat \<Rightarrow> zone \<Rightarrow> (nat option \<times> zone) option" where
  "fallback_take c order start_migratetype current_order page z =
     (let z1 = nr_free_dec current_order z in
      do { z2 \<leftarrow> (if current_order \<ge> pageblock_order c div 2 \<or> start_migratetype = MIGRATE_RECLAIMABLE \<or>
                    page_group_by_mobility_disabled c
                 then do { (pages, z') \<leftarrow> move_freepages_block c page start_migratetype z1;
                           Some (if pages \<ge> 2 ^ (pageblock_order c - 1) \<or> page_group_by_mobility_disabled c
                                 then set_pageblock_migratetype c page start_migratetype z' else z') }
                 else Some z1);
           let z3 = rmv_page_order page (lru_del page z2);
           let z4 = (if current_order \<ge> pageblock_order c
                     then change_pageblock_range c page current_order start_migratetype z3 else z3);
           z5 \<leftarrow> expand page order current_order start_migratetype z4;
           Some (Some page, z5) })"

fun fallback_types ::
  "bd_config \<Rightarrow> nat \<Rightarrow> nat \<Rightarrow> nat \<Rightarrow> nat list \<Rightarrow> zone \<Rightarrow> (nat option \<times> zone) option" where
  "fallback_types c order start_migratetype current_order [] z = None"
| "fallback_types c order start_migratetype current_order (migratetype # ms) z =
     (if migratetype = MIGRATE_RESERVE then Some (None, z)
      else case zn_list z current_order migratetype of
             [] \<Rightarrow> fallback_types c order start_migratetype current_order ms z
           | page # _ \<Rightarrow> fallback_take c order start_migratetype current_order page z)"

fun fallback_orders ::
  "bd_config \<Rightarrow> nat \<Rightarrow> nat \<Rightarrow> nat list \<Rightarrow> zone \<Rightarrow> (nat option \<times> zone) option" where
  "fallback_orders c order start_migratetype [] z = Some (None, z)"
| "fallback_orders c order start_migratetype (current_order # os) z =
     do { (page, z') \<leftarrow> fallback_types c order start_migratetype current_order
                          (fallbacks start_migratetype) z;
          case page of None \<Rightarrow> fallback_orders c order start_migratetype os z'
                     | Some p \<Rightarrow> Some (page, z') }"

definition rmqueue_fallback :: "bd_config \<Rightarrow> nat \<Rightarrow> nat \<Rightarrow> zone \<Rightarrow> (nat option \<times> zone) option" where
  "rmqueue_fallback c order start_migratetype z =
     fallback_orders c order start_migratetype (rev [order..<MAX_ORDER c]) z"

definition do_rmqueue :: "bd_config \<Rightarrow> nat \<Rightarrow> nat \<Rightarrow> zone \<Rightarrow> (nat option \<times> zone) option" where
  "do_rmqueue c order migratetype z =
     do { (page, z1) \<leftarrow> rmqueue_smallest c order migratetype z;
          if page = None \<and> migratetype \<noteq> MIGRATE_RESERVE then
            do { (page', z2) \<leftarrow> rmqueue_fallback c order migratetype z1;
                 if page' = None then rmqueue_smallest c order MIGRATE_RESERVE z2
                 else Some (page', z2) }
          else Some (page, z1) }"

section \<open>Watermarks\<close>

text \<open>
  Values of type \<^verbatim>\<open>long\<close> and \<^verbatim>\<open>unsigned long\<close> are 64-bit words, compared as signed numbers where the operands are \<^verbatim>\<open>long\<close>;
  C divides towards zero, and shifts a \<^verbatim>\<open>long\<close> arithmetically.  First the loop over the orders below the requested one.
\<close>

definition long_div :: "64 word \<Rightarrow> int \<Rightarrow> 64 word" where
  "long_div a k = word_of_int (sgn (sint a) * (\<bar>sint a\<bar> div k))"

fun watermark_loop :: "bd_config \<Rightarrow> (nat \<Rightarrow> 64 word) \<Rightarrow> nat list \<Rightarrow> 64 word \<Rightarrow> 64 word \<Rightarrow> bool" where
  "watermark_loop c nr_free [] free_pages mn = True"
| "watermark_loop c nr_free (k # ks) free_pages mn =
     (let free_pages' = free_pages - push_bit k (nr_free k);
          mn' = signed_drop_bit (min_free_order_shift c) mn in
      if sint free_pages' \<le> sint mn' then False else watermark_loop c nr_free ks free_pages' mn')"

definition do_zone_watermark_ok :: "bd_config \<Rightarrow> zone \<Rightarrow> nat \<Rightarrow> 64 word \<Rightarrow> nat \<Rightarrow> nat \<Rightarrow> 64 word \<Rightarrow> bool" where
  "do_zone_watermark_ok c z order mark classzone_idx alloc_flags free_pages =
     (let mn = mark;
          lowmem_reserve = zn_lowmem_reserve z classzone_idx;
          free_pages = free_pages - (push_bit order 1 - 1);
          mn = (if alloc_flags AND ALLOC_HIGH c \<noteq> 0 then mn - long_div mn 2 else mn);
          mn = (if alloc_flags AND ALLOC_HARDER c \<noteq> 0 then mn - long_div mn 4 else mn) in
      if sint free_pages \<le> sint (mn + lowmem_reserve) then False
      else watermark_loop c (zn_nr_free z) [0..<order] free_pages mn)"

text \<open>
  \<^verbatim>\<open>zone_page_state\<close> and \<^verbatim>\<open>zone_page_state_snapshot\<close>, of the file \<^verbatim>\<open>vmstat.h\<close>, are parameters.  The comparison with
  the drift mark is one of unsigned numbers.
\<close>

definition zone_watermark_ok ::
  "(zone \<Rightarrow> 64 word) \<Rightarrow> bd_config \<Rightarrow> zone \<Rightarrow> nat \<Rightarrow> 64 word \<Rightarrow> nat \<Rightarrow> nat \<Rightarrow> bool" where
  "zone_watermark_ok zone_page_state c z order mark classzone_idx alloc_flags =
     do_zone_watermark_ok c z order mark classzone_idx alloc_flags (zone_page_state z)"

definition zone_watermark_ok_safe ::
  "(zone \<Rightarrow> 64 word) \<Rightarrow> (zone \<Rightarrow> 64 word) \<Rightarrow> bd_config \<Rightarrow> zone \<Rightarrow> nat \<Rightarrow> 64 word \<Rightarrow> nat \<Rightarrow> nat \<Rightarrow> bool" where
  "zone_watermark_ok_safe zone_page_state zone_page_state_snapshot c z order mark classzone_idx alloc_flags =
     (let free_pages = zone_page_state z;
          free_pages = (if zn_percpu_drift_mark z \<noteq> 0 \<and> free_pages < zn_percpu_drift_mark z
                        then zone_page_state_snapshot z else free_pages) in
      do_zone_watermark_ok c z order mark classzone_idx alloc_flags free_pages)"

text \<open>Taking a given free block, with the watermark test for a single page.\<close>

function isolate_loop :: "bd_config \<Rightarrow> nat \<Rightarrow> nat \<Rightarrow> zone \<Rightarrow> zone" where
  "isolate_loop c page endpage z =
     (if page < endpage
      then isolate_loop c (page + 2 ^ pageblock_order c) endpage
             (set_pageblock_migratetype c page MIGRATE_MOVABLE z)
      else z)"
  by pat_completeness auto
termination by (relation "measure (\<lambda>(c, page, e, z). e - page)") (auto intro!: diff_less_mono2)

declare isolate_loop.simps [simp del]

definition isolate_free_page ::
  "(zone \<Rightarrow> 64 word) \<Rightarrow> bd_config \<Rightarrow> nat \<Rightarrow> nat \<Rightarrow> zone \<Rightarrow> (nat \<times> zone) option" where
  "isolate_free_page zone_page_state c page order z =
     (if \<not> pg_buddy z page then None
      else
        let watermark = zn_watermark_low z + push_bit order 1 in
        if \<not> zone_watermark_ok zone_page_state c z 0 watermark 0 0 then Some (0, z)
        else
          let z1 = mod_free_pages (- (2 ^ order)) z;
              z2 = rmv_page_order page (nr_free_dec order (lru_del page z1));
              z3 = (if order \<ge> pageblock_order c - 1
                    then isolate_loop c page (page + 2 ^ order - 1) z2 else z2) in
          Some (2 ^ order, z3))"

definition split_free_page :: "(zone \<Rightarrow> 64 word) \<Rightarrow> bd_config \<Rightarrow> nat \<Rightarrow> zone \<Rightarrow> (nat \<times> zone) option" where
  "split_free_page zone_page_state c page z = isolate_free_page zone_page_state c page (pg_private z page) z"

section \<open>Per-processor lists\<close>

record per_cpu_pages =
  pcp_count :: int
  pcp_high :: int
  pcp_batch :: nat
  pcp_lists :: "nat \<Rightarrow> nat list"

definition setup_pageset :: "nat \<Rightarrow> per_cpu_pages" where
  "setup_pageset batch =
     \<lparr>pcp_count = 0, pcp_high = 6 * int batch, pcp_batch = max 1 (1 * batch), pcp_lists = (\<lambda>_. [])\<rparr>"

definition setup_pagelist_highmark :: "nat \<Rightarrow> nat \<Rightarrow> per_cpu_pages \<Rightarrow> per_cpu_pages" where
  "setup_pagelist_highmark PAGE_SHIFT high pcp =
     (let pcp1 = pcp\<lparr>pcp_high := int high, pcp_batch := max 1 (high div 4)\<rparr> in
      if high div 4 > PAGE_SHIFT * 8 then pcp1\<lparr>pcp_batch := PAGE_SHIFT * 8\<rparr> else pcp1)"

text \<open>
  The pages taken by \<^verbatim>\<open>rmqueue_bulk\<close>, in the order in which it takes them.  Each is put behind the one before
  it, or, when they are cold, before it at the end of the list.
\<close>

fun rmqueue_bulk_loop :: "bd_config \<Rightarrow> nat \<Rightarrow> nat \<Rightarrow> nat \<Rightarrow> zone \<Rightarrow> (nat list \<times> zone) option" where
  "rmqueue_bulk_loop c order 0 migratetype z = Some ([], z)"
| "rmqueue_bulk_loop c order (Suc n) migratetype z =
     do { (page, z1) \<leftarrow> do_rmqueue c order migratetype z;
          case page of
            None \<Rightarrow> Some ([], z1)
          | Some p \<Rightarrow>
              do { (ps, z2) \<leftarrow> rmqueue_bulk_loop c order n migratetype (set_freepage_migratetype p migratetype z1);
                   Some (p # ps, z2) } }"

definition rmqueue_bulk ::
  "bd_config \<Rightarrow> nat \<Rightarrow> nat \<Rightarrow> nat list \<Rightarrow> nat \<Rightarrow> bool \<Rightarrow> zone \<Rightarrow> (nat \<times> nat list \<times> zone) option" where
  "rmqueue_bulk c order n pages migratetype cold z =
     do { (ps, z1) \<leftarrow> rmqueue_bulk_loop c order n migratetype z;
          Some (length ps, if cold then pages @ rev ps else ps @ pages,
                mod_free_pages (- (int (length ps) * 2 ^ order)) z1) }"

text \<open>The search of \<^verbatim>\<open>free_pcppages_bulk\<close> for a list that is not empty.\<close>

partial_function (option) next_pcp_list :: "(nat \<Rightarrow> nat list) \<Rightarrow> nat \<Rightarrow> nat \<Rightarrow> (nat \<times> nat) option" where
  "next_pcp_list pls migratetype batch_free =
     (let batch_free = batch_free + 1;
          migratetype = (if migratetype + 1 = MIGRATE_PCPTYPES then 0 else migratetype + 1) in
      if pls migratetype = [] then next_pcp_list pls migratetype batch_free
      else Some (migratetype, batch_free))"

text \<open>The inner loop: pages go from the end of one list back to the zone.\<close>

function free_pcp_list ::
  "bd_config \<Rightarrow> nat \<Rightarrow> nat \<Rightarrow> nat list \<Rightarrow> zone \<Rightarrow> (nat \<times> nat \<times> nat list \<times> zone) option" where
  "free_pcp_list c to_free batch_free pages z =
     (if pages = [] then None
      else
        let page = last pages; pages' = butlast pages in
        do { z1 \<leftarrow> do_free_one_page c page 0 (pg_migratetype z page) z;
             let z2 = mod_free_pages 1 z1;
             let to_free' = to_free - 1;
             if to_free' = 0 then Some (to_free', batch_free, pages', z2)
             else let batch_free' = batch_free - 1 in
               if batch_free' = 0 \<or> pages' = [] then Some (to_free', batch_free', pages', z2)
               else free_pcp_list c to_free' batch_free' pages' z2 })"
  by pat_completeness auto
termination by (relation "measure (\<lambda>(c, n, b, pages, z). length pages)") auto

declare free_pcp_list.simps [simp del]

partial_function (option) free_pcp_loop ::
  "bd_config \<Rightarrow> nat \<Rightarrow> nat \<Rightarrow> nat \<Rightarrow> (nat \<Rightarrow> nat list) \<Rightarrow> zone \<Rightarrow> ((nat \<Rightarrow> nat list) \<times> zone) option" where
  "free_pcp_loop c to_free migratetype batch_free pls z =
     (if to_free = 0 then Some (pls, z)
      else do {
        (mt, bf) \<leftarrow> next_pcp_list pls migratetype batch_free;
        (n, bf', pages, z') \<leftarrow>
          free_pcp_list c to_free (if bf = MIGRATE_PCPTYPES then to_free else bf) (pls mt) z;
        free_pcp_loop c n mt bf' (pls(mt := pages)) z' })"

definition free_pcppages_bulk ::
  "bd_config \<Rightarrow> nat \<Rightarrow> per_cpu_pages \<Rightarrow> zone \<Rightarrow> (per_cpu_pages \<times> zone) option" where
  "free_pcppages_bulk c n pcp z =
     do { (pls, z') \<leftarrow> free_pcp_loop c n 0 0 (pcp_lists pcp)
                           (z\<lparr>zn_all_unreclaimable := False, zn_pages_scanned := 0\<rparr>);
          Some (pcp\<lparr>pcp_lists := pls\<rparr>, z') }"

definition drain_zone_pages ::
  "bd_config \<Rightarrow> per_cpu_pages \<Rightarrow> zone \<Rightarrow> (per_cpu_pages \<times> zone) option" where
  "drain_zone_pages c pcp z =
     (let to_drain = (if pcp_count pcp \<ge> int (pcp_batch pcp) then int (pcp_batch pcp) else pcp_count pcp) in
      if to_drain > 0 then
        do { (pcp', z') \<leftarrow> free_pcppages_bulk c (nat to_drain) pcp z;
             Some (pcp'\<lparr>pcp_count := pcp_count pcp' - to_drain\<rparr>, z') }
      else Some (pcp, z))"

text \<open>The loop body of \<^verbatim>\<open>drain_pages\<close> for one zone.\<close>

definition drain_pages :: "bd_config \<Rightarrow> per_cpu_pages \<Rightarrow> zone \<Rightarrow> (per_cpu_pages \<times> zone) option" where
  "drain_pages c pcp z =
     (if pcp_count pcp \<noteq> 0 then
        do { (pcp', z') \<leftarrow> free_pcppages_bulk c (nat (pcp_count pcp)) pcp z;
             Some (pcp'\<lparr>pcp_count := 0\<rparr>, z') }
      else Some (pcp, z))"

definition free_hot_cold_page ::
  "bd_config \<Rightarrow> (nat \<Rightarrow> nat \<Rightarrow> bool) \<Rightarrow> nat \<Rightarrow> bool \<Rightarrow> per_cpu_pages \<Rightarrow> zone \<Rightarrow>
     (per_cpu_pages \<times> zone) option" where
  "free_hot_cold_page c prepare page cold pcp z =
     (if \<not> prepare page 0 then Some (pcp, z)
      else
        let mt = get_pageblock_migratetype c page z;
            z1 = set_freepage_migratetype page mt z;
            mt' = (if mt \<ge> MIGRATE_PCPTYPES then MIGRATE_MOVABLE else mt);
            pages = pcp_lists pcp mt';
            pcp1 = pcp\<lparr>pcp_lists := (pcp_lists pcp)(mt' := if cold then pages @ [page] else page # pages),
                       pcp_count := pcp_count pcp + 1\<rparr> in
        if pcp_count pcp1 \<ge> pcp_high pcp1 then
          do { (pcp2, z2) \<leftarrow> free_pcppages_bulk c (pcp_batch pcp1) pcp1 z1;
               Some (pcp2\<lparr>pcp_count := pcp_count pcp2 - int (pcp_batch pcp2)\<rparr>, z2) }
        else Some (pcp1, z1))"

fun free_hot_cold_page_list ::
  "bd_config \<Rightarrow> (nat \<Rightarrow> nat \<Rightarrow> bool) \<Rightarrow> nat list \<Rightarrow> bool \<Rightarrow> per_cpu_pages \<Rightarrow> zone \<Rightarrow>
     (per_cpu_pages \<times> zone) option" where
  "free_hot_cold_page_list c prepare [] cold pcp z = Some (pcp, z)"
| "free_hot_cold_page_list c prepare (page # pages) cold pcp z =
     do { (pcp', z') \<leftarrow> free_hot_cold_page c prepare page cold pcp z;
          free_hot_cold_page_list c prepare pages cold pcp' z' }"

text \<open>\<^verbatim>\<open>testzero page\<close> is the result of \<^verbatim>\<open>put_page_testzero\<close>: the caller held the last reference.\<close>

definition do_free_pages ::
  "bd_config \<Rightarrow> (nat \<Rightarrow> bool) \<Rightarrow> (nat \<Rightarrow> nat \<Rightarrow> bool) \<Rightarrow> nat \<Rightarrow> nat \<Rightarrow> per_cpu_pages \<Rightarrow> zone \<Rightarrow>
     (per_cpu_pages \<times> zone) option" where
  "do_free_pages c testzero prepare page order pcp z =
     (if testzero page then
        if order = 0 then free_hot_cold_page c prepare page False pcp z
        else do { z' \<leftarrow> free_pages_ok c prepare page order z; Some (pcp, z') }
      else Some (pcp, z))"

text \<open>
  \<^verbatim>\<open>prep page order\<close> tells whether \<^verbatim>\<open>prep_new_page\<close> refuses a page, which is then dropped and another
  one taken.
\<close>

partial_function (option) buffered_rmqueue ::
  "bd_config \<Rightarrow> (nat \<Rightarrow> nat \<Rightarrow> bool) \<Rightarrow> nat \<Rightarrow> bool \<Rightarrow> nat \<Rightarrow> per_cpu_pages \<Rightarrow> zone \<Rightarrow>
     (nat option \<times> per_cpu_pages \<times> zone) option" where
  "buffered_rmqueue c prep order cold migratetype pcp z =
     do { (page, pcp', z') \<leftarrow>
            (if order = 0 then
               do { (pages, cnt, z1) \<leftarrow>
                      (if pcp_lists pcp migratetype = [] then
                         do { (n, pages, z1) \<leftarrow> rmqueue_bulk c 0 (pcp_batch pcp) [] migratetype cold z;
                              Some (pages, pcp_count pcp + int n, z1) }
                       else Some (pcp_lists pcp migratetype, pcp_count pcp, z));
                    if pages = [] then
                      Some (None, pcp\<lparr>pcp_lists := (pcp_lists pcp)(migratetype := pages), pcp_count := cnt\<rparr>, z1)
                    else
                      Some (Some (if cold then last pages else hd pages),
                            pcp\<lparr>pcp_lists := (pcp_lists pcp)(migratetype := if cold then butlast pages else tl pages),
                                pcp_count := cnt - 1\<rparr>, z1) }
             else
               do { (page, z1) \<leftarrow> do_rmqueue c order migratetype z;
                    Some (page, pcp, if page = None then z1 else mod_free_pages (- (2 ^ order)) z1) });
          case page of
            None \<Rightarrow> Some (None, pcp', z')
          | Some p \<Rightarrow>
              if bad_range z' p then None
              else if prep p order then buffered_rmqueue c prep order cold migratetype pcp' z'
              else Some (Some p, pcp', z') }"

end
