(* ===== verification/Buddy_Sets.thy ===== *)
theory Buddy_Sets
  imports Prelude
begin

text \<open>
  Buddy systems as sets of blocks: alignment, buddies, splitting and merging, and the facts that
  do not depend on how the allocator stores its blocks.  A block of order \<^verbatim>\<open>k\<close> at \<^verbatim>\<open>p\<close> is the pair \<^verbatim>\<open>(p, k)\<close>.
\<close>

section \<open>Aligned blocks\<close>

definition blk :: "nat \<Rightarrow> nat \<Rightarrow> nat set" where
  "blk p k = {p..<p + 2 ^ k}"

lemma blk_mem: "x \<in> blk p k \<longleftrightarrow> p \<le> x \<and> x < p + 2 ^ k"
  by (simp add: blk_def)

lemma blk_first [simp]: "p \<in> blk p k"
  by (simp add: blk_def)

lemma blk_finite [simp]: "finite (blk p k)" "card (blk p k) = 2 ^ k" "blk p k \<noteq> {}"
  by (auto simp: blk_def)

lemma blk_nested:
  assumes "2 ^ k dvd p" "2 ^ j dvd q" "k \<le> j" "x \<in> blk p k" "x \<in> blk q j"
  shows "blk p k \<subseteq> blk q j"
proof -
  have d: "(2::nat) ^ k dvd 2 ^ j" using assms(3) by (rule le_imp_power_dvd)
  obtain a b c where abc: "p = 2 ^ k * a" "q = 2 ^ k * b" "(2::nat) ^ j = 2 ^ k * c"
    using assms(1,2) d by (meson dvd_def dvd_trans)
  have x: "2 ^ k * a \<le> x" "x < 2 ^ k * (a + 1)" "2 ^ k * b \<le> x" "x < 2 ^ k * (b + c)"
    using assms(4,5) abc by (auto simp: blk_def algebra_simps)
  have "2 ^ k * b < 2 ^ k * (a + 1)" "2 ^ k * a < 2 ^ k * (b + c)"
    using x by linarith+
  then have "b < a + 1" "a < b + c" using mult_less_cancel1 by blast+
  then have "b \<le> a" "a + 1 \<le> b + c" by simp_all
  then have "2 ^ k * b \<le> 2 ^ k * a" "2 ^ k * (a + 1) \<le> 2 ^ k * (b + c)"
    by (blast intro: mult_le_mono2)+
  then show ?thesis using abc by (auto simp: blk_def algebra_simps)
qed

section \<open>Buddies\<close>

definition bud :: "nat \<Rightarrow> nat \<Rightarrow> nat" where
  "bud p k = (if 2 ^ Suc k dvd p then p + 2 ^ k else p - 2 ^ k)"

definition par :: "nat \<Rightarrow> nat \<Rightarrow> nat" where
  "par p k = (if 2 ^ Suc k dvd p then p else p - 2 ^ k)"

lemma aligned_cases:
  assumes "2 ^ k dvd (p::nat)"
  obtains b where "p = 2 ^ Suc k * b" "2 ^ Suc k dvd p"
    | b where "p = 2 ^ Suc k * b + 2 ^ k" "\<not> 2 ^ Suc k dvd p"
proof -
  obtain a where a: "p = 2 ^ k * a" using assms by blast
  show thesis
  proof (cases "even a")
    case True
    then obtain b where "a = 2 * b" by blast
    then show ?thesis using a that(1) [of b] by simp
  next
    case False
    then obtain b where "a = 2 * b + 1" using oddE by blast
    moreover have "\<not> 2 ^ Suc k dvd p" using False a by simp
    ultimately show ?thesis using a that(2) [of b] by (simp add: algebra_simps)
  qed
qed

lemma xor_and_one:
  "(a::nat) XOR 1 = (if even a then a + 1 else a - 1)"
  "(a XOR 1) AND a = (if even a then a else a - 1)"
proof -
  show x: "a XOR 1 = (if even a then a + 1 else a - 1)"
    by (simp add: xor_Suc_0_eq)
  show "(a XOR 1) AND a = (if even a then a else a - 1)"
  proof (cases "even a")
    case True
    then obtain b where "a = 2 * b" by blast
    then show ?thesis by (simp add: x) (rule bit_eqI, auto simp: bit_simps)
  next
    case False
    then obtain b where a: "a = 2 * b + 1" by (rule oddE)
    have "bit (2 * b AND (2 * b + 1)) n = bit (2 * b) n" for n
      by (cases n) (simp_all add: bit_and_iff bit_0 even_and_iff bit_Suc [of "Suc (2 * b)"] bit_Suc [of "2 * b"])
    then show ?thesis unfolding x using a by (auto intro: bit_eqI)
  qed
qed

lemma xor_bud:
  assumes "2 ^ k dvd p"
  shows "p XOR 2 ^ k = bud p k" "(p XOR 2 ^ k) AND p = par p k"
proof -
  obtain a where a: "p = 2 ^ k * a" using assms by blast
  have p: "p = push_bit k a" "2 ^ k = push_bit k (1::nat)" using a by (simp_all add: push_bit_eq_mult)
  have ev: "2 ^ Suc k dvd p \<longleftrightarrow> even a" using a by simp
  have odd: "push_bit k (a - 1) = push_bit k a - 2 ^ k" by (simp add: push_bit_eq_mult diff_mult_distrib)
  have one: "push_bit k (a + 1) = push_bit k a + 2 ^ k" by (simp add: push_bit_eq_mult)
  show "p XOR 2 ^ k = bud p k"
    unfolding p(1) p(2) push_bit_xor [symmetric] xor_and_one(1)
    by (simp only: bud_def ev [unfolded p(1)] odd one split: if_splits) simp
  show "(p XOR 2 ^ k) AND p = par p k"
    unfolding p(1) p(2) push_bit_xor [symmetric] push_bit_and [symmetric] xor_and_one(2)
    by (simp only: par_def ev [unfolded p(1)] odd one split: if_splits) simp
qed

lemma buddies:
  assumes "2 ^ k dvd p"
  shows "2 ^ k dvd bud p k" "bud p k \<noteq> p" "bud (bud p k) k = p" "2 ^ Suc k dvd par p k"
    "blk p k \<inter> blk (bud p k) k = {}" "blk (par p k) (Suc k) = blk p k \<union> blk (bud p k) k"
    "par p k \<le> p" "par (bud p k) k = par p k"
  using assms by (cases rule: aligned_cases [OF assms]; auto simp: bud_def par_def blk_def algebra_simps)+

section \<open>Systems of free blocks\<close>

text \<open>
  \<^verbatim>\<open>buddies_ok n S F\<close>: the free blocks \<^verbatim>\<open>F\<close> have orders below \<^verbatim>\<open>n\<close>, are aligned, lie in \<^verbatim>\<open>S\<close>,
  are apart, and no two of them are buddies that should have been merged.
\<close>

definition buddies_ok :: "nat \<Rightarrow> nat set \<Rightarrow> (nat \<times> nat) set \<Rightarrow> bool" where
  "buddies_ok n S F \<longleftrightarrow>
     (\<forall>p k. (p, k) \<in> F \<longrightarrow> k < n \<and> 2 ^ k dvd p \<and> blk p k \<subseteq> S) \<and>
     (\<forall>p k q j. (p, k) \<in> F \<longrightarrow> (q, j) \<in> F \<longrightarrow> (p, k) \<noteq> (q, j) \<longrightarrow> blk p k \<inter> blk q j = {}) \<and>
     (\<forall>p k. (p, k) \<in> F \<longrightarrow> Suc k < n \<longrightarrow> (bud p k, k) \<notin> F)"

definition cover :: "(nat \<times> nat) set \<Rightarrow> nat set" where
  "cover F = (\<Union>(p, k)\<in>F. blk p k)"

lemma cover_simps [simp]:
  "cover {} = {}" "cover (insert (p, k) F) = blk p k \<union> cover F" "cover (F \<union> G) = cover F \<union> cover G"
  by (auto simp: cover_def)

lemma cover_mem: "x \<in> cover F \<longleftrightarrow> (\<exists>p k. (p, k) \<in> F \<and> x \<in> blk p k)"
  by (fastforce simp: cover_def)

lemma blk_cover: "(p, k) \<in> F \<Longrightarrow> blk p k \<subseteq> cover F"
  by (auto simp: cover_def)

lemma buddies_okD:
  assumes "buddies_ok n S F" "(p, k) \<in> F"
  shows "k < n" "2 ^ k dvd p" "blk p k \<subseteq> S" "Suc k < n \<Longrightarrow> (bud p k, k) \<notin> F"
    "(q, j) \<in> F \<Longrightarrow> x \<in> blk p k \<Longrightarrow> x \<in> blk q j \<Longrightarrow> q = p \<and> j = k"
  using assms unfolding buddies_ok_def by (blast, blast, blast, blast, blast)

lemma buddies_ok_remove:
  assumes "buddies_ok n S F" "(p, k) \<in> F"
  shows "buddies_ok n S (F - {(p, k)})" "cover (F - {(p, k)}) = cover F - blk p k"
proof -
  show "buddies_ok n S (F - {(p, k)})" using assms(1) unfolding buddies_ok_def by blast
  show "cover (F - {(p, k)}) = cover F - blk p k"
    using buddies_okD(5) [OF assms] assms(2) unfolding cover_def by blast
qed

lemma buddies_ok_insert:
  assumes "buddies_ok n S F" "k < n" "2 ^ k dvd p" "blk p k \<subseteq> S" "blk p k \<inter> cover F = {}"
    and nobud: "Suc k < n \<Longrightarrow> (bud p k, k) \<notin> F"
  shows "buddies_ok n S (insert (p, k) F)"
proof -
  have "blk p k \<inter> blk q j = {}" if "(q, j) \<in> F" for q j
    using assms(5) blk_cover [OF that] by blast
  moreover have "bud q k \<noteq> p" if "(q, k) \<in> F" "Suc k < n" for q
    using buddies(3) [OF buddies_okD(2) [OF assms(1) that(1)]] nobud that by auto
  ultimately show ?thesis
    using assms(1-4) nobud buddies(2) [OF assms(3)] unfolding buddies_ok_def by auto
qed

text \<open>Splitting: the upper halves that \<^verbatim>\<open>expand\<close> gives back.\<close>

definition halves :: "nat \<Rightarrow> nat \<Rightarrow> nat \<Rightarrow> (nat \<times> nat) set" where
  "halves p low high = {(p + 2 ^ h, h) |h. low \<le> h \<and> h < high}"

lemma halves_Suc: "low \<le> h \<Longrightarrow> halves p low (Suc h) = insert (p + 2 ^ h, h) (halves p low h)"
  by (auto simp: halves_def less_Suc_eq)

lemma halves_same [simp]: "halves p k k = {}"
  by (auto simp: halves_def)

lemma half_facts:
  assumes "2 ^ Suc h dvd p"
  shows "2 ^ h dvd p + 2 ^ h" "bud (p + 2 ^ h) h = p" "2 ^ h dvd p"
    "blk p (Suc h) = blk p h \<union> blk (p + 2 ^ h) h" "blk p h \<inter> blk (p + 2 ^ h) h = {}"
proof -
  show d: "2 ^ h dvd p" using assms by (meson dvd_trans le_imp_power_dvd le_SucI order_refl)
  then show "2 ^ h dvd p + 2 ^ h" by simp
  show "bud (p + 2 ^ h) h = p" using buddies(3) [OF d] assms by (simp add: bud_def del: power_Suc)
  show "blk p (Suc h) = blk p h \<union> blk (p + 2 ^ h) h" "blk p h \<inter> blk (p + 2 ^ h) h = {}"
    by (auto simp: blk_def)
qed

section \<open>Free runs and free blocks\<close>

text \<open>Every aligned run of free pages lies in one free block: the blocks are merged as far as they can be.\<close>

lemma covered_block:
  assumes F: "buddies_ok n S F" and "k < n" "2 ^ k dvd p" "blk p k \<subseteq> cover F"
  shows "\<exists>q j. (q, j) \<in> F \<and> k \<le> j \<and> blk p k \<subseteq> blk q j"
  using assms(2-)
proof (induction k arbitrary: p)
  case 0
  then have "p \<in> cover F" by auto
  then show ?case by (auto simp: cover_mem blk_def)
next
  case (Suc k)
  note h = half_facts [OF Suc.prems(2)]
  have le: "k < n" using Suc.prems(1) by simp
  have sub: "blk p k \<subseteq> cover F" "blk (p + 2 ^ k) k \<subseteq> cover F" using Suc.prems(3) h(4) by auto
  obtain q j where qj: "(q, j) \<in> F" "k \<le> j" "blk p k \<subseteq> blk q j"
    using Suc.IH [OF le h(3) sub(1)] by blast
  obtain q' j' where qj': "(q', j') \<in> F" "k \<le> j'" "blk (p + 2 ^ k) k \<subseteq> blk q' j'"
    using Suc.IH [OF le h(1) sub(2)] by blast
  have big: "blk p (Suc k) \<subseteq> blk r i"
    if "(r, i) \<in> F" "Suc k \<le> i" "x \<in> blk p (Suc k)" "x \<in> blk r i" for r i x
    by (rule blk_nested [OF Suc.prems(2) buddies_okD(2) [OF F that(1)] that(2,3,4)])
  have mem: "p \<in> blk q j" "p + 2 ^ k \<in> blk q' j'" "p \<in> blk p (Suc k)" "p + 2 ^ k \<in> blk p (Suc k)"
    using subsetD [OF qj(3) blk_first] subsetD [OF qj'(3) blk_first] by (auto simp: blk_mem)
  show ?case
  proof (cases "Suc k \<le> j \<or> Suc k \<le> j'")
    case True
    then show ?thesis using big mem qj(1) qj'(1) by blast
  next
    case False
    then have j: "j = k" "j' = k" using qj(2) qj'(2) by auto
    have "q = p" "q' = p + 2 ^ k"
      using qj(3) qj'(3) j by (auto simp: blk_def)
    then have "(p, k) \<in> F" "(bud (p + 2 ^ k) k, k) \<notin> F"
      using qj(1) qj'(1) j buddies_okD(4) [OF F, of "p + 2 ^ k" k] Suc.prems(1) by auto
    then show ?thesis using h(2) by simp
  qed
qed

text \<open>So the free blocks are determined by the free pages.\<close>

lemma block_iff:
  assumes F: "buddies_ok n S F"
  shows "(p, k) \<in> F \<longleftrightarrow> k < n \<and> 2 ^ k dvd p \<and> blk p k \<subseteq> cover F \<and>
     (Suc k < n \<longrightarrow> \<not> blk (par p k) (Suc k) \<subseteq> cover F)" (is "_ \<longleftrightarrow> ?R")
proof
  assume b: "(p, k) \<in> F"
  note d = buddies_okD [OF F b]
  have "\<not> blk (par p k) (Suc k) \<subseteq> cover F" if "Suc k < n"
  proof
    assume "blk (par p k) (Suc k) \<subseteq> cover F"
    from covered_block [OF F that buddies(4) [OF d(2)] this] obtain q j
      where q: "(q, j) \<in> F" "Suc k \<le> j" "blk (par p k) (Suc k) \<subseteq> blk q j" by blast
    have "p \<in> blk q j" using q(3) buddies(6) [OF d(2)] blk_first [of p k] by blast
    then show False using d(5) [OF q(1), of p] q(2) by simp
  qed
  then show ?R using d(1,2) blk_cover [OF b] by blast
next
  assume R: ?R
  then obtain q j where q: "(q, j) \<in> F" "k \<le> j" "blk p k \<subseteq> blk q j"
    using covered_block [OF F] by blast
  note d = buddies_okD [OF F q(1)]
  show "(p, k) \<in> F"
  proof (cases "j = k")
    case True
    then have "q = p" using q(3) by (auto simp: blk_def)
    then show ?thesis using q(1) True by simp
  next
    case False
    then have j: "Suc k \<le> j" using q(2) by simp
    have p: "p \<in> blk (par p k) (Suc k)" "p \<in> blk q j"
      using buddies(6) [of k p] R q(3) blk_first [of p k] by blast+
    have "blk (par p k) (Suc k) \<subseteq> blk q j"
      by (rule blk_nested [OF buddies(4) d(2) j p]) (use R in simp)
    then show ?thesis using R j d(1) blk_cover [OF q(1)] by auto
  qed
qed

lemma blocks_determined:
  "buddies_ok n S F \<Longrightarrow> buddies_ok n S' G \<Longrightarrow> cover F = cover G \<Longrightarrow> F = G"
  by (auto simp: block_iff)

text \<open>The number of free pages.\<close>

lemma card_cover:
  assumes F: "buddies_ok n S F" and "finite F"
  shows "card (cover F) = (\<Sum>(p, k)\<in>F. 2 ^ k)"
proof -
  have "card (cover F) = (\<Sum>b\<in>F. card (case b of (p, k) \<Rightarrow> blk p k))"
    unfolding cover_def
  proof (rule card_UN_disjoint [OF assms(2)])
    show "\<forall>i\<in>F. finite (case i of (p, k) \<Rightarrow> blk p k)" by auto
    show "\<forall>i\<in>F. \<forall>j\<in>F. i \<noteq> j \<longrightarrow>
        (case i of (p, k) \<Rightarrow> blk p k) \<inter> (case j of (p, k) \<Rightarrow> blk p k) = {}"
      using F unfolding buddies_ok_def by fast
  qed
  then show ?thesis by (simp add: case_prod_beta)
qed

end
