(* ===== verification/Buddy_Props.thy ===== *)
theory Buddy_Props
  imports Buddy Buddy_Sets
begin

text \<open>
  The invariant of a zone and what the operations of the buddy allocator do to it: taking a block off its
  list, putting one back, merging, splitting, and moving the free pages of a page block.
\<close>

section \<open>The invariant\<close>

definition fblocks :: "zone \<Rightarrow> (nat \<times> nat) set" where
  "fblocks z = {(p, k). pg_zone z p = zn_id z \<and> pg_buddy z p \<and> pg_private z p = k}"

definition zspan :: "zone \<Rightarrow> nat set" where
  "zspan z = {zn_start z..<zn_start z + zn_spanned z}"

definition on_lists :: "zone \<Rightarrow> nat \<Rightarrow> (nat \<times> nat) set" where
  "on_lists z p = {(k, m). p \<in> set (zn_list z k m)}"

definition page_listed :: "zone \<Rightarrow> nat \<Rightarrow> bool" where
  "page_listed z p \<longleftrightarrow>
     (pg_zone z p = zn_id z \<and> pg_buddy z p \<and> (\<exists>m<MIGRATE_TYPES. on_lists z p = {(pg_private z p, m)})) \<or>
     (\<not> (pg_zone z p = zn_id z \<and> pg_buddy z p) \<and> on_lists z p = {})"

definition bd_lists_ok :: "zone \<Rightarrow> bool" where
  "bd_lists_ok z \<longleftrightarrow> (\<forall>k m. distinct (zn_list z k m)) \<and> (\<forall>p. page_listed z p)"

definition bd_counts_ok :: "zone \<Rightarrow> bool" where
  "bd_counts_ok z \<longleftrightarrow> (\<forall>k. zn_nr_free z k = of_nat (card {p. (p, k) \<in> fblocks z}))"

text \<open>The pages of the zone are those it spans, and every recorded type is one of the types.\<close>

definition bd_zone_ok :: "bd_config \<Rightarrow> zone \<Rightarrow> bool" where
  "bd_zone_ok c z \<longleftrightarrow> (\<forall>p. pg_zone z p = zn_id z \<longleftrightarrow> p \<in> zspan z) \<and>
     (\<forall>b. zn_block z b < MIGRATE_TYPES) \<and> (\<forall>p. pg_migratetype z p < MIGRATE_TYPES)"

definition bd_ok :: "bd_config \<Rightarrow> zone \<Rightarrow> bool" where
  "bd_ok c z \<longleftrightarrow> bd_zone_ok c z \<and> bd_lists_ok z \<and> bd_counts_ok z \<and>
     buddies_ok (MAX_ORDER c) (zspan z) (fblocks z)"

definition free_set :: "zone \<Rightarrow> nat set" where
  "free_set z = cover (fblocks z)"

definition zone_frame :: "zone \<Rightarrow> zone \<Rightarrow> bool" where
  "zone_frame z z' \<longleftrightarrow> zn_id z' = zn_id z \<and> zn_start z' = zn_start z \<and> zn_spanned z' = zn_spanned z \<and>
     pg_zone z' = pg_zone z \<and> zn_free_pages z' = zn_free_pages z \<and>
     zn_lowmem_reserve z' = zn_lowmem_reserve z \<and> zn_watermark_low z' = zn_watermark_low z \<and>
     zn_percpu_drift_mark z' = zn_percpu_drift_mark z"

lemma zone_frame_refl [simp]: "zone_frame z z"
  by (simp add: zone_frame_def)

lemma zone_frame_trans: "zone_frame z z' \<Longrightarrow> zone_frame z' z'' \<Longrightarrow> zone_frame z z''"
  by (simp add: zone_frame_def)

lemma zspan_frame: "zone_frame z z' \<Longrightarrow> zspan z' = zspan z"
  by (simp add: zone_frame_def zspan_def)

lemma zone_spans_zspan [simp]: "zone_spans_pfn z p \<longleftrightarrow> p \<in> zspan z"
  by (simp add: zone_spans_pfn_def zspan_def)

lemma bd_okD:
  assumes "bd_ok c z"
  shows "bd_zone_ok c z" "bd_lists_ok z" "bd_counts_ok z" "buddies_ok (MAX_ORDER c) (zspan z) (fblocks z)"
  using assms by (simp_all add: bd_ok_def)

lemma in_zone: "bd_zone_ok c z \<Longrightarrow> pg_zone z p = zn_id z \<longleftrightarrow> p \<in> zspan z"
  by (simp add: bd_zone_ok_def)

lemma bad_range_iff: "bd_zone_ok c z \<Longrightarrow> bad_range z p \<longleftrightarrow> p \<notin> zspan z"
  unfolding bad_range_def bd_zone_ok_def zone_spans_zspan by metis

lemma fblocks_finite: "bd_zone_ok c z \<Longrightarrow> finite {p. (p, k) \<in> fblocks z}" "bd_zone_ok c z \<Longrightarrow> finite (fblocks z)"
proof -
  assume z: "bd_zone_ok c z"
  have sub: "{p. (p, k) \<in> fblocks z} \<subseteq> zspan z" for k using z by (auto simp: fblocks_def bd_zone_ok_def)
  then show "finite {p. (p, k) \<in> fblocks z}" by (rule finite_subset) (simp add: zspan_def)
  have "fblocks z \<subseteq> (\<lambda>p. (p, pg_private z p)) ` zspan z"
    using z by (auto simp: fblocks_def bd_zone_ok_def)
  then show "finite (fblocks z)" by (rule finite_subset) (simp add: zspan_def)
qed

lemma buddy_in_free_set:
  assumes "bd_zone_ok c z" "pg_buddy z p" "p \<in> zspan z"
  shows "(p, pg_private z p) \<in> fblocks z" "p \<in> free_set z"
proof -
  show b: "(p, pg_private z p) \<in> fblocks z" using assms by (auto simp: fblocks_def bd_zone_ok_def)
  show "p \<in> free_set z" using blk_cover [OF b] blk_first [of p] unfolding free_set_def by blast
qed

lemma listed_block:
  assumes "bd_lists_ok z" "p \<in> set (zn_list z k m)"
  shows "(p, k) \<in> fblocks z" "m < MIGRATE_TYPES"
proof -
  have "(k, m) \<in> on_lists z p" using assms(2) by (simp add: on_lists_def)
  moreover have "page_listed z p" using assms(1) by (simp add: bd_lists_ok_def)
  ultimately show "(p, k) \<in> fblocks z" "m < MIGRATE_TYPES" by (auto simp: page_listed_def fblocks_def)
qed

lemma block_listed:
  assumes "bd_lists_ok z" "(p, k) \<in> fblocks z"
  obtains m where "m < MIGRATE_TYPES" "p \<in> set (zn_list z k m)"
proof -
  have "pg_zone z p = zn_id z" "pg_buddy z p" "pg_private z p = k" using assms(2) by (auto simp: fblocks_def)
  moreover have "page_listed z p" using assms(1) by (simp add: bd_lists_ok_def)
  ultimately obtain m where m: "m < MIGRATE_TYPES" "on_lists z p = {(k, m)}"
    by (auto simp: page_listed_def)
  then have "p \<in> set (zn_list z k m)" by (auto simp: on_lists_def)
  with m(1) show thesis by (rule that)
qed

section \<open>Taking and putting a block\<close>

definition take_block :: "nat \<Rightarrow> nat \<Rightarrow> zone \<Rightarrow> zone" where
  "take_block p k z = rmv_page_order p (nr_free_dec k (lru_del p z))"

definition put_block :: "nat \<Rightarrow> nat \<Rightarrow> nat \<Rightarrow> nat list \<Rightarrow> zone \<Rightarrow> zone" where
  "put_block p k m ps z = nr_free_inc k (set_page_order p k
     (z\<lparr>zn_list := (zn_list z)(k := (zn_list z k)(m := ps))\<rparr>))"

lemmas page_defs = set_page_order_def rmv_page_order_def lru_del_def lru_add_def lru_add_tail_def
  nr_free_inc_def nr_free_dec_def mod_free_pages_def set_freepage_migratetype_def

lemma put_block_ops:
  "set_page_order p k (nr_free_inc k (lru_add p k m z)) = put_block p k m (p # zn_list z k m) z"
  "nr_free_inc k (lru_add p k m (set_page_order p k z)) = put_block p k m (p # zn_list z k m) z"
  "nr_free_inc k (lru_add_tail p k m (set_page_order p k z)) = put_block p k m (zn_list z k m @ [p]) z"
  by (rule zone.equality; simp add: put_block_def page_defs)+

lemma take_block_ops: "nr_free_dec k (rmv_page_order p (lru_del p z)) = take_block p k z"
  by (rule zone.equality; simp add: take_block_def page_defs)

lemma take_put_frame [simp]: "zone_frame z (take_block p k z)" "zone_frame z (put_block p k m ps z)"
  by (simp_all add: take_block_def put_block_def page_defs zone_frame_def)

lemma zone_ok_take_put:
  "bd_zone_ok c z \<Longrightarrow> bd_zone_ok c (take_block p k z)" "bd_zone_ok c z \<Longrightarrow> bd_zone_ok c (put_block p k m ps z)"
  by (simp_all add: bd_zone_ok_def zspan_def take_block_def put_block_def page_defs)

lemma fblocks_take:
  "(p, k) \<in> fblocks z \<Longrightarrow> fblocks (take_block p k z) = fblocks z - {(p, k)}"
  by (auto simp: fblocks_def take_block_def page_defs split: if_splits)

lemma fblocks_put:
  "pg_zone z p = zn_id z \<Longrightarrow> \<not> pg_buddy z p \<Longrightarrow> fblocks (put_block p k m ps z) = insert (p, k) (fblocks z)"
  by (auto simp: fblocks_def put_block_def page_defs split: if_splits)

lemma lists_take:
  assumes "bd_lists_ok z"
  shows "bd_lists_ok (take_block p k z)"
proof -
  have set: "set (zn_list (take_block p k z) j m) = set (zn_list z j m) - {p}" for j m
    using assms by (simp add: take_block_def page_defs bd_lists_ok_def)
  have on: "on_lists (take_block p k z) q = (if q = p then {} else on_lists z q)" for q
    by (auto simp: on_lists_def set)
  have flags: "pg_zone (take_block p k z) = pg_zone z" "zn_id (take_block p k z) = zn_id z"
    "pg_buddy (take_block p k z) = (pg_buddy z)(p := False)" "pg_private (take_block p k z) = (pg_private z)(p := 0)"
    by (simp_all add: take_block_def page_defs)
  have "page_listed (take_block p k z) q" for q
    using assms by (cases "q = p") (simp_all add: bd_lists_ok_def page_listed_def on flags)
  moreover have "distinct (zn_list (take_block p k z) j m)" for j m
    using assms by (simp add: take_block_def page_defs bd_lists_ok_def)
  ultimately show ?thesis by (simp add: bd_lists_ok_def)
qed

lemma lists_put:
  assumes "bd_lists_ok z" "pg_zone z p = zn_id z" "\<not> pg_buddy z p" "m < MIGRATE_TYPES"
    and "set ps = insert p (set (zn_list z k m))" "distinct ps"
  shows "bd_lists_ok (put_block p k m ps z)"
proof -
  have list: "zn_list (put_block p k m ps z) j n = (if j = k \<and> n = m then ps else zn_list z j n)" for j n
    by (simp add: put_block_def page_defs)
  have "page_listed z p" using assms(1) by (simp add: bd_lists_ok_def)
  then have none: "on_lists z p = {}" using assms(3) by (auto simp: page_listed_def)
  have on: "on_lists (put_block p k m ps z) q = (if q = p then {(k, m)} else on_lists z q)" for q
    using none assms(5) by (auto simp: on_lists_def list)
  have flags: "pg_zone (put_block p k m ps z) = pg_zone z" "zn_id (put_block p k m ps z) = zn_id z"
    "pg_buddy (put_block p k m ps z) = (pg_buddy z)(p := True)"
    "pg_private (put_block p k m ps z) = (pg_private z)(p := k)"
    by (simp_all add: put_block_def page_defs)
  have "page_listed (put_block p k m ps z) q" for q
    using assms(1,2,4) by (cases "q = p") (auto simp: bd_lists_ok_def page_listed_def on flags)
  moreover have "distinct (zn_list (put_block p k m ps z) j n)" for j n
    using assms(1,6) by (simp add: list bd_lists_ok_def)
  ultimately show ?thesis by (simp add: bd_lists_ok_def)
qed

lemma counts_take:
  assumes "bd_zone_ok c z" "bd_counts_ok z" "(p, k) \<in> fblocks z"
  shows "bd_counts_ok (take_block p k z)"
proof -
  have eq: "{q. (q, j) \<in> fblocks (take_block p k z)} =
      (if j = k then {q. (q, k) \<in> fblocks z} - {p} else {q. (q, j) \<in> fblocks z})" for j
    by (auto simp: fblocks_take [OF assms(3)])
  have "card {q. (q, k) \<in> fblocks z} = Suc (card ({q. (q, k) \<in> fblocks z} - {p}))"
    using assms(3) fblocks_finite(1) [OF assms(1)] by (metis card.remove mem_Collect_eq)
  then show ?thesis using assms(2)
    by (simp add: bd_counts_ok_def eq) (simp add: take_block_def page_defs)
qed

lemma counts_put:
  assumes "bd_zone_ok c z" "bd_counts_ok z" "pg_zone z p = zn_id z" "\<not> pg_buddy z p"
  shows "bd_counts_ok (put_block p k m ps z)"
proof -
  have eq: "{q. (q, j) \<in> fblocks (put_block p k m ps z)} =
      (if j = k then insert p {q. (q, k) \<in> fblocks z} else {q. (q, j) \<in> fblocks z})" for j
    by (auto simp: fblocks_put [OF assms(3,4)])
  have "p \<notin> {q. (q, k) \<in> fblocks z}" using assms(4) by (auto simp: fblocks_def)
  then have "card (insert p {q. (q, k) \<in> fblocks z}) = Suc (card {q. (q, k) \<in> fblocks z})"
    using fblocks_finite(1) [OF assms(1)] by simp
  then show ?thesis using assms(2)
    by (simp add: bd_counts_ok_def eq) (simp add: put_block_def page_defs)
qed

lemma take_ok:
  assumes "bd_ok c z" "(p, k) \<in> fblocks z"
  shows "bd_ok c (take_block p k z)" "free_set (take_block p k z) = free_set z - blk p k"
proof -
  note z = bd_okD [OF assms(1)]
  have sp: "zspan (take_block p k z) = zspan z" by (rule zspan_frame) simp
  show "bd_ok c (take_block p k z)"
    unfolding bd_ok_def sp fblocks_take [OF assms(2)]
    by (intro conjI zone_ok_take_put lists_take counts_take [OF z(1)] buddies_ok_remove z assms(2))
  show "free_set (take_block p k z) = free_set z - blk p k"
    unfolding free_set_def fblocks_take [OF assms(2)] by (rule buddies_ok_remove(2) [OF z(4) assms(2)])
qed

lemma put_ok:
  assumes "bd_ok c z" "k < MAX_ORDER c" "2 ^ k dvd p" "blk p k \<subseteq> zspan z" "blk p k \<inter> free_set z = {}"
    and nobud: "Suc k < MAX_ORDER c \<Longrightarrow> (bud p k, k) \<notin> fblocks z" and "m < MIGRATE_TYPES"
    and ps: "set ps = insert p (set (zn_list z k m))" "distinct ps"
  shows "bd_ok c (put_block p k m ps z)" "fblocks (put_block p k m ps z) = insert (p, k) (fblocks z)"
    "free_set (put_block p k m ps z) = blk p k \<union> free_set z"
proof -
  note z = bd_okD [OF assms(1)]
  have "p \<in> zspan z" "p \<notin> free_set z" using assms(4,5) blk_first [of p k] by blast+
  then have p: "pg_zone z p = zn_id z" "\<not> pg_buddy z p"
    using in_zone [OF z(1)] buddy_in_free_set [OF z(1)] by auto
  have sp: "zspan (put_block p k m ps z) = zspan z" by (rule zspan_frame) simp
  have b: "buddies_ok (MAX_ORDER c) (zspan z) (insert (p, k) (fblocks z))"
    by (rule buddies_ok_insert [OF z(4) assms(2-4)]) (use assms(5) nobud in \<open>simp_all add: free_set_def\<close>)
  show "bd_ok c (put_block p k m ps z)"
    unfolding bd_ok_def sp fblocks_put [OF p]
    by (intro conjI zone_ok_take_put lists_put counts_put [OF z(1)] b z p assms(7) ps) 
  show "fblocks (put_block p k m ps z) = insert (p, k) (fblocks z)" by (rule fblocks_put [OF p])
  then show "free_set (put_block p k m ps z) = blk p k \<union> free_set z" by (simp add: free_set_def)
qed

lemma fresh_page_lists:
  assumes "bd_ok c z" "p \<in> zspan z" "p \<notin> free_set z"
  shows "distinct (p # zn_list z k m)" "distinct (zn_list z k m @ [p])"
proof -
  have "p \<notin> set (zn_list z k m)"
    using listed_block(1) [OF bd_okD(2) [OF assms(1)], of p k m] blk_cover [of p k] blk_first [of p k] assms(3)
    unfolding free_set_def by blast
  then show "distinct (p # zn_list z k m)" "distinct (zn_list z k m @ [p])"
    using bd_okD(2) [OF assms(1)] by (auto simp: bd_lists_ok_def)
qed

section \<open>Splitting\<close>

lemma expand_ok:
  assumes "bd_ok c z" "low \<le> high" "high < MAX_ORDER c" "2 ^ high dvd p" "m < MIGRATE_TYPES"
    and "blk p high \<subseteq> zspan z" "blk p high \<inter> free_set z = {}"
  shows "\<exists>z'. expand p low high m z = Some z' \<and> bd_ok c z' \<and> zone_frame z z' \<and>
     free_set z' = free_set z \<union> (blk p high - blk p low)"
  using assms
proof (induction high arbitrary: z)
  case 0
  then show ?case by (auto simp: expand.simps [of p 0 0])
next
  case (Suc h)
  show ?case
  proof (cases "low = Suc h")
    case True
    then show ?thesis using Suc.prems(1) by (auto simp: expand.simps [of p "Suc h" "Suc h"])
  next
    case False
    then have le: "low \<le> h" "h < MAX_ORDER c" using Suc.prems(2,3) by auto
    note hf = half_facts [OF Suc.prems(4)]
    let ?q = "p + 2 ^ h" and ?l = "(p + 2 ^ h) # zn_list z h m"
    let ?z = "put_block ?q h m ?l z"
    have sub: "blk ?q h \<subseteq> zspan z" "blk ?q h \<inter> free_set z = {}" "blk p h \<subseteq> zspan z" "blk p h \<inter> free_set z = {}"
      using hf(4) Suc.prems(6,7) by blast+
    have q: "?q \<in> zspan z" "?q \<notin> free_set z" using sub(1,2) blk_first [of ?q h] by blast+
    have "p \<notin> free_set z" using sub(4) blk_first [of p h] by blast
    then have nb: "(bud ?q h, h) \<notin> fblocks z"
      using blk_cover [of p h "fblocks z"] subsetD [OF _ blk_first, of p h] hf(2) unfolding free_set_def by auto
    note put = put_ok [OF Suc.prems(1) le(2) hf(1) sub(1,2) nb Suc.prems(5), of ?l,
        OF _ fresh_page_lists(1) [OF Suc.prems(1) q], simplified]
    have run: "expand p low (Suc h) m z = expand p low h m ?z"
      using bad_range_iff [OF bd_okD(1) [OF Suc.prems(1)]] q(1) le
      by (simp add: expand.simps [of p low "Suc h"] put_block_ops Let_def)
    have sp: "zspan ?z = zspan z" by (rule zspan_frame) simp
    have "blk p h \<subseteq> zspan ?z" "blk p h \<inter> free_set ?z = {}"
      using sub hf(5) put(3) sp by auto
    from Suc.IH [OF put(1) le hf(3) Suc.prems(5) this] obtain z' where
      z': "expand p low h m ?z = Some z'" "bd_ok c z'" "zone_frame ?z z'"
        "free_set z' = free_set ?z \<union> (blk p h - blk p low)" by blast
    have "blk p low \<subseteq> blk p h" using le(1) by (auto simp: blk_def intro: less_le_trans)
    then have "free_set z' = free_set z \<union> (blk p (Suc h) - blk p low)"
      using z'(4) put(3) hf(4,5) by auto
    moreover have "zone_frame z z'" using take_put_frame(2) z'(3) by (rule zone_frame_trans)
    ultimately show ?thesis using run z' by auto
  qed
qed

definition alloc_done :: "bd_config \<Rightarrow> nat \<Rightarrow> zone \<Rightarrow> nat \<Rightarrow> zone \<Rightarrow> bool" where
  "alloc_done c order z p z' \<longleftrightarrow> bd_ok c z' \<and> zone_frame z z' \<and> 2 ^ order dvd p \<and>
     blk p order \<subseteq> free_set z \<and> free_set z' = free_set z - blk p order"

lemma take_expand:
  assumes z: "bd_ok c z" and p: "(p, k) \<in> fblocks z" and "order \<le> k" "m < MIGRATE_TYPES"
  shows "\<exists>z'. expand p order k m (take_block p k z) = Some z' \<and> alloc_done c order z p z'"
proof -
  note d = buddies_okD [OF bd_okD(4) [OF z] p] and t = take_ok [OF z p]
  have sp: "zspan (take_block p k z) = zspan z" by (rule zspan_frame) simp
  obtain z' where z': "expand p order k m (take_block p k z) = Some z'" "bd_ok c z'"
    "zone_frame (take_block p k z) z'" "free_set z' = free_set (take_block p k z) \<union> (blk p k - blk p order)"
    using expand_ok [OF t(1) assms(3) d(1,2) assms(4)] d(3) t(2) sp by auto
  have sub: "blk p order \<subseteq> blk p k" using assms(3) by (auto simp: blk_def intro: less_le_trans)
  have free: "blk p k \<subseteq> free_set z" using blk_cover [OF p] by (simp add: free_set_def)
  have "2 ^ order dvd p" using d(2) assms(3) by (meson dvd_trans le_imp_power_dvd)
  moreover have "free_set z' = free_set z - blk p order" using z'(4) t(2) sub free by auto
  moreover have "zone_frame z z'" using take_put_frame(1) z'(3) by (rule zone_frame_trans)
  ultimately show ?thesis using z' sub free by (auto simp: alloc_done_def)
qed

section \<open>Merging\<close>

lemma buddy_index:
  assumes "2 ^ k dvd p" "k < n"
  shows "p + find_buddy_index (p mod 2 ^ n) k - p mod 2 ^ n = bud p k"
    "find_buddy_index (p mod 2 ^ n) k AND p mod 2 ^ n = par p k mod 2 ^ n"
    "p + (find_buddy_index (p mod 2 ^ n) k AND p mod 2 ^ n) - p mod 2 ^ n = par p k"
proof -
  let ?i = "p mod 2 ^ n"
  have dn: "(2::nat) ^ k dvd 2 ^ n" "(2::nat) ^ Suc k dvd 2 ^ n"
    using assms(2) by (auto intro!: le_imp_power_dvd simp del: power_Suc)
  have i: "2 ^ k dvd ?i" "2 ^ Suc k dvd ?i \<longleftrightarrow> 2 ^ Suc k dvd p"
    using assms(1) dn by (auto simp: dvd_mod_iff simp del: power_Suc)
  have le: "?i \<le> p" "2 ^ k \<le> ?i" if "\<not> 2 ^ Suc k dvd p"
  proof -
    have "?i \<noteq> 0" using i(2) that by (metis dvd_0_right)
    then show "2 ^ k \<le> ?i" using i(1) by (simp add: dvd_imp_le)
  qed simp
  have x: "find_buddy_index ?i k = bud ?i k" "find_buddy_index ?i k AND ?i = par ?i k"
    unfolding find_buddy_index_def using xor_bud [OF i(1)] by auto
  have split: "p = p div 2 ^ n * 2 ^ n + ?i" by (rule div_mult_mod_eq [symmetric])
  show "p + find_buddy_index ?i k - ?i = bud p k"
    using le by (auto simp: x(1) bud_def i(2) simp del: power_Suc)
  have "(p - 2 ^ k) mod 2 ^ n = ?i - 2 ^ k" if "\<not> 2 ^ Suc k dvd p"
  proof -
    have "p - 2 ^ k = p div 2 ^ n * 2 ^ n + (?i - 2 ^ k)" using split le(2) [OF that] by linarith
    moreover have "?i - 2 ^ k < 2 ^ n" by (meson diff_le_self le_less_trans mod_less_divisor zero_less_numeral zero_less_power)
    ultimately show ?thesis by (metis mod_less mod_mult_self3)
  qed
  then show "find_buddy_index ?i k AND ?i = par p k mod 2 ^ n"
    by (auto simp: x(2) par_def i(2) simp del: power_Suc)
  show "p + (find_buddy_index ?i k AND ?i) - ?i = par p k"
    using le by (auto simp: x(2) par_def i(2) simp del: power_Suc)
qed

lemma page_is_buddy_iff:
  "bd_zone_ok c z \<Longrightarrow> p \<in> zspan z \<Longrightarrow> page_is_buddy z p q k \<longleftrightarrow> (q, k) \<in> fblocks z"
  by (simp add: page_is_buddy_def fblocks_def in_zone) (metis in_zone)

definition merged :: "bd_config \<Rightarrow> zone \<Rightarrow> nat \<Rightarrow> nat \<Rightarrow> nat \<Rightarrow> nat \<Rightarrow> zone \<Rightarrow> bool" where
  "merged c z p k p' k' z' \<longleftrightarrow> bd_ok c z' \<and> zone_frame z z' \<and> k' < MAX_ORDER c \<and> 2 ^ k' dvd p' \<and>
     blk p' k' \<subseteq> zspan z \<and> blk p' k' \<inter> free_set z' = {} \<and>
     (Suc k' < MAX_ORDER c \<longrightarrow> (bud p' k', k') \<notin> fblocks z') \<and>
     blk p' k' \<union> free_set z' = blk p k \<union> free_set z"

lemma merge_loop_ok:
  assumes "bd_ok c z" "k < MAX_ORDER c" "2 ^ k dvd p" "blk p k \<subseteq> zspan z" "blk p k \<inter> free_set z = {}"
    and "i = p mod 2 ^ MAX_ORDER c"
  shows "\<exists>p' k' b' z'. merge_loop c p i k b z = (p', p' mod 2 ^ MAX_ORDER c, k', b', z') \<and>
     merged c z p k p' k' z'"
  using assms
proof (induction "MAX_ORDER c - k" arbitrary: p i k b z)
  case (Suc d)
  note bi = buddy_index [OF Suc.prems(3,2)] and z = bd_okD [OF Suc.prems(1)]
  let ?n = "MAX_ORDER c"
  let ?b = "find_buddy_index i k" and ?q = "bud p k"
  have p: "p \<in> zspan z" using Suc.prems(4) blk_first [of p k] by blast
  have isb: "page_is_buddy z p (p + ?b - i) k \<longleftrightarrow> (?q, k) \<in> fblocks z"
    using page_is_buddy_iff [OF z(1) p] bi(1) Suc.prems(6) by simp
  show ?case
  proof (cases "k < ?n - 1 \<and> (?q, k) \<in> fblocks z")
    case True
    then have q: "(?q, k) \<in> fblocks z" "Suc k < ?n" by auto
    note t = take_ok [OF Suc.prems(1) q(1)] and b = buddies [OF Suc.prems(3)]
    let ?z = "take_block ?q k z"
    have run: "merge_loop c p i k b z = merge_loop c (par p k) (par p k mod 2 ^ ?n) (Suc k) ?b ?z"
      using True isb bi Suc.prems(6)
      by (subst merge_loop.simps) (simp add: take_block_def Let_def)
    have sp: "zspan ?z = zspan z" by (rule zspan_frame) simp
    have qz: "blk ?q k \<subseteq> zspan z" "blk ?q k \<subseteq> free_set z"
      using buddies_okD(3) [OF z(4) q(1)] blk_cover [OF q(1)] by (auto simp: free_set_def)
    have sub: "blk (par p k) (Suc k) \<subseteq> zspan ?z" "blk (par p k) (Suc k) \<inter> free_set ?z = {}"
      unfolding sp b(6) t(2) using qz(1) Suc.prems(4,5) by blast+
    have d: "d = ?n - Suc k" using Suc.hyps(2) by simp
    from Suc.hyps(1) [OF d t(1) q(2) b(4) sub refl, of ?b] obtain p' k' b' z' where
      r: "merge_loop c (par p k) (par p k mod 2 ^ ?n) (Suc k) ?b ?z = (p', p' mod 2 ^ ?n, k', b', z')"
        "merged c ?z (par p k) (Suc k) p' k' z'" by blast
    have "blk (par p k) (Suc k) \<union> free_set ?z = blk p k \<union> free_set z"
      unfolding b(6) t(2) using qz(2) by blast
    moreover have "zone_frame z z'" using r(2) zone_frame_trans [OF take_put_frame(1)] by (auto simp: merged_def)
    ultimately have "merged c z p k p' k' z'" using r(2) sp by (simp add: merged_def)
    then show ?thesis using run r(1) by auto
  next
    case False
    then have "\<exists>b'. merge_loop c p i k b z = (p, i, k, b', z)"
      using isb by (subst merge_loop.simps) (auto simp: Let_def)
    moreover have "merged c z p k p k z" using False Suc.prems by (auto simp: merged_def)
    ultimately show ?thesis using Suc.prems(6) by blast
  qed
qed simp

definition free_done :: "bd_config \<Rightarrow> nat \<Rightarrow> zone \<Rightarrow> nat \<Rightarrow> zone \<Rightarrow> bool" where
  "free_done c order z p z' \<longleftrightarrow> bd_ok c z' \<and> zone_frame z z' \<and> free_set z' = blk p order \<union> free_set z"

lemma do_free_ok:
  assumes z: "bd_ok c z" and "order < MAX_ORDER c" "2 ^ order dvd p" "blk p order \<subseteq> zspan z"
    "blk p order \<inter> free_set z = {}" "m < MIGRATE_TYPES"
  shows "\<exists>z'. do_free_one_page c p order m z = Some z' \<and> free_done c order z p z'"
proof -
  let ?n = "MAX_ORDER c"
  obtain p' k' b' z1 where r: "merge_loop c p (p mod 2 ^ ?n) order 0 z = (p', p' mod 2 ^ ?n, k', b', z1)"
    "merged c z p order p' k' z1" using merge_loop_ok [OF assms(1-5) refl] by blast
  then have mg: "bd_ok c z1" "k' < ?n" "2 ^ k' dvd p'" "blk p' k' \<subseteq> zspan z1" "blk p' k' \<inter> free_set z1 = {}"
    "Suc k' < ?n \<Longrightarrow> (bud p' k', k') \<notin> fblocks z1" "zone_frame z z1"
    "blk p' k' \<union> free_set z1 = blk p order \<union> free_set z"
    using zspan_frame [of z z1] by (auto simp: merged_def)
  have p': "p' \<in> zspan z1" "p' \<notin> free_set z1" using mg(4,5) blk_first [of p' k'] by blast+
  have "\<exists>ps. do_free_one_page c p order m z = Some (put_block p' k' m ps z1) \<and>
      (ps = p' # zn_list z1 k' m \<or> ps = zn_list z1 k' m @ [p'])"
  proof -
    have "(2::nat) ^ order dvd 2 ^ ?n" using assms(2) by (auto intro!: le_imp_power_dvd)
    then have "p mod 2 ^ ?n AND (2 ^ order - 1) = 0"
      using assms(3) unfolding nat_and_mask by (simp add: mod_mod_cancel)
    moreover have "\<not> bad_range z p" using bad_range_iff [OF bd_okD(1) [OF z]] assms(4) blk_first [of p order] by blast
    ultimately show ?thesis
      unfolding do_free_one_page_def Let_def nat_and_mask r(1)
      by (auto simp: nat_and_mask r(1) put_block_ops)
  qed
  then obtain ps where run: "do_free_one_page c p order m z = Some (put_block p' k' m ps z1)"
    and ps: "ps = p' # zn_list z1 k' m \<or> ps = zn_list z1 k' m @ [p']" by blast
  have ps': "set ps = insert p' (set (zn_list z1 k' m))" "distinct ps"
    using ps fresh_page_lists [OF mg(1) p', of k' m] by auto
  note put = put_ok [OF mg(1-6) assms(6) ps']
  have "zone_frame z (put_block p' k' m ps z1)" using mg(7) take_put_frame(2) by (rule zone_frame_trans)
  then show ?thesis using run put mg(8) by (auto simp: free_done_def)
qed

end
