(* ===== verification/Buddy_Alloc.thy ===== *)
theory Buddy_Alloc
  imports Buddy_Props
begin

text \<open>
  Allocation from a zone: the search of one free list, moving free pages between lists, the fallback lists,
  and the watermark test.
\<close>

section \<open>The lists of one type\<close>

lemma smallest_ok:
  assumes "bd_ok c z" "order \<le> k" "m < MIGRATE_TYPES"
  shows "(rmqueue_smallest_loop c order k m z = Some (None, z) \<and>
      (\<forall>j. k \<le> j \<longrightarrow> j < MAX_ORDER c \<longrightarrow> zn_list z j m = [])) \<or>
    (\<exists>p z'. rmqueue_smallest_loop c order k m z = Some (Some p, z') \<and> alloc_done c order z p z')"
  using assms
proof (induction "MAX_ORDER c - k" arbitrary: k)
  case 0
  then show ?case by (auto simp: rmqueue_smallest_loop.simps [of c order k])
next
  case (Suc d)
  then have lt: "k < MAX_ORDER c" by simp
  show ?case
  proof (cases "zn_list z k m")
    case Nil
    have "d = MAX_ORDER c - (k + 1)" using Suc.hyps(2) by simp
    note IH = Suc.hyps(1) [OF this Suc.prems(1) _ Suc.prems(3)]
    have run: "rmqueue_smallest_loop c order k m z = rmqueue_smallest_loop c order (k + 1) m z"
      using lt Nil by (subst rmqueue_smallest_loop.simps) simp
    have all: "(\<forall>j. k + 1 \<le> j \<longrightarrow> j < MAX_ORDER c \<longrightarrow> zn_list z j m = []) \<longrightarrow>
        (\<forall>j. k \<le> j \<longrightarrow> j < MAX_ORDER c \<longrightarrow> zn_list z j m = [])"
      using Nil by (metis Suc_eq_plus1 le_antisym not_less_eq_eq)
    have "order \<le> k + 1" using Suc.prems(2) by simp
    from IH [OF this] all show ?thesis unfolding run by blast
  next
    case (Cons p ps)
    have "(p, k) \<in> fblocks z" by (rule listed_block [OF bd_okD(2) [OF Suc.prems(1)], of _ _ m]) (simp add: Cons)
    from take_expand [OF Suc.prems(1) this Suc.prems(2,3)] show ?thesis
      using lt Cons by (subst (1 2) rmqueue_smallest_loop.simps) (auto simp: take_block_ops)
  qed
qed

section \<open>Moving free pages\<close>

text \<open>A state that differs from \<^verbatim>\<open>z\<close> only in how the free blocks are spread over the types.\<close>

definition regrouped :: "bd_config \<Rightarrow> zone \<Rightarrow> zone \<Rightarrow> bool" where
  "regrouped c z z' \<longleftrightarrow> (\<exists>L B T. z' = z\<lparr>zn_list := L, zn_block := B, pg_migratetype := T\<rparr>) \<and>
     bd_zone_ok c z' \<and> bd_lists_ok z'"

lemma regrouped_refl: "bd_zone_ok c z \<Longrightarrow> bd_lists_ok z \<Longrightarrow> regrouped c z z"
proof -
  assume z: "bd_zone_ok c z" "bd_lists_ok z"
  have "z = z\<lparr>zn_list := zn_list z, zn_block := zn_block z, pg_migratetype := pg_migratetype z\<rparr>" by simp
  then show ?thesis using z unfolding regrouped_def by blast
qed

lemma regrouped_trans:
  assumes "regrouped c z z'" "regrouped c z' z''"
  shows "regrouped c z z''"
proof -
  obtain L B T L' B' T' where "z' = z\<lparr>zn_list := L, zn_block := B, pg_migratetype := T\<rparr>"
    "z'' = z'\<lparr>zn_list := L', zn_block := B', pg_migratetype := T'\<rparr>"
    using assms by (auto simp: regrouped_def)
  then have "z'' = z\<lparr>zn_list := L', zn_block := B', pg_migratetype := T'\<rparr>" by simp
  then show ?thesis using assms(2) unfolding regrouped_def by blast
qed

lemma regrouped_block:
  assumes "bd_zone_ok c z" "bd_lists_ok z" "m < MIGRATE_TYPES"
  shows "regrouped c z (set_pageblock_migratetype c p m z)"
proof -
  let ?z = "set_pageblock_migratetype c p m z"
  have "?z = z\<lparr>zn_list := zn_list z, zn_block := zn_block ?z, pg_migratetype := pg_migratetype z\<rparr>"
    by (simp add: set_pageblock_migratetype_def Let_def)
  moreover have "bd_zone_ok c ?z"
    using assms(1,3) by (auto simp: bd_zone_ok_def set_pageblock_migratetype_def zspan_def)
  moreover have "bd_lists_ok ?z"
    using assms(2) by (simp add: bd_lists_ok_def page_listed_def on_lists_def set_pageblock_migratetype_def)
  ultimately show ?thesis unfolding regrouped_def by blast
qed

lemma regrouped_move:
  assumes z: "bd_zone_ok c z" "bd_lists_ok z" and "m < MIGRATE_TYPES" "pg_buddy z p" "p \<in> zspan z"
  shows "regrouped c z (set_freepage_migratetype p m (lru_add p (pg_private z p) m (lru_del p z)))" (is "regrouped c z ?z")
proof -
  let ?k = "pg_private z p"
  have pz: "pg_zone z p = zn_id z" using assms(5) in_zone [OF z(1)] by simp
  have del: "set (zn_list (lru_del p z) j n) = set (zn_list z j n) - {p}"
    "distinct (zn_list (lru_del p z) j n)" for j n
    using z(2) by (simp_all add: lru_del_def bd_lists_ok_def)
  have list: "zn_list ?z j n = (if j = ?k \<and> n = m then p # zn_list (lru_del p z) j n else zn_list (lru_del p z) j n)" for j n
    by (simp add: set_freepage_migratetype_def lru_add_def)
  have on: "on_lists ?z q = (if q = p then {(?k, m)} else on_lists z q)" for q
    by (auto simp: on_lists_def list del(1) split: if_splits)
  have flags: "pg_zone ?z = pg_zone z" "zn_id ?z = zn_id z" "pg_buddy ?z = pg_buddy z" "pg_private ?z = pg_private z"
    by (simp_all add: page_defs)
  have "page_listed ?z q" for q
    using z(2) assms(3,4) pz by (cases "q = p") (auto simp: bd_lists_ok_def page_listed_def on flags)
  moreover have "distinct (zn_list ?z j n)" for j n using del by (simp add: list)
  ultimately have l: "bd_lists_ok ?z" by (simp add: bd_lists_ok_def)
  have "bd_zone_ok c ?z" using z(1) assms(3) by (auto simp: bd_zone_ok_def page_defs zspan_def)
  moreover have "?z = z\<lparr>zn_list := zn_list ?z, zn_block := zn_block z, pg_migratetype := pg_migratetype ?z\<rparr>"
    by (simp add: page_defs)
  ultimately show ?thesis using l unfolding regrouped_def by blast
qed

lemma regroupedD:
  assumes "regrouped c z z'"
  shows "bd_zone_ok c z'" "bd_lists_ok z'" "fblocks z' = fblocks z" "zspan z' = zspan z" "zone_frame z z'"
    "zn_nr_free z' = zn_nr_free z" "pg_buddy z' = pg_buddy z" "pg_private z' = pg_private z"
  using assms by (auto simp: regrouped_def fblocks_def zspan_def zone_frame_def)

lemma move_loop_ok:
  assumes "bd_zone_ok c z" "bd_lists_ok z" "m < MIGRATE_TYPES" "\<And>x. p \<le> x \<Longrightarrow> x \<le> e \<Longrightarrow> x \<in> zspan z"
  shows "\<exists>n' z'. move_freepages_loop p e m n z = (n', z') \<and> regrouped c z z'"
  using assms
proof (induction p e m n z rule: move_freepages_loop.induct)
  case (1 p e m n z)
  consider "\<not> p \<le> e" | "p \<le> e" "\<not> pg_buddy z p" | "p \<le> e" "pg_buddy z p" by blast
  then show ?case
  proof cases
    case 1
    then show ?thesis using regrouped_refl "1.prems"(1,2) by (subst move_freepages_loop.simps) auto
  next
    case 2
    then show ?thesis using "1.IH"(1) [OF 2 "1.prems"(1,2,3)] "1.prems"(4) by (subst move_freepages_loop.simps) auto
  next
    case 3
    let ?z = "set_freepage_migratetype p m (lru_add p (pg_private z p) m (lru_del p z))"
    have pz: "p \<in> zspan z" using 3(1) "1.prems"(4) [of p] by simp
    note rg = regrouped_move [OF "1.prems"(1-3) 3(2) pz]
    note d = regroupedD [OF rg]
    have step: "\<exists>n' z'. move_freepages_loop (p + 2 ^ pg_private z p) e m (n + 2 ^ pg_private z p) ?z = (n', z') \<and>
        regrouped c ?z z'"
    proof -
      have "x \<in> zspan ?z" if "p + 2 ^ pg_private z p \<le> x" "x \<le> e" for x
        using "1.prems"(4) [of x] that d(4) by simp
      then show ?thesis using "1.IH"(2) [OF 3(1) _ refl d(1,2) "1.prems"(3)] 3(2) by blast
    qed
    have run: "move_freepages_loop p e m n z =
        move_freepages_loop (p + 2 ^ pg_private z p) e m (n + 2 ^ pg_private z p) ?z"
      using 3 by (subst move_freepages_loop.simps) (simp add: Let_def)
    show ?thesis unfolding run using step regrouped_trans [OF rg] by blast
  qed
qed

lemma move_block_ok:
  assumes z: "bd_zone_ok c z" "bd_lists_ok z" and "m < MIGRATE_TYPES" "p \<in> zspan z"
  shows "\<exists>n' z'. move_freepages_block c p m z = Some (n', z') \<and> regrouped c z z'"
proof -
  define s where "s = p - p mod 2 ^ pageblock_order c"
  define e where "e = s + 2 ^ pageblock_order c - 1"
  define q where "q = (if s \<in> zspan z then s else p)"
  have q: "q \<in> zspan z" using assms(4) by (simp add: q_def)
  have run: "move_freepages_block c p m z = (if e \<notin> zspan z then Some (0, z) else move_freepages q e m z)"
    unfolding move_freepages_block_def Let_def zone_spans_zspan s_def [symmetric] e_def [symmetric] q_def [symmetric]
    by (rule refl)
  show ?thesis
  proof (cases "e \<in> zspan z")
    case True
    have "x \<in> zspan z" if "q \<le> x" "x \<le> e" for x using that q True by (simp add: zspan_def)
    note mv = move_loop_ok [OF z assms(3) this, of q e 0]
    have "pg_zone z q = pg_zone z e" using in_zone [OF z(1), of q] in_zone [OF z(1), of e] q True by simp
    then show ?thesis using mv True unfolding run move_freepages_def by simp
  next
    case False
    then show ?thesis using regrouped_refl [OF z] unfolding run by simp
  qed
qed

lemma change_loop_ok:
  assumes "bd_zone_ok c z" "bd_lists_ok z" "m < MIGRATE_TYPES"
  shows "regrouped c z (change_pageblock_loop c p n m z)"
  using assms
proof (induction n arbitrary: p z)
  case (Suc n)
  note rg = regrouped_block [OF Suc.prems(1-3), of p]
  show ?case using regrouped_trans [OF rg Suc.IH [OF regroupedD(1,2) [OF rg] Suc.prems(3)]] by simp
qed (simp add: regrouped_refl)

lemma regrouped_ok: "bd_ok c z \<Longrightarrow> regrouped c z z' \<Longrightarrow> bd_ok c z' \<and> free_set z' = free_set z"
  using regroupedD [of c z z'] by (simp add: bd_ok_def bd_counts_ok_def free_set_def)

section \<open>The fallback lists\<close>

lemma nr_dec_regrouped:
  assumes "regrouped c (nr_free_dec k z) z2"
  obtains z' where "regrouped c z z'" "z2 = nr_free_dec k z'"
proof -
  obtain L B T where z2: "z2 = (nr_free_dec k z)\<lparr>zn_list := L, zn_block := B, pg_migratetype := T\<rparr>"
    and ok: "bd_zone_ok c z2" "bd_lists_ok z2" using assms by (auto simp: regrouped_def)
  let ?z = "z\<lparr>zn_list := L, zn_block := B, pg_migratetype := T\<rparr>"
  have eq: "z2 = nr_free_dec k ?z" by (simp add: z2 nr_free_dec_def)
  have "bd_zone_ok c ?z" "bd_lists_ok ?z" using ok
    by (simp_all add: z2 bd_zone_ok_def bd_lists_ok_def page_listed_def on_lists_def nr_free_dec_def zspan_def)
  then show thesis using that eq unfolding regrouped_def by blast
qed

lemma take_block_change:
  "change_pageblock_loop c q n m (take_block p k z) = take_block p k (change_pageblock_loop c q n m z)"
proof (induction n arbitrary: q z)
  case (Suc n)
  have "set_pageblock_migratetype c q m (take_block p k z) = take_block p k (set_pageblock_migratetype c q m z)"
    by (rule zone.equality; simp add: set_pageblock_migratetype_def take_block_def page_defs)
  then show ?case by (simp add: Suc.IH)
qed simp

lemma fallback_take_ok:
  assumes z: "bd_ok c z" and p: "(p, k) \<in> fblocks z" and "order \<le> k" "sm < MIGRATE_TYPES"
  shows "\<exists>z'. fallback_take c order sm k p z = Some (Some p, z') \<and> alloc_done c order z p z'"
proof -
  let ?z1 = "nr_free_dec k z"
  have pz: "p \<in> zspan z" using buddies_okD(3) [OF bd_okD(4) [OF z] p] blk_first [of p k] by blast
  have z1: "bd_zone_ok c ?z1" "bd_lists_ok ?z1" "p \<in> zspan ?z1" using bd_okD(1,2) [OF z] pz
    by (simp_all add: bd_zone_ok_def bd_lists_ok_def page_listed_def on_lists_def nr_free_dec_def zspan_def)
  define cond where "cond \<longleftrightarrow> k \<ge> pageblock_order c div 2 \<or> sm = MIGRATE_RECLAIMABLE \<or> page_group_by_mobility_disabled c"
  define take2 where "take2 = (if cond
     then do { (pages, z') \<leftarrow> move_freepages_block c p sm ?z1;
               Some (if pages \<ge> 2 ^ (pageblock_order c - 1) \<or> page_group_by_mobility_disabled c
                     then set_pageblock_migratetype c p sm z' else z') }
     else Some ?z1)"
  have "\<exists>z2. take2 = Some z2 \<and> regrouped c ?z1 z2"
  proof (cases cond)
    case True
    obtain n z' where m: "move_freepages_block c p sm ?z1 = Some (n, z')" "regrouped c ?z1 z'"
      using move_block_ok [OF z1(1,2) assms(4) z1(3)] by blast
    have "regrouped c ?z1 (set_pageblock_migratetype c p sm z')"
      by (rule regrouped_trans [OF m(2) regrouped_block [OF regroupedD(1,2) [OF m(2)] assms(4)]])
    then show ?thesis using True m by (simp add: take2_def)
  next
    case False
    then show ?thesis using regrouped_refl [OF z1(1,2)] by (simp add: take2_def)
  qed
  then obtain z2 where z2: "take2 = Some z2" "regrouped c ?z1 z2" by blast
  obtain y where y: "regrouped c z y" "z2 = nr_free_dec k y" by (rule nr_dec_regrouped [OF z2(2)])
  have yok: "bd_ok c y" "free_set y = free_set z" "(p, k) \<in> fblocks y"
    using regrouped_ok [OF z y(1)] regroupedD(3) [OF y(1)] p by auto
  let ?t = "if k \<ge> pageblock_order c then change_pageblock_range c p k sm y else y"
  have rt: "regrouped c y ?t" using change_loop_ok regrouped_refl bd_okD(1,2) [OF yok(1)] assms(4)
    by (simp add: change_pageblock_range_def)
  have comm: "(if k \<ge> pageblock_order c then change_pageblock_range c p k sm (rmv_page_order p (lru_del p z2))
      else rmv_page_order p (lru_del p z2)) = take_block p k ?t"
  proof -
    have "rmv_page_order p (lru_del p z2) = take_block p k y"
      unfolding y(2) by (rule zone.equality; simp add: take_block_def page_defs)
    then show ?thesis by (simp add: change_pageblock_range_def take_block_change)
  qed
  have tok: "bd_ok c ?t" "free_set ?t = free_set y" "(p, k) \<in> fblocks ?t"
    using regrouped_ok [OF yok(1) rt] regroupedD(3) [OF rt] yok(3) by auto
  obtain z' where z': "expand p order k sm (take_block p k ?t) = Some z'" "alloc_done c order ?t p z'"
    using take_expand [OF tok(1,3) assms(3,4)] by blast
  have "zone_frame z ?t" using regroupedD(5) [OF y(1)] regroupedD(5) [OF rt] by (rule zone_frame_trans)
  then have "alloc_done c order z p z'"
    using z'(2) zone_frame_trans unfolding alloc_done_def tok(2) yok(2) by blast
  moreover have "fallback_take c order sm k p z = Some (Some p, z')"
    unfolding fallback_take_def Let_def cond_def [symmetric] take2_def [symmetric] z2(1)
    using comm z'(1) by simp
  ultimately show ?thesis by blast
qed

definition before_reserve :: "nat list \<Rightarrow> nat set" where
  "before_reserve ms = set (takeWhile (\<lambda>m. m \<noteq> MIGRATE_RESERVE) ms)"

lemma fallback_types_ok:
  assumes "bd_ok c z" "order \<le> k" "sm < MIGRATE_TYPES" "MIGRATE_RESERVE \<in> set ms"
  shows "(fallback_types c order sm k ms z = Some (None, z) \<and> (\<forall>m\<in>before_reserve ms. zn_list z k m = [])) \<or>
    (\<exists>p z'. fallback_types c order sm k ms z = Some (Some p, z') \<and> alloc_done c order z p z')"
  using assms(4)
proof (induction ms)
  case (Cons m ms)
  show ?case
  proof (cases "m = MIGRATE_RESERVE")
    case False
    then have ms: "MIGRATE_RESERVE \<in> set ms" using Cons.prems by auto
    show ?thesis
    proof (cases "zn_list z k m")
      case Nil
      then show ?thesis using Cons.IH [OF ms] False by (auto simp: before_reserve_def)
    next
      case (Cons p ps)
      have "(p, k) \<in> fblocks z" by (rule listed_block [OF bd_okD(2) [OF assms(1)], of _ _ m]) (simp add: Cons)
      from fallback_take_ok [OF assms(1) this assms(2,3)] show ?thesis using False Cons by auto
    qed
  qed (simp add: before_reserve_def)
qed simp

lemma fallback_orders_ok:
  assumes "bd_ok c z" "\<forall>k\<in>set ks. order \<le> k" "sm < MIGRATE_TYPES"
  shows "(fallback_orders c order sm ks z = Some (None, z) \<and>
      (\<forall>k\<in>set ks. \<forall>m\<in>before_reserve (fallbacks sm). zn_list z k m = [])) \<or>
    (\<exists>p z'. fallback_orders c order sm ks z = Some (Some p, z') \<and> alloc_done c order z p z')"
  using assms(2)
proof (induction ks)
  case (Cons k ks)
  have "MIGRATE_RESERVE \<in> set (fallbacks sm)" by (simp add: fallbacks_def)
  from fallback_types_ok [OF assms(1) _ assms(3) this, of order k] Cons show ?case by auto
qed simp

text \<open>
  The requested type, the types it falls back to and the reserve are all the types, so an unsuccessful
  allocation has found every list of a sufficient order empty.
\<close>

lemma do_rmqueue_ok:
  assumes "bd_ok c z" "m < MIGRATE_RESERVE"
  shows "(do_rmqueue c order m z = Some (None, z) \<and>
      (\<forall>j n. order \<le> j \<longrightarrow> j < MAX_ORDER c \<longrightarrow> zn_list z j n = [])) \<or>
    (\<exists>p z'. do_rmqueue c order m z = Some (Some p, z') \<and> alloc_done c order z p z')"
proof -
  have m: "m < MIGRATE_TYPES" "MIGRATE_RESERVE < MIGRATE_TYPES" "m = 0 \<or> m = 1 \<or> m = 2" using assms(2) by auto
  have s: "\<forall>n. n < MIGRATE_TYPES \<longrightarrow>
      (rmqueue_smallest c order n z = Some (None, z) \<and> (\<forall>j. order \<le> j \<longrightarrow> j < MAX_ORDER c \<longrightarrow> zn_list z j n = [])) \<or>
      (\<exists>p z'. rmqueue_smallest c order n z = Some (Some p, z') \<and> alloc_done c order z p z')"
    using smallest_ok [OF assms(1) order_refl] by (simp add: rmqueue_smallest_def)
  have "\<forall>k\<in>set (rev [order..<MAX_ORDER c]). order \<le> k" by simp
  note f = fallback_orders_ok [OF assms(1) this m(1), folded rmqueue_fallback_def]
  have types: "before_reserve (fallbacks m) \<union> {m, MIGRATE_RESERVE} = {0, 1, 2, 3}"
    using m(3) by (auto simp: before_reserve_def fallbacks_def)
  have high: "zn_list z j n = []" if "MIGRATE_TYPES \<le> n" for j n
    using listed_block(2) [OF bd_okD(2) [OF assms(1)], of _ j n] that by (cases "zn_list z j n") force+
  show ?thesis
  proof (cases "\<exists>p z'. rmqueue_smallest c order m z = Some (Some p, z')")
    case True
    then show ?thesis using s m(1) by (auto simp: do_rmqueue_def)
  next
    case False
    then have a: "rmqueue_smallest c order m z = Some (None, z)"
      "\<forall>j. order \<le> j \<longrightarrow> j < MAX_ORDER c \<longrightarrow> zn_list z j m = []" using s m(1) by blast+
    show ?thesis
    proof (cases "\<exists>p z'. rmqueue_fallback c order m z = Some (Some p, z')")
      case True
      then show ?thesis using f a(1) assms(2) by (auto simp: do_rmqueue_def)
    next
      case False
      then have b: "rmqueue_fallback c order m z = Some (None, z)"
        "\<forall>j. order \<le> j \<longrightarrow> j < MAX_ORDER c \<longrightarrow> (\<forall>n\<in>before_reserve (fallbacks m). zn_list z j n = [])"
        using f by auto
      have run: "do_rmqueue c order m z = rmqueue_smallest c order MIGRATE_RESERVE z"
        using a(1) b(1) assms(2) by (simp add: do_rmqueue_def)
      have all: "zn_list z j n = []"
        if "order \<le> j" "j < MAX_ORDER c" "\<forall>j. order \<le> j \<longrightarrow> j < MAX_ORDER c \<longrightarrow> zn_list z j MIGRATE_RESERVE = []" for j n
      proof (cases "n < MIGRATE_TYPES")
        case True
        then have "n \<in> before_reserve (fallbacks m) \<union> {m, MIGRATE_RESERVE}" unfolding types by auto
        then show ?thesis using a(2) b(2) that by blast
      qed (use high in simp)
      show ?thesis unfolding run using s m(2) all by blast
    qed
  qed
qed

lemma no_free_run:
  assumes "bd_ok c z" "order < MAX_ORDER c" "\<forall>j n. order \<le> j \<longrightarrow> j < MAX_ORDER c \<longrightarrow> zn_list z j n = []"
    "2 ^ order dvd q"
  shows "\<not> blk q order \<subseteq> free_set z"
proof
  assume "blk q order \<subseteq> free_set z"
  then obtain p j where p: "(p, j) \<in> fblocks z" "order \<le> j"
    using covered_block [OF bd_okD(4) [OF assms(1)] assms(2,4)] unfolding free_set_def by blast
  obtain n where "p \<in> set (zn_list z j n)" by (rule block_listed [OF bd_okD(2) [OF assms(1)] p(1)])
  then show False using assms(3) p(2) buddies_okD(1) [OF bd_okD(4) [OF assms(1)] p(1)] by force
qed

end
