(* ===== verification/Buddy_Pcp.thy ===== *)
theory Buddy_Pcp
  imports Buddy_Alloc
begin

text \<open>
  Counting free pages, the watermark test, and the per-processor page lists in front of the buddy allocator.
\<close>

section \<open>Counting\<close>

lemma free_pages_by_order:
  assumes "bd_ok c z"
  shows "card (free_set z) = (\<Sum>k<MAX_ORDER c. card {p. (p, k) \<in> fblocks z} * 2 ^ k)"
proof -
  note z = bd_okD [OF assms]
  let ?F = "\<lambda>k. {p. (p, k) \<in> fblocks z}"
  have "card (free_set z) = (\<Sum>(p, k)\<in>fblocks z. 2 ^ k)"
    unfolding free_set_def by (rule card_cover [OF z(4) fblocks_finite(2) [OF z(1)]])
  also have "\<dots> = (\<Sum>(k, p)\<in>Sigma {..<MAX_ORDER c} ?F. 2 ^ k)"
    by (rule sum.reindex_bij_witness [of _ "\<lambda>(k, p). (p, k)" "\<lambda>(p, k). (k, p)"])
      (use buddies_okD(1) [OF z(4)] in auto)
  also have "\<dots> = (\<Sum>k<MAX_ORDER c. \<Sum>p\<in>?F k. 2 ^ k)"
    by (rule sum.Sigma [symmetric]) (use fblocks_finite(1) [OF z(1)] in auto)
  finally show ?thesis by simp
qed

lemma free_set_finite: "bd_ok c z \<Longrightarrow> finite (free_set z)" "bd_ok c z \<Longrightarrow> free_set z \<subseteq> zspan z"
proof -
  assume z: "bd_ok c z"
  show s: "free_set z \<subseteq> zspan z"
    using buddies_okD(3) [OF bd_okD(4) [OF z]] by (auto simp: free_set_def cover_def)
  show "finite (free_set z)" by (rule finite_subset [OF s]) (simp add: zspan_def)
qed

lemma nr_free_card:
  assumes "bd_ok c z" "zn_spanned z < 2 ^ 64"
  shows "uint (zn_nr_free z k) = int (card {p. (p, k) \<in> fblocks z})"
proof -
  note z = bd_okD [OF assms(1)]
  have "{p. (p, k) \<in> fblocks z} \<subseteq> zspan z" using z(1) by (auto simp: fblocks_def bd_zone_ok_def)
  then have "card {p. (p, k) \<in> fblocks z} \<le> card (zspan z)" by (rule card_mono [rotated]) (simp add: zspan_def)
  then have "card {p. (p, k) \<in> fblocks z} < 2 ^ 64" using assms(2) by (simp add: zspan_def)
  then show ?thesis using z(3) by (simp add: bd_counts_ok_def unsigned_of_nat take_bit_nat_eq_self_iff flip: take_bit_nat_def)
qed

section \<open>The watermark test\<close>

text \<open>Arithmetic on \<^verbatim>\<open>long\<close> is that of the integers as long as the result is in range.\<close>

lemma sintI:
  assumes "w = (word_of_int x :: 64 word)" "- (2 ^ 63) \<le> x" "x < 2 ^ 63"
  shows "sint w = x"
  using assms by (simp add: signed_of_int signed_take_bit_int_eq_self)

lemma sint_sub: "- (2 ^ 63) \<le> sint a - sint b \<Longrightarrow> sint a - sint b < 2 ^ 63 \<Longrightarrow> sint (a - b :: 64 word) = sint a - sint b"
  by (rule sintI) simp_all

lemma sint_add: "- (2 ^ 63) \<le> sint a + sint b \<Longrightarrow> sint a + sint b < 2 ^ 63 \<Longrightarrow> sint (a + b :: 64 word) = sint a + sint b"
  by (rule sintI) simp_all

lemma long_of_small:
  assumes "uint (w :: 64 word) < 2 ^ 63"
  shows "sint w = uint w"
proof (rule sintI)
  have "0 \<le> uint w" by simp
  then show "- (2 ^ 63) \<le> uint w" by (rule order_trans [rotated]) simp
qed (use assms in simp_all)

lemma sint_long_div:
  assumes "0 \<le> sint w" "0 < k"
  shows "sint (long_div w k) = sint w div k" "sint (w - long_div w k) = sint w - sint w div k" "sint w div k \<le> sint w"
    "0 \<le> sint w div k"
proof -
  have lt: "sint w < 2 ^ 63" using sint_lt [of w] by simp
  have le: "0 \<le> sint w div k" "sint w div k \<le> sint w"
    using assms zdiv_mono2 [of "sint w" 1 k] by (simp_all add: pos_imp_zdiv_nonneg_iff)
  show "sint w div k \<le> sint w" "0 \<le> sint w div k" by (rule le)+
  show d: "sint (long_div w k) = sint w div k"
    by (rule sintI) (use assms lt le in \<open>auto simp: long_div_def sgn_if\<close>)
  show "sint (w - long_div w k) = sint w - sint w div k" using sint_sub [of w "long_div w k"] d lt le by simp
qed

lemma watermark_loop_bound:
  assumes "watermark_loop c nr ks f mn" "0 \<le> sint mn" "sint mn < sint f"
    "\<forall>k\<in>set ks. 0 \<le> sint (push_bit k (nr k))"
  shows "sint mn div 2 ^ (min_free_order_shift c * length ks) < sint f - (\<Sum>k\<leftarrow>ks. sint (push_bit k (nr k)))"
  using assms
proof (induction ks arbitrary: f mn)
  case (Cons k ks)
  let ?f = "f - push_bit k (nr k)" and ?mn = "signed_drop_bit (min_free_order_shift c) mn"
  have "sint (push_bit k (nr k)) < 2 ^ 63" "sint f < 2 ^ 63"
    using sint_lt [of "push_bit k (nr k)"] sint_lt [of f] by simp_all
  then have f: "sint ?f = sint f - sint (push_bit k (nr k))" using Cons.prems(2-4) by (intro sint_sub) auto
  have mn: "sint ?mn = sint mn div 2 ^ min_free_order_shift c" by (simp add: sint_signed_drop_bit_eq drop_bit_eq_div)
  have "0 \<le> sint ?mn" using Cons.prems(2) mn by (simp add: pos_imp_zdiv_nonneg_iff)
  moreover have "watermark_loop c nr ks ?f ?mn" "sint ?mn < sint ?f"
    using Cons.prems(1) by (simp_all add: Let_def split: if_splits)
  ultimately have "sint ?mn div 2 ^ (min_free_order_shift c * length ks) < sint ?f - (\<Sum>k\<leftarrow>ks. sint (push_bit k (nr k)))"
    using Cons.IH Cons.prems(4) by simp
  then show ?case unfolding f mn by (simp add: zdiv_zmult2_eq [symmetric] power_add algebra_simps)
qed simp

text \<open>The mark as the flags lower it.\<close>

definition flagged_mark :: "bd_config \<Rightarrow> nat \<Rightarrow> int \<Rightarrow> int" where
  "flagged_mark c flags mark =
     (let mn = (if flags AND ALLOC_HIGH c \<noteq> 0 then mark - mark div 2 else mark) in
      if flags AND ALLOC_HARDER c \<noteq> 0 then mn - mn div 4 else mn)"

lemma watermark_bound:
  assumes "do_zone_watermark_ok c z order mark ci flags v" "uint mark + uint (zn_lowmem_reserve z ci) < 2 ^ 63"
    "0 \<le> sint v" "order < 31" "\<forall>k<order. 0 \<le> sint (push_bit k (zn_nr_free z k))"
  shows "flagged_mark c flags (uint mark) div 2 ^ (min_free_order_shift c * order) <
    sint v - (2 ^ order - 1) - (\<Sum>k<order. sint (push_bit k (zn_nr_free z k)))"
proof -
  define a where "a = (if flags AND ALLOC_HIGH c \<noteq> 0 then mark - long_div mark 2 else mark)"
  define mn where "mn = (if flags AND ALLOC_HARDER c \<noteq> 0 then a - long_div a 4 else a)"
  define f where "f = v - (push_bit order 1 - 1)"
  have m: "sint mark = uint mark" "sint (zn_lowmem_reserve z ci) = uint (zn_lowmem_reserve z ci)"
    using assms(2) uint_ge_0 [of mark] uint_ge_0 [of "zn_lowmem_reserve z ci"] by (intro long_of_small; linarith)+
  have m0: "0 \<le> sint mark" using m by simp
  have a: "sint a = (if flags AND ALLOC_HIGH c \<noteq> 0 then uint mark - uint mark div 2 else uint mark)"
    "0 \<le> sint a" "sint a \<le> uint mark"
    using sint_long_div [OF m0, of 2] m by (auto simp: a_def)
  have mn: "sint mn = flagged_mark c flags (uint mark)" "0 \<le> sint mn" "sint mn \<le> uint mark"
    using sint_long_div [OF a(2), of 4] a(2,3) unfolding mn_def flagged_mark_def Let_def a(1) [symmetric] by auto
  have sum: "sint (mn + zn_lowmem_reserve z ci) = sint mn + uint (zn_lowmem_reserve z ci)"
    using mn(2,3) assms(2) m(2) sint_add [of mn "zn_lowmem_reserve z ci"] uint_ge_0 [of "zn_lowmem_reserve z ci"] by linarith
  have p: "(2::int) ^ order < 2 ^ 31" using assms(4) by (intro power_strict_increasing) simp_all
  have "sint (push_bit order 1 - 1 :: 64 word) = 2 ^ order - 1"
  proof (rule sintI)
    have "0 \<le> (2::int) ^ order - 1" by simp
    then show "- (2 ^ 63) \<le> (2::int) ^ order - 1" by (rule order_trans [rotated]) simp
  qed (use p in \<open>simp_all add: push_bit_eq_mult\<close>)
  moreover have "- (2 ^ 63) \<le> sint v - (2 ^ order - 1)" "sint v - (2 ^ order - 1) < 2 ^ 63"
  proof -
    have "sint v < 2 ^ 63" "(1::int) \<le> 2 ^ order" using sint_lt [of v] by simp_all
    moreover have "(2::int) ^ 31 \<le> 2 ^ 63" by simp
    ultimately show "- (2 ^ 63) \<le> sint v - (2 ^ order - 1)" "sint v - (2 ^ order - 1) < 2 ^ 63"
      using assms(3) p by linarith+
  qed
  ultimately have fv: "sint f = sint v - (2 ^ order - 1)" unfolding f_def by (simp only: sint_sub)
  have t: "sint mn + uint (zn_lowmem_reserve z ci) < sint f" "watermark_loop c (zn_nr_free z) [0..<order] f mn"
    using assms(1) sum unfolding do_zone_watermark_ok_def Let_def f_def [symmetric] a_def [symmetric] mn_def [symmetric]
    by (simp_all split: if_splits)
  have "sint mn < sint f" using t(1) uint_ge_0 [of "zn_lowmem_reserve z ci"] by linarith
  from watermark_loop_bound [OF t(2) mn(2) this] assms(5)
  show ?thesis unfolding mn(1) fv by (simp add: interv_sum_list_conv_sum_set_nat atLeast0LessThan)
qed

lemma free_area_sint:
  assumes z: "bd_ok c z" "zn_spanned z < 2 ^ 62" and k: "k < MAX_ORDER c"
  shows "sint (push_bit k (zn_nr_free z k)) = int (card {p. (p, k) \<in> fblocks z} * 2 ^ k)"
proof -
  let ?n = "\<lambda>k. card {p. (p, k) \<in> fblocks z} * 2 ^ k"
  have "?n k \<le> (\<Sum>k<MAX_ORDER c. ?n k)" by (rule member_le_sum) (use k in simp_all)
  also have "\<dots> = card (free_set z)" by (rule free_pages_by_order [OF z(1), symmetric])
  also have "\<dots> \<le> card (zspan z)" using free_set_finite(2) [OF z(1)] by (intro card_mono) (simp_all add: zspan_def)
  finally have le: "?n k < 2 ^ 62" using z(2) by (simp add: zspan_def)
  have "zn_nr_free z k = word_of_int (int (card {p. (p, k) \<in> fblocks z}))"
    unfolding nr_free_card [OF z(1) less_trans [OF z(2)], of k, simplified, symmetric] by simp
  then have "push_bit k (zn_nr_free z k) = word_of_int (int (?n k))" by (simp add: push_bit_eq_mult)
  then show ?thesis
  proof (rule sintI)
    show "- (2 ^ 63) \<le> int (?n k)" by (rule order_trans [of _ 0]) simp_all
    have "int (?n k) < int (2 ^ 62)" using le by (simp only: of_nat_less_iff)
    then show "int (?n k) < 2 ^ 63" by (rule less_le_trans) simp
  qed
qed

text \<open>
  A zone that passes the test has a block of the order or larger, if the reading of its counter exceeds the number of free
  pages by at most \<^verbatim>\<open>drift\<close>, which the mark left in the last round of the loop has to cover.
\<close>

lemma watermark_high_blocks:
  assumes z: "bd_ok c z" "zn_spanned z < 2 ^ 62" and o: "order < MAX_ORDER c" "MAX_ORDER c \<le> 31"
    and v: "0 \<le> sint v" "sint v \<le> int (card (free_set z)) + drift"
    and d: "drift < 2 ^ order + flagged_mark c flags (uint mark) div 2 ^ (min_free_order_shift c * order)"
    and w: "do_zone_watermark_ok c z order mark ci flags v" "uint mark + uint (zn_lowmem_reserve z ci) < 2 ^ 63"
  shows "\<exists>j p. order \<le> j \<and> j < MAX_ORDER c \<and> (p, j) \<in> fblocks z"
proof (rule ccontr)
  assume no: "\<not> ?thesis"
  let ?n = "\<lambda>k. sint (push_bit k (zn_nr_free z k))"
  have n: "?n k = int (card {p. (p, k) \<in> fblocks z} * 2 ^ k)" if "k < MAX_ORDER c" for k
    by (rule free_area_sint [OF z that])
  have "(\<Sum>k<order. ?n k) = (\<Sum>k<MAX_ORDER c. ?n k)"
  proof (rule sum.mono_neutral_left)
    have "{p. (p, k) \<in> fblocks z} = {}" if "k \<in> {..<MAX_ORDER c} - {..<order}" for k using no that by auto
    then show "\<forall>k\<in>{..<MAX_ORDER c} - {..<order}. ?n k = 0" using n by simp
  qed (use o in auto)
  also have "\<dots> = int (card (free_set z))" unfolding free_pages_by_order [OF z(1)] of_nat_sum by (rule sum.cong) (simp_all only: n lessThan_iff)
  finally have "flagged_mark c flags (uint mark) div 2 ^ (min_free_order_shift c * order) <
      sint v - (2 ^ order - 1) - int (card (free_set z))"
    using watermark_bound [OF w v(1)] o n by simp
  then show False using v(2) d by linarith
qed

section \<open>Returning pages to the zone\<close>

definition returned :: "bd_config \<Rightarrow> zone \<Rightarrow> nat set \<Rightarrow> zone \<Rightarrow> bool" where
  "returned c z P z' \<longleftrightarrow> bd_ok c z' \<and> zspan z' = zspan z \<and> zn_spanned z' = zn_spanned z \<and>
     free_set z' = free_set z \<union> P \<and> zn_free_pages z' = zn_free_pages z + int (card P)"

lemma returned_none: "bd_ok c z \<Longrightarrow> returned c z {} z"
  by (simp add: returned_def)

lemma returned_trans:
  "returned c z P z' \<Longrightarrow> returned c z' Q z'' \<Longrightarrow> P \<inter> Q = {} \<Longrightarrow> finite P \<Longrightarrow> finite Q \<Longrightarrow> returned c z (P \<union> Q) z''"
  by (auto simp: returned_def card_Un_disjoint)

lemma bd_ok_fields:
  "bd_ok c (mod_free_pages n z) \<longleftrightarrow> bd_ok c z" "free_set (mod_free_pages n z) = free_set z"
  "bd_ok c (z\<lparr>zn_all_unreclaimable := b, zn_pages_scanned := s\<rparr>) \<longleftrightarrow> bd_ok c z"
  "free_set (z\<lparr>zn_all_unreclaimable := b, zn_pages_scanned := s\<rparr>) = free_set z"
  by (simp_all add: bd_ok_def bd_zone_ok_def bd_lists_ok_def page_listed_def on_lists_def bd_counts_ok_def
      fblocks_def zspan_def free_set_def mod_free_pages_def)

lemma zone_fields:
  "zspan (mod_free_pages n z) = zspan z" "zn_spanned (mod_free_pages n z) = zn_spanned z"
  "zn_free_pages (mod_free_pages n z) = zn_free_pages z + n"
  "zspan (z\<lparr>zn_all_unreclaimable := b, zn_pages_scanned := s\<rparr>) = zspan z"
  by (simp_all add: mod_free_pages_def zspan_def)

lemma returned_block:
  assumes "bd_ok c z" "order < MAX_ORDER c" "2 ^ order dvd p" "blk p order \<subseteq> zspan z"
    "blk p order \<inter> free_set z = {}" "m < MIGRATE_TYPES"
  shows "\<exists>z'. do_free_one_page c p order m z = Some z' \<and> returned c z (blk p order) (mod_free_pages (2 ^ order) z')"
proof -
  obtain z' where z': "do_free_one_page c p order m z = Some z'" "free_done c order z p z'"
    using do_free_ok [OF assms] by blast
  have "zspan z' = zspan z" "zn_spanned z' = zn_spanned z" "zn_free_pages z' = zn_free_pages z"
    using z'(2) zspan_frame [of z z'] by (simp_all add: free_done_def zone_frame_def)
  then have "returned c z (blk p order) (mod_free_pages (2 ^ order) z')"
    using z'(2) by (simp add: returned_def free_done_def bd_ok_fields zone_fields Un_commute)
  then show ?thesis using z'(1) by blast
qed

lemma returned_page:
  assumes "bd_ok c z" "0 < MAX_ORDER c" "p \<in> zspan z" "p \<notin> free_set z" "m < MIGRATE_TYPES"
  shows "\<exists>z'. do_free_one_page c p 0 m z = Some z' \<and> returned c z {p} (mod_free_pages 1 z')"
proof -
  have "blk p 0 = {p}" by (auto simp: blk_def)
  then show ?thesis using returned_block [OF assms(1,2) _ _ _ assms(5), of p] assms(3,4) by simp
qed

section \<open>The lists of one processor\<close>

definition pcp_total :: "(nat \<Rightarrow> nat list) \<Rightarrow> nat" where
  "pcp_total pls = length (pls 0) + length (pls 1) + length (pls 2)"

definition pcp_set :: "(nat \<Rightarrow> nat list) \<Rightarrow> nat set" where
  "pcp_set pls = set (pls 0) \<union> set (pls 1) \<union> set (pls 2)"

definition pcp_lists_ok :: "zone \<Rightarrow> (nat \<Rightarrow> nat list) \<Rightarrow> bool" where
  "pcp_lists_ok z pls \<longleftrightarrow> distinct (pls 0 @ pls 1 @ pls 2) \<and> pcp_set pls \<subseteq> zspan z - free_set z"

lemma less_PCPTYPES: "m < MIGRATE_PCPTYPES \<longleftrightarrow> m = 0 \<or> m = 1 \<or> m = 2"
  by auto

lemma free_pcp_list_ok:
  assumes "0 < MAX_ORDER c" "bd_ok c z" "pages \<noteq> []" "distinct pages" "set pages \<subseteq> zspan z - free_set z" "0 < n"
  shows "\<exists>f b' z'. free_pcp_list c n b pages z = Some (n - f, b', take (length pages - f) pages, z') \<and>
     0 < f \<and> f \<le> n \<and> f \<le> length pages \<and> returned c z (set (drop (length pages - f) pages)) z'"
  using assms(2-)
proof (induction pages arbitrary: n b z rule: rev_induct)
  case (snoc p ps)
  have m: "pg_migratetype z p < MIGRATE_TYPES" using bd_okD(1) [OF snoc.prems(1)] by (simp add: bd_zone_ok_def)
  obtain z1 where z1: "do_free_one_page c p 0 (pg_migratetype z p) z = Some z1" "returned c z {p} (mod_free_pages 1 z1)"
    using returned_page [OF snoc.prems(1) assms(1) _ _ m] snoc.prems(4) by auto
  let ?z = "mod_free_pages 1 z1"
  show ?case
  proof (cases "n - 1 = 0 \<or> b - 1 = 0 \<or> ps = []")
    case True
    then have "\<exists>b'. free_pcp_list c n b (ps @ [p]) z = Some (n - 1, b', ps, ?z)"
      using z1(1) by (subst free_pcp_list.simps) (auto simp: Let_def)
    then obtain b' where r: "free_pcp_list c n b (ps @ [p]) z = Some (n - 1, b', ps, ?z)" by blast
    show ?thesis by (rule exI [of _ 1], rule exI [of _ b'], rule exI [of _ ?z]) (use r snoc.prems(5) z1(2) in auto)
  next
    case False
    then have run: "free_pcp_list c n b (ps @ [p]) z = free_pcp_list c (n - 1) (b - 1) ps ?z"
      using z1(1) by (subst free_pcp_list.simps) (auto simp: Let_def)
    have ok: "bd_ok c ?z" "set ps \<subseteq> zspan ?z - free_set ?z" "ps \<noteq> []" "distinct ps" "0 < n - 1"
      using z1(2) snoc.prems(3,4) False by (auto simp: returned_def)
    from snoc.IH [OF ok(1,3,4,2,5), of "b - 1"] obtain f b' z' where
      r: "free_pcp_list c (n - 1) (b - 1) ps ?z = Some (n - 1 - f, b', take (length ps - f) ps, z')"
        "0 < f" "f \<le> n - 1" "f \<le> length ps" "returned c ?z (set (drop (length ps - f) ps)) z'" by blast
    have "p \<notin> set (drop (length ps - f) ps)" using snoc.prems(3) by (auto dest: in_set_dropD)
    then have "returned c z (insert p (set (drop (length ps - f) ps))) z'"
      using returned_trans [OF z1(2) r(5)] by simp
    then show ?thesis unfolding run
      by (intro exI [of _ "Suc f"] exI [of _ b'] exI [of _ z']) (use r in simp)
  qed
qed simp

lemma next_pcp_list_ok:
  assumes "m < MIGRATE_PCPTYPES" "pcp_total pls \<noteq> 0"
  shows "\<exists>m' b'. next_pcp_list pls m b = Some (m', b') \<and> m' < MIGRATE_PCPTYPES \<and> pls m' \<noteq> []"
proof -
  have step: "next_pcp_list pls m b = (let m' = (if m + 1 = 3 then 0 else m + 1) in
      if pls m' = [] then next_pcp_list pls m' (b + 1) else Some (m', b + 1))" for m b
    by (subst next_pcp_list.simps) (simp add: Let_def)
  have s: "next_pcp_list pls 0 b = (if pls 1 = [] then next_pcp_list pls 1 (b + 1) else Some (1, b + 1))"
    "next_pcp_list pls 1 b = (if pls 2 = [] then next_pcp_list pls 2 (b + 1) else Some (2, b + 1))"
    "next_pcp_list pls 2 b = (if pls 0 = [] then next_pcp_list pls 0 (b + 1) else Some (0, b + 1))" for b
    using step [of 0 b] step [of 1 b] step [of 2 b] by (simp_all add: numeral_2_eq_2)
  have "pls 0 \<noteq> [] \<or> pls 1 \<noteq> [] \<or> pls 2 \<noteq> []" using assms(2) by (auto simp: pcp_total_def)
  with assms(1) show ?thesis unfolding less_PCPTYPES by (elim disjE; simp add: s del: One_nat_def)
qed

lemma next_pcp_list_hangs:
  assumes "pcp_total pls = 0" "m < MIGRATE_PCPTYPES"
  shows "next_pcp_list pls m b = None"
proof (rule ccontr)
  assume "next_pcp_list pls m b \<noteq> None"
  then obtain y where r: "next_pcp_list pls m b = Some y" by auto
  have "m < MIGRATE_PCPTYPES \<longrightarrow> pcp_total pls \<noteq> 0"
  proof (rule next_pcp_list.raw_induct [of "\<lambda>pls m b y. m < MIGRATE_PCPTYPES \<longrightarrow> pcp_total pls \<noteq> 0", OF _ r])
    fix g and pls :: "nat \<Rightarrow> nat list" and m b :: nat and y :: "nat \<times> nat"
    assume IH: "\<And>pls m b y. g pls m b = Some y \<Longrightarrow> m < MIGRATE_PCPTYPES \<longrightarrow> pcp_total pls \<noteq> 0"
      and e: "(let b = b + 1; m = if m + 1 = MIGRATE_PCPTYPES then 0 else m + 1 in
        if pls m = [] then g pls m b else Some (m, b)) = Some y"
    define m' where "m' = (if m + 1 = MIGRATE_PCPTYPES then 0 else m + 1)"
    have "m' < MIGRATE_PCPTYPES" if "m < MIGRATE_PCPTYPES" using that by (auto simp: m'_def)
    moreover have "pcp_total pls \<noteq> 0" if "m' < MIGRATE_PCPTYPES" "pls m' \<noteq> []"
      using that(2) that(1) [unfolded less_PCPTYPES] by (auto simp: pcp_total_def)
    ultimately show "m < MIGRATE_PCPTYPES \<longrightarrow> pcp_total pls \<noteq> 0"
      using IH e unfolding Let_def m'_def [symmetric] by (metis (full_types))
  qed
  then show False using assms by simp
qed

lemma pcp_pages:
  assumes "pcp_lists_ok z pls" "m < MIGRATE_PCPTYPES"
  shows "distinct (pls m)" "set (pls m) \<subseteq> zspan z - free_set z" "length (pls m) \<le> pcp_total pls"
  using assms(1) assms(2) [unfolded less_PCPTYPES] by (auto simp: pcp_lists_ok_def pcp_set_def pcp_total_def)

lemma pcp_shorten:
  assumes "pcp_lists_ok z pls" "m < MIGRATE_PCPTYPES" "f \<le> length (pls m)"
  shows "pcp_total (pls(m := take (length (pls m) - f) (pls m))) = pcp_total pls - f"
    "pcp_set (pls(m := take (length (pls m) - f) (pls m))) = pcp_set pls - set (drop (length (pls m) - f) (pls m))"
    "set (drop (length (pls m) - f) (pls m)) \<subseteq> pcp_set pls"
    "distinct ((pls(m := take (length (pls m) - f) (pls m))) 0 @ (pls(m := take (length (pls m) - f) (pls m))) 1 @
       (pls(m := take (length (pls m) - f) (pls m))) 2)"
proof -
  define xs ys where "xs = take (length (pls m) - f) (pls m)" and "ys = drop (length (pls m) - f) (pls m)"
  have m: "pls m = xs @ ys" "length ys = f" using assms(3) by (simp_all add: xs_def ys_def)
  have d: "distinct (pls 0 @ pls 1 @ pls 2)" using assms(1) by (simp add: pcp_lists_ok_def)
  show "pcp_total (pls(m := xs)) = pcp_total pls - f"
    using m assms(2) [unfolded less_PCPTYPES] by (auto simp: pcp_total_def)
  show "pcp_set (pls(m := xs)) = pcp_set pls - set ys"
    using m d assms(2) [unfolded less_PCPTYPES] by (auto simp: pcp_set_def)
  show "set ys \<subseteq> pcp_set pls" using m assms(2) [unfolded less_PCPTYPES] by (auto simp: pcp_set_def)
  show "distinct ((pls(m := xs)) 0 @ (pls(m := xs)) 1 @ (pls(m := xs)) 2)"
    using m d assms(2) [unfolded less_PCPTYPES] by auto
qed

lemma free_pcp_step:
  assumes "0 < MAX_ORDER c" "bd_ok c z" "pcp_lists_ok z pls" "pcp_total pls \<noteq> 0" "0 < n" "m < MIGRATE_PCPTYPES"
  obtains f m' b' z' where "0 < f" "f \<le> n" "m' < MIGRATE_PCPTYPES" "f \<le> length (pls m')"
    "free_pcp_loop c n m b pls z =
       free_pcp_loop c (n - f) m' b' (pls(m' := take (length (pls m') - f) (pls m'))) z'"
    "returned c z (set (drop (length (pls m') - f) (pls m'))) z'"
    "pcp_lists_ok z' (pls(m' := take (length (pls m') - f) (pls m')))"
proof -
  obtain m' b0 where nx: "next_pcp_list pls m b = Some (m', b0)" "m' < MIGRATE_PCPTYPES" "pls m' \<noteq> []"
    using next_pcp_list_ok [OF assms(6,4)] by blast
  define b1 where "b1 = (if b0 = MIGRATE_PCPTYPES then n else b0)"
  note pp = pcp_pages [OF assms(3) nx(2)]
  from free_pcp_list_ok [OF assms(1,2) nx(3) pp(1,2) assms(5), of b1] obtain f b' z' where
    r: "free_pcp_list c n b1 (pls m') z = Some (n - f, b', take (length (pls m') - f) (pls m'), z')"
      "0 < f" "f \<le> n" "f \<le> length (pls m')" "returned c z (set (drop (length (pls m') - f) (pls m'))) z'"
    by blast
  let ?p = "pls(m' := take (length (pls m') - f) (pls m'))"
  have run: "free_pcp_loop c n m b pls z = free_pcp_loop c (n - f) m' b' ?p z'"
    using assms(5) nx(1) r(1) by (subst free_pcp_loop.simps) (simp add: b1_def)
  note sh = pcp_shorten [OF assms(3) nx(2) r(4)]
  have "pcp_set ?p \<subseteq> zspan z' - free_set z'"
    using sh(2) assms(3) r(5) unfolding pcp_lists_ok_def returned_def by blast
  then have "pcp_lists_ok z' ?p" using sh(4) unfolding pcp_lists_ok_def by blast
  then show thesis by (rule that [OF r(2,3) nx(2) r(4) run r(5)])
qed

text \<open>The loop returns exactly when the lists hold as many pages as are to be freed.\<close>

lemma free_pcp_loop_ok:
  assumes "0 < MAX_ORDER c" "bd_ok c z" "pcp_lists_ok z pls" "n \<le> pcp_total pls" "m < MIGRATE_PCPTYPES"
  shows "\<exists>pls' z'. free_pcp_loop c n m b pls z = Some (pls', z') \<and> pcp_total pls' = pcp_total pls - n \<and>
     pcp_set pls' \<subseteq> pcp_set pls \<and> pcp_lists_ok z' pls' \<and> returned c z (pcp_set pls - pcp_set pls') z'"
  using assms(2-)
proof (induction n arbitrary: m b pls z rule: less_induct)
  case (less n)
  show ?case
  proof (cases "n = 0")
    case True
    then show ?thesis using less.prems(1,2) returned_none by (subst (1) free_pcp_loop.simps) auto
  next
    case False
    then have "pcp_total pls \<noteq> 0" "0 < n" using less.prems(3) by auto
    from free_pcp_step [OF assms(1) less.prems(1,2) this less.prems(4), of b] obtain f m' b' z' where
      st: "0 < f" "f \<le> n" "m' < MIGRATE_PCPTYPES" "f \<le> length (pls m')"
        "free_pcp_loop c n m b pls z =
         free_pcp_loop c (n - f) m' b' (pls(m' := take (length (pls m') - f) (pls m'))) z'"
        "returned c z (set (drop (length (pls m') - f) (pls m'))) z'"
        "pcp_lists_ok z' (pls(m' := take (length (pls m') - f) (pls m')))" by blast
    define D where "D = set (drop (length (pls m') - f) (pls m'))"
    define P where "P = pls(m' := take (length (pls m') - f) (pls m'))"
    note sh = pcp_shorten(1-3) [OF less.prems(2) st(3,4), folded P_def D_def]
    have lt: "n - f < n" "n - f \<le> pcp_total P" using st(1,2) less.prems(3) sh(1) by simp_all
    have zok: "bd_ok c z'" using st(6) by (simp add: returned_def)
    from less.IH [OF lt(1) zok st(7) [folded P_def] lt(2) st(3), of b'] obtain pls' z'' where
      r: "free_pcp_loop c (n - f) m' b' P z' = Some (pls', z'')" "pcp_total pls' = pcp_total P - (n - f)"
        "pcp_set pls' \<subseteq> pcp_set P" "pcp_lists_ok z'' pls'" "returned c z' (pcp_set P - pcp_set pls') z''" by blast
    have fin: "finite (pcp_set P)" "finite D" by (simp_all add: pcp_set_def D_def)
    have "D \<inter> (pcp_set P - pcp_set pls') = {}" using sh(2) by blast
    from returned_trans [OF st(6) [folded D_def] r(5) this] fin
    have "returned c z (D \<union> (pcp_set P - pcp_set pls')) z''" by simp
    moreover have "D \<union> (pcp_set P - pcp_set pls') = pcp_set pls - pcp_set pls'"
      using sh(2,3) r(3) by blast
    moreover have "pcp_total pls' = pcp_total pls - n" using r(2) sh(1) st(2) by simp
    ultimately show ?thesis using r sh(2) st(5) [folded P_def] by auto
  qed
qed

lemma free_pcp_loop_hangs:
  assumes "0 < MAX_ORDER c" "bd_ok c z" "pcp_lists_ok z pls" "pcp_total pls < n" "m < MIGRATE_PCPTYPES"
  shows "free_pcp_loop c n m b pls z = None"
  using assms(2-)
proof (induction n arbitrary: m b pls z rule: less_induct)
  case (less n)
  then have n: "0 < n" by simp
  show ?case
  proof (cases "pcp_total pls = 0")
    case True
    then show ?thesis using n next_pcp_list_hangs [OF True less.prems(4)] by (subst free_pcp_loop.simps) simp
  next
    case False
    from free_pcp_step [OF assms(1) less.prems(1,2) False n less.prems(4), of b] obtain f m' b' z' where
      st: "0 < f" "f \<le> n" "m' < MIGRATE_PCPTYPES" "f \<le> length (pls m')"
        "free_pcp_loop c n m b pls z =
         free_pcp_loop c (n - f) m' b' (pls(m' := take (length (pls m') - f) (pls m'))) z'"
        "returned c z (set (drop (length (pls m') - f) (pls m'))) z'"
        "pcp_lists_ok z' (pls(m' := take (length (pls m') - f) (pls m')))" by blast
    have "n - f < n" "pcp_total (pls(m' := take (length (pls m') - f) (pls m'))) < n - f" "bd_ok c z'"
      using st(1,2,4,6) less.prems(3) pcp_shorten(1) [OF less.prems(2) st(3,4)] pcp_pages(3) [OF less.prems(2) st(3)]
      by (simp_all add: returned_def)
    then show ?thesis unfolding st(5) using less.IH st(3,7) by blast
  qed
qed

end
