(* ===== verification/Buddy_Cache.thy ===== *)
theory Buddy_Cache
  imports Buddy_Pcp
begin

text \<open>
  The page allocator as its callers see it: the buddy lists of a zone behind the lists of a processor.
\<close>

section \<open>Freeing through the lists of a processor\<close>

definition cache_ok :: "bd_config \<Rightarrow> per_cpu_pages \<Rightarrow> zone \<Rightarrow> bool" where
  "cache_ok c pcp z \<longleftrightarrow> 0 < MAX_ORDER c \<and> bd_ok c z \<and> pcp_lists_ok z (pcp_lists pcp) \<and>
     pcp_count pcp = int (pcp_total (pcp_lists pcp)) \<and> 1 \<le> pcp_batch pcp \<and>
     int (pcp_batch pcp) \<le> max 1 (pcp_high pcp) \<and> zn_free_pages z = int (card (free_set z))"

definition avail :: "per_cpu_pages \<Rightarrow> zone \<Rightarrow> nat set" where
  "avail pcp z = free_set z \<union> pcp_set (pcp_lists pcp)"

lemma cache_okD:
  assumes "cache_ok c pcp z"
  shows "0 < MAX_ORDER c" "bd_ok c z" "pcp_lists_ok z (pcp_lists pcp)"
    "pcp_count pcp = int (pcp_total (pcp_lists pcp))" "1 \<le> pcp_batch pcp"
    "int (pcp_batch pcp) \<le> max 1 (pcp_high pcp)" "zn_free_pages z = int (card (free_set z))"
  using assms by (simp_all add: cache_ok_def)

lemma returned_count:
  assumes "returned c z P z'" "bd_ok c z" "zn_free_pages z = int (card (free_set z))" "P \<inter> free_set z = {}" "finite P"
  shows "zn_free_pages z' = int (card (free_set z'))"
  using assms free_set_finite(1) [OF assms(2)]
  by (simp add: returned_def card_Un_disjoint Int_commute)

lemma bulk_ok:
  assumes "0 < MAX_ORDER c" "bd_ok c z" "pcp_lists_ok z (pcp_lists pcp)" "n \<le> pcp_total (pcp_lists pcp)"
  shows "\<exists>pls' z'. free_pcppages_bulk c n pcp z = Some (pcp\<lparr>pcp_lists := pls'\<rparr>, z') \<and>
     pcp_total pls' = pcp_total (pcp_lists pcp) - n \<and> pcp_set pls' \<subseteq> pcp_set (pcp_lists pcp) \<and>
     pcp_lists_ok z' pls' \<and> returned c z (pcp_set (pcp_lists pcp) - pcp_set pls') z'"
proof -
  let ?z = "z\<lparr>zn_all_unreclaimable := False, zn_pages_scanned := 0\<rparr>"
  have "bd_ok c ?z" "pcp_lists_ok ?z (pcp_lists pcp)"
    using assms(2,3) by (simp_all add: bd_ok_fields pcp_lists_ok_def zone_fields)
  from free_pcp_loop_ok [OF assms(1) this assms(4), of 0 0] show ?thesis
    by (auto simp: free_pcppages_bulk_def returned_def bd_ok_fields zone_fields)
qed

lemma bulk_hangs:
  assumes "0 < MAX_ORDER c" "bd_ok c z" "pcp_lists_ok z (pcp_lists pcp)" "pcp_total (pcp_lists pcp) < n"
  shows "free_pcppages_bulk c n pcp z = None"
proof -
  let ?z = "z\<lparr>zn_all_unreclaimable := False, zn_pages_scanned := 0\<rparr>"
  have "bd_ok c ?z" "pcp_lists_ok ?z (pcp_lists pcp)"
    using assms(2,3) by (simp_all add: bd_ok_fields pcp_lists_ok_def zone_fields)
  from free_pcp_loop_hangs [OF assms(1) this assms(4), of 0 0] show ?thesis
    by (simp add: free_pcppages_bulk_def)
qed

lemma pcp_add:
  assumes "pcp_lists_ok z pls" "m < MIGRATE_PCPTYPES" "p \<in> zspan z" "p \<notin> free_set z" "p \<notin> pcp_set pls"
    and "xs = p # pls m \<or> xs = pls m @ [p]"
  shows "pcp_lists_ok z (pls(m := xs))" "pcp_set (pls(m := xs)) = insert p (pcp_set pls)"
    "pcp_total (pls(m := xs)) = Suc (pcp_total pls)"
  using assms(1,3-6) assms(2) [unfolded less_PCPTYPES]
  by (auto simp: pcp_lists_ok_def pcp_set_def pcp_total_def)

lemma freepage_type_ok:
  assumes "bd_ok c z" "m < MIGRATE_TYPES"
  shows "bd_ok c (set_freepage_migratetype p m z)" "free_set (set_freepage_migratetype p m z) = free_set z"
    "zspan (set_freepage_migratetype p m z) = zspan z"
    "zn_free_pages (set_freepage_migratetype p m z) = zn_free_pages z"
    "zn_spanned (set_freepage_migratetype p m z) = zn_spanned z"
proof -
  let ?z = "set_freepage_migratetype p m z"
  have "?z = z\<lparr>zn_list := zn_list z, zn_block := zn_block z, pg_migratetype := pg_migratetype ?z\<rparr>"
    by (simp add: set_freepage_migratetype_def)
  moreover have "bd_zone_ok c ?z" using bd_okD(1) [OF assms(1)] assms(2)
    by (simp add: bd_zone_ok_def set_freepage_migratetype_def zspan_def)
  moreover have "bd_lists_ok ?z" using bd_okD(2) [OF assms(1)]
    by (simp add: bd_lists_ok_def page_listed_def on_lists_def set_freepage_migratetype_def)
  ultimately have "regrouped c z ?z" unfolding regrouped_def by blast
  then show "bd_ok c ?z" "free_set ?z = free_set z" using regrouped_ok [OF assms(1)] by blast+
  show "zspan ?z = zspan z" "zn_free_pages ?z = zn_free_pages z" "zn_spanned ?z = zn_spanned z"
    by (simp_all add: set_freepage_migratetype_def zspan_def)
qed

definition freed_to :: "bd_config \<Rightarrow> per_cpu_pages \<Rightarrow> zone \<Rightarrow> nat set \<Rightarrow> per_cpu_pages \<Rightarrow> zone \<Rightarrow> bool" where
  "freed_to c pcp z P pcp' z' \<longleftrightarrow> cache_ok c pcp' z' \<and> zspan z' = zspan z \<and>
     pcp_high pcp' = pcp_high pcp \<and> pcp_batch pcp' = pcp_batch pcp \<and> avail pcp' z' = avail pcp z \<union> P"

lemma bulk_cache:
  assumes "0 < MAX_ORDER c" "bd_ok c z" "pcp_lists_ok z (pcp_lists pcp)"
    "pcp_count pcp = int (pcp_total (pcp_lists pcp))" "1 \<le> pcp_batch pcp" "int (pcp_batch pcp) \<le> max 1 (pcp_high pcp)"
    "zn_free_pages z = int (card (free_set z))" "n \<le> pcp_total (pcp_lists pcp)"
  shows "\<exists>pcp' z'. free_pcppages_bulk c n pcp z = Some (pcp', z') \<and>
     freed_to c pcp z {} (pcp'\<lparr>pcp_count := pcp_count pcp' - int n\<rparr>) z' \<and>
     pcp_count pcp' = pcp_count pcp \<and> pcp_batch pcp' = pcp_batch pcp"
proof -
  from bulk_ok [OF assms(1-3,8)] obtain pls' z' where
    r: "free_pcppages_bulk c n pcp z = Some (pcp\<lparr>pcp_lists := pls'\<rparr>, z')"
      "pcp_total pls' = pcp_total (pcp_lists pcp) - n" "pcp_set pls' \<subseteq> pcp_set (pcp_lists pcp)"
      "pcp_lists_ok z' pls'" "returned c z (pcp_set (pcp_lists pcp) - pcp_set pls') z'" by blast
  have fin: "finite (pcp_set (pcp_lists pcp) - pcp_set pls')" by (simp add: pcp_set_def)
  have dj: "(pcp_set (pcp_lists pcp) - pcp_set pls') \<inter> free_set z = {}"
    using assms(3) by (auto simp: pcp_lists_ok_def)
  have "zn_free_pages z' = int (card (free_set z'))" by (rule returned_count [OF r(5) assms(2,7) dj fin])
  moreover have "bd_ok c z'" "zspan z' = zspan z" "free_set z' \<union> pcp_set pls' = free_set z \<union> pcp_set (pcp_lists pcp)"
    using r(3,5) by (auto simp: returned_def)
  ultimately show ?thesis using r(1,2,4) assms by (auto simp: freed_to_def cache_ok_def avail_def)
qed

lemma hot_cold_ok:
  assumes z: "cache_ok c pcp z" and p: "p \<in> zspan z" "p \<notin> avail pcp z" and "prepare p 0"
  shows "\<exists>pcp' z'. free_hot_cold_page c prepare p cold pcp z = Some (pcp', z') \<and> freed_to c pcp z {p} pcp' z'"
proof -
  note d = cache_okD [OF z]
  define mt where "mt = get_pageblock_migratetype c p z"
  define m where "m = (if mt \<ge> MIGRATE_PCPTYPES then MIGRATE_MOVABLE else mt)"
  have mt: "mt < MIGRATE_TYPES" "m < MIGRATE_PCPTYPES"
    using bd_okD(1) [OF d(2)] by (auto simp: mt_def m_def get_pageblock_migratetype_def bd_zone_ok_def)
  let ?z = "set_freepage_migratetype p mt z"
  note ft = freepage_type_ok [OF d(2) mt(1), of p]
  define xs where "xs = (if cold then pcp_lists pcp m @ [p] else p # pcp_lists pcp m)"
  define pcp1 where "pcp1 = pcp\<lparr>pcp_lists := (pcp_lists pcp)(m := xs), pcp_count := pcp_count pcp + 1\<rparr>"
  have p': "p \<notin> free_set z" "p \<notin> pcp_set (pcp_lists pcp)" using p(2) by (auto simp: avail_def)
  have "xs = p # pcp_lists pcp m \<or> xs = pcp_lists pcp m @ [p]" by (simp add: xs_def)
  note ad = pcp_add [OF d(3) mt(2) p(1) p' this]
  have ok: "bd_ok c ?z" "pcp_lists_ok ?z (pcp_lists pcp1)" "pcp_count pcp1 = int (pcp_total (pcp_lists pcp1))"
    "1 \<le> pcp_batch pcp1" "int (pcp_batch pcp1) \<le> max 1 (pcp_high pcp1)" "zn_free_pages ?z = int (card (free_set ?z))"
    "pcp_set (pcp_lists pcp1) = insert p (pcp_set (pcp_lists pcp))" "1 \<le> pcp_total (pcp_lists pcp1)"
    using ft ad d by (simp_all add: pcp1_def pcp_lists_ok_def)
  have run: "free_hot_cold_page c prepare p cold pcp z =
      (if pcp_count pcp1 \<ge> pcp_high pcp1 then
         do { (pcp2, z2) \<leftarrow> free_pcppages_bulk c (pcp_batch pcp1) pcp1 ?z;
              Some (pcp2\<lparr>pcp_count := pcp_count pcp2 - int (pcp_batch pcp2)\<rparr>, z2) }
       else Some (pcp1, ?z))"
    using assms(4) by (simp add: free_hot_cold_page_def Let_def mt_def m_def xs_def pcp1_def)
  have av: "avail pcp1 ?z = insert p (avail pcp z)" "pcp_high pcp1 = pcp_high pcp" "pcp_batch pcp1 = pcp_batch pcp"
    using ok(7) ft(2) by (auto simp: avail_def pcp1_def)
  show ?thesis
  proof (cases "pcp_count pcp1 \<ge> pcp_high pcp1")
    case True
    then have "pcp_batch pcp1 \<le> pcp_total (pcp_lists pcp1)" using ok(3,5,8) by linarith
    from bulk_cache [OF d(1) ok(1-6) this] show ?thesis
      using True av ft(3) unfolding run by (auto simp: freed_to_def)
  next
    case False
    then show ?thesis unfolding run using ok av ft(3) d(1) by (auto simp: freed_to_def cache_ok_def)
  qed
qed

lemma pages_ok_ok:
  assumes z: "cache_ok c pcp z" and "order < MAX_ORDER c" "2 ^ order dvd p" "blk p order \<subseteq> zspan z"
    "blk p order \<inter> avail pcp z = {}" "prepare p order"
  shows "\<exists>z'. free_pages_ok c prepare p order z = Some z' \<and> freed_to c pcp z (blk p order) pcp z'"
proof -
  note d = cache_okD [OF z]
  define mt where "mt = get_pageblock_migratetype c p z"
  have mt: "mt < MIGRATE_TYPES"
    using bd_okD(1) [OF d(2)] by (auto simp: mt_def get_pageblock_migratetype_def bd_zone_ok_def)
  note ft = freepage_type_ok [OF d(2) mt, of p]
  let ?z = "(set_freepage_migratetype p mt z)\<lparr>zn_all_unreclaimable := False, zn_pages_scanned := 0\<rparr>"
  have ok: "bd_ok c ?z" "free_set ?z = free_set z" "zspan ?z = zspan z" "zn_free_pages ?z = zn_free_pages z"
    using ft by (simp_all add: bd_ok_fields zone_fields)
  have dj: "blk p order \<inter> free_set z = {}" "blk p order \<inter> pcp_set (pcp_lists pcp) = {}"
    using assms(5) by (auto simp: avail_def)
  from returned_block [OF ok(1) assms(2,3) _ _ mt] obtain z1 where
    r: "do_free_one_page c p order mt ?z = Some z1" "returned c ?z (blk p order) (mod_free_pages (2 ^ order) z1)"
    using assms(4) dj(1) ok(2,3) by auto
  let ?y = "mod_free_pages (2 ^ order) z1"
  have "zn_free_pages ?y = int (card (free_set ?y))"
    by (rule returned_count [OF r(2) ok(1)]) (use d(7) ok dj in auto)
  moreover have "bd_ok c ?y" "zspan ?y = zspan z" "free_set ?y = free_set z \<union> blk p order"
    using r(2) ok by (simp_all add: returned_def)
  moreover have "pcp_lists_ok ?y (pcp_lists pcp)"
    using d(3) dj(2) calculation(3,4) by (auto simp: pcp_lists_ok_def)
  ultimately have "freed_to c pcp z (blk p order) pcp ?y" using d by (auto simp: freed_to_def cache_ok_def avail_def)
  moreover have "free_pages_ok c prepare p order z = Some ?y"
    using assms(6) r(1) by (simp add: free_pages_ok_def free_one_page_def mt_def Let_def)
  ultimately show ?thesis by blast
qed

lemma free_pages_spec:
  assumes z: "cache_ok c pcp z" and "order < MAX_ORDER c" "2 ^ order dvd p" "blk p order \<subseteq> zspan z"
    "blk p order \<inter> avail pcp z = {}" "testzero p" "prepare p order"
  shows "\<exists>pcp' z'. do_free_pages c testzero prepare p order pcp z = Some (pcp', z') \<and>
     freed_to c pcp z (blk p order) pcp' z'"
proof (cases "order = 0")
  case True
  have b: "blk p 0 = {p}" by (auto simp: blk_def)
  with True show ?thesis using hot_cold_ok [OF z, of p prepare False] assms(4-7)
    by (auto simp: do_free_pages_def)
next
  case False
  then show ?thesis using pages_ok_ok [where prepare = prepare, OF assms(1-5,7)] assms(6) by (auto simp: do_free_pages_def)
qed

section \<open>Allocating through the lists of a processor\<close>

lemma rmqueue_bulk_ok:
  assumes "0 < MAX_ORDER c" "bd_ok c z" "m < MIGRATE_RESERVE"
  shows "\<exists>ps z'. rmqueue_bulk_loop c 0 n m z = Some (ps, z') \<and> bd_ok c z' \<and> zspan z' = zspan z \<and>
     zn_free_pages z' = zn_free_pages z \<and> distinct ps \<and> set ps \<subseteq> free_set z \<and> free_set z' = free_set z - set ps \<and>
     (ps = [] \<longrightarrow> 0 < n \<longrightarrow> z' = z \<and> free_set z = {})"
  using assms(2)
proof (induction n arbitrary: z)
  case (Suc n)
  consider "do_rmqueue c 0 m z = Some (None, z)" "\<forall>j n. 0 \<le> j \<longrightarrow> j < MAX_ORDER c \<longrightarrow> zn_list z j n = []"
    | p z1 where "do_rmqueue c 0 m z = Some (Some p, z1)" "alloc_done c 0 z p z1"
    using do_rmqueue_ok [OF Suc.prems assms(3), of 0] by blast
  then show ?case
  proof cases
    case 1
    have "x \<notin> free_set z" for x
      using no_free_run [OF Suc.prems assms(1) 1(2), of x] by (auto simp: blk_def)
    then show ?thesis using 1(1) Suc.prems by auto
  next
    case 2
    have b: "blk p 0 = {p}" by (auto simp: blk_def)
    then have a: "bd_ok c z1" "zone_frame z z1" "p \<in> free_set z" "free_set z1 = free_set z - {p}"
      using 2(2) by (auto simp: alloc_done_def)
    have m: "m < MIGRATE_TYPES" using assms(3) by simp
    note ft = freepage_type_ok [OF a(1) m, of p]
    from Suc.IH [OF ft(1)] obtain ps z' where
      r: "rmqueue_bulk_loop c 0 n m (set_freepage_migratetype p m z1) = Some (ps, z')" "bd_ok c z'" "zspan z' = zspan z1"
        "zn_free_pages z' = zn_free_pages z1" "distinct ps" "set ps \<subseteq> free_set z1" "free_set z' = free_set z1 - set ps"
      unfolding ft(2-4) by blast
    show ?thesis using 2(1) r a zspan_frame [OF a(2)] by (auto simp: zone_frame_def)
  qed
qed auto

definition got :: "bd_config \<Rightarrow> nat \<Rightarrow> per_cpu_pages \<Rightarrow> zone \<Rightarrow> nat \<Rightarrow> per_cpu_pages \<Rightarrow> zone \<Rightarrow> bool" where
  "got c order pcp z p pcp' z' \<longleftrightarrow> cache_ok c pcp' z' \<and> zspan z' = zspan z \<and> 2 ^ order dvd p \<and>
     blk p order \<subseteq> avail pcp z \<and> avail pcp' z' = avail pcp z - blk p order"

lemma pcp_remove:
  assumes "pcp_lists_ok z pls" "m < MIGRATE_PCPTYPES" "xs \<noteq> []" "pls m = xs"
    and "p = (if cold then last xs else hd xs)" "ys = (if cold then butlast xs else tl xs)"
  shows "pcp_lists_ok z (pls(m := ys))" "pcp_set (pls(m := ys)) = pcp_set pls - {p}" "p \<in> pcp_set pls"
    "Suc (pcp_total (pls(m := ys))) = pcp_total pls"
proof -
  have d: "distinct (pls 0 @ pls 1 @ pls 2)" using assms(1) by (simp add: pcp_lists_ok_def)
  have xs: "xs = (if cold then ys @ [p] else p # ys)" using assms(3,5,6) by auto
  show set: "pcp_set (pls(m := ys)) = pcp_set pls - {p}"
    using assms(4) xs d assms(2) [unfolded less_PCPTYPES] by (cases cold) (auto simp: pcp_set_def)
  have "distinct ((pls(m := ys)) 0 @ (pls(m := ys)) 1 @ (pls(m := ys)) 2)"
    using assms(4) xs d assms(2) [unfolded less_PCPTYPES] by (cases cold) auto
  then show "pcp_lists_ok z (pls(m := ys))" using set assms(1) by (auto simp: pcp_lists_ok_def)
  show "p \<in> pcp_set pls" using assms(4) xs assms(2) [unfolded less_PCPTYPES] by (cases cold) (auto simp: pcp_set_def)
  show "Suc (pcp_total (pls(m := ys))) = pcp_total pls"
    using assms(4) xs assms(2) [unfolded less_PCPTYPES] by (cases cold) (auto simp: pcp_total_def)
qed

text \<open>Filling an empty list of the processor from the zone.\<close>

lemma refill_ok:
  assumes z: "cache_ok c pcp z" and "m < MIGRATE_PCPTYPES" "pcp_lists pcp m = []"
  shows "\<exists>n pages z1. rmqueue_bulk c 0 (pcp_batch pcp) [] m cold z = Some (n, pages, z1) \<and>
     cache_ok c (pcp\<lparr>pcp_lists := (pcp_lists pcp)(m := pages), pcp_count := pcp_count pcp + int n\<rparr>) z1 \<and>
     zspan z1 = zspan z \<and> avail (pcp\<lparr>pcp_lists := (pcp_lists pcp)(m := pages)\<rparr>) z1 = avail pcp z \<and>
     (pages = [] \<longrightarrow> n = 0 \<and> z1 = z \<and> free_set z = {})"
proof -
  note d = cache_okD [OF z]
  have m: "m < MIGRATE_RESERVE" using assms(2) by simp
  obtain ps z0 where r: "rmqueue_bulk_loop c 0 (pcp_batch pcp) m z = Some (ps, z0)" "bd_ok c z0" "zspan z0 = zspan z"
    "zn_free_pages z0 = zn_free_pages z" "distinct ps" "set ps \<subseteq> free_set z" "free_set z0 = free_set z - set ps"
    "ps = [] \<longrightarrow> 0 < pcp_batch pcp \<longrightarrow> z0 = z \<and> free_set z = {}"
    using rmqueue_bulk_ok [OF d(1,2) m, of "pcp_batch pcp"] by (elim exE conjE) (rule that; assumption)
  define pages where "pages = (if cold then rev ps else ps)"
  define pls where "pls = (pcp_lists pcp)(m := pages)"
  have set: "set pages = set ps" "length pages = length ps" "distinct pages" using r(5) by (simp_all add: pages_def)
  have dj: "set ps \<inter> pcp_set (pcp_lists pcp) = {}" "pcp_set (pcp_lists pcp) \<subseteq> zspan z - free_set z"
    using r(6) d(3) by (auto simp: pcp_lists_ok_def)
  have pset: "pcp_set pls = pcp_set (pcp_lists pcp) \<union> set ps" "pcp_total pls = pcp_total (pcp_lists pcp) + length ps"
    using assms(2) [unfolded less_PCPTYPES] assms(3)
    by (elim disjE; simp add: pls_def pcp_set_def pcp_total_def set Un_ac)+
  have "distinct (pcp_lists pcp 0 @ pcp_lists pcp 1 @ pcp_lists pcp 2)" using d(3) by (simp add: pcp_lists_ok_def)
  then have "distinct (pls 0 @ pls 1 @ pls 2)"
    using assms(2) [unfolded less_PCPTYPES] assms(3) dj(1)
    by (elim disjE; simp add: pls_def pcp_set_def set Int_Un_distrib Int_commute)
  moreover have "pcp_set pls \<subseteq> zspan z0 - free_set z0"
    using pset(1) dj(2) r(3,6,7) free_set_finite(2) [OF d(2)] by auto
  ultimately have lok: "pcp_lists_ok z0 pls" by (simp add: pcp_lists_ok_def)
  let ?z = "mod_free_pages (- (int (length ps) * 2 ^ 0)) z0"
  have run: "rmqueue_bulk c 0 (pcp_batch pcp) [] m cold z = Some (length ps, pages, ?z)"
    using r(1) by (simp add: rmqueue_bulk_def pages_def)
  have "card (free_set z0) = card (free_set z) - length ps"
    using r(5-7) free_set_finite(1) [OF d(2)] by (simp add: card_Diff_subset distinct_card)
  moreover have "length ps \<le> card (free_set z)"
    using r(5,6) free_set_finite(1) [OF d(2)] by (metis card_mono distinct_card)
  ultimately have "zn_free_pages ?z = int (card (free_set z0))" using r(4) d(7) by (simp add: zone_fields)
  then have "cache_ok c (pcp\<lparr>pcp_lists := pls, pcp_count := pcp_count pcp + int (length ps)\<rparr>) ?z"
    using d r(2) lok pset(2) by (simp add: cache_ok_def bd_ok_fields pcp_lists_ok_def zone_fields)
  moreover have "avail (pcp\<lparr>pcp_lists := pls\<rparr>) ?z = avail pcp z"
    using r(6,7) pset(1) by (auto simp: avail_def bd_ok_fields)
  moreover have "pages = [] \<longrightarrow> length ps = 0 \<and> ?z = z \<and> free_set z = {}"
  proof -
    have "pages = [] \<longleftrightarrow> ps = []" by (simp add: pages_def)
    then show ?thesis using r(8) d(5) by (auto simp: mod_free_pages_def)
  qed
  ultimately show ?thesis using run r(3) unfolding pls_def by (auto simp: zone_fields)
qed

text \<open>
  \<^verbatim>\<open>failed\<close>: nothing changed, the zone has no free run of the order at an aligned address, and for a single
  page the list of the processor is empty as well.
\<close>

definition alloc_failed :: "nat \<Rightarrow> nat \<Rightarrow> per_cpu_pages \<Rightarrow> zone \<Rightarrow> bool" where
  "alloc_failed order m pcp z \<longleftrightarrow> (\<forall>q. 2 ^ order dvd q \<longrightarrow> \<not> blk q order \<subseteq> free_set z) \<and>
     (order = 0 \<longrightarrow> pcp_lists pcp m = [])"

lemma take_cached:
  assumes z: "cache_ok c pcp z" and "m < MIGRATE_PCPTYPES" "pcp_lists pcp m \<noteq> []"
    and p: "p = (if cold then last (pcp_lists pcp m) else hd (pcp_lists pcp m))"
    and ys: "ys = (if cold then butlast (pcp_lists pcp m) else tl (pcp_lists pcp m))"
  shows "got c 0 pcp z p (pcp\<lparr>pcp_lists := (pcp_lists pcp)(m := ys), pcp_count := pcp_count pcp - 1\<rparr>) z"
    "p \<in> zspan z"
proof -
  note d = cache_okD [OF z] and r = pcp_remove [OF cache_okD(3) [OF z] assms(2,3) refl p ys]
  have b: "blk p 0 = {p}" by (auto simp: blk_def)
  show pz: "p \<in> zspan z" using r(3) d(3) by (auto simp: pcp_lists_ok_def)
  have "p \<notin> free_set z" using r(3) d(3) by (auto simp: pcp_lists_ok_def)
  moreover have "pcp_count pcp - 1 = int (pcp_total ((pcp_lists pcp)(m := ys)))" using r(4) d(4) by simp
  ultimately show "got c 0 pcp z p (pcp\<lparr>pcp_lists := (pcp_lists pcp)(m := ys), pcp_count := pcp_count pcp - 1\<rparr>) z"
    using d r(1-3) by (auto simp: got_def cache_ok_def avail_def b)
qed

lemma buffered_zero:
  assumes z: "cache_ok c pcp z" and m: "m < MIGRATE_PCPTYPES" and prep: "\<And>p k. \<not> prep p k"
  shows "(buffered_rmqueue c prep 0 cold m pcp z = Some (None, pcp, z) \<and> alloc_failed 0 m pcp z) \<or>
    (\<exists>p pcp' z'. buffered_rmqueue c prep 0 cold m pcp z = Some (Some p, pcp', z') \<and> got c 0 pcp z p pcp' z')"
proof (cases "pcp_lists pcp m = []")
  case False
  note t = take_cached [OF z m False refl refl, of cold]
  have "\<not> bad_range z (if cold then last (pcp_lists pcp m) else hd (pcp_lists pcp m))"
    using bad_range_iff [OF bd_okD(1) [OF cache_okD(2) [OF z]]] t(2) by blast
  then show ?thesis using t(1) False prep by (subst (1 2) buffered_rmqueue.simps) auto
next
  case True
  from refill_ok [OF z m True, of cold] obtain n pages z1 where
    r: "rmqueue_bulk c 0 (pcp_batch pcp) [] m cold z = Some (n, pages, z1)"
      "cache_ok c (pcp\<lparr>pcp_lists := (pcp_lists pcp)(m := pages), pcp_count := pcp_count pcp + int n\<rparr>) z1"
      "zspan z1 = zspan z" "avail (pcp\<lparr>pcp_lists := (pcp_lists pcp)(m := pages)\<rparr>) z1 = avail pcp z"
      "pages = [] \<longrightarrow> n = 0 \<and> z1 = z \<and> free_set z = {}" by (elim exE conjE) (rule that; assumption)
  show ?thesis
  proof (cases "pages = []")
    case pe: True
    have "pcp\<lparr>pcp_lists := (pcp_lists pcp)(m := []), pcp_count := pcp_count pcp\<rparr> = pcp"
      using True by (simp add: fun_upd_idem)
    then have "buffered_rmqueue c prep 0 cold m pcp z = Some (None, pcp, z)"
      using True pe r(1,5) by (subst buffered_rmqueue.simps) simp
    then show ?thesis using r(5) pe True by (simp add: alloc_failed_def)
  next
    case pe: False
    let ?pcp = "pcp\<lparr>pcp_lists := (pcp_lists pcp)(m := pages), pcp_count := pcp_count pcp + int n\<rparr>"
    have l: "pcp_lists ?pcp m = pages" by simp
    note t = take_cached [OF r(2) m _ refl refl, of cold, unfolded l, OF pe]
    let ?p = "if cold then last pages else hd pages" and ?ys = "if cold then butlast pages else tl pages"
    have nb: "\<not> bad_range z1 ?p"
      using bad_range_iff [OF bd_okD(1) [OF cache_okD(2) [OF r(2)]]] t(2) by blast
    have "buffered_rmqueue c prep 0 cold m pcp z =
        Some (Some ?p, pcp\<lparr>pcp_lists := (pcp_lists pcp)(m := ?ys), pcp_count := pcp_count pcp + int n - 1\<rparr>, z1)"
      using True pe r(1) nb prep by (subst buffered_rmqueue.simps) simp
    moreover have "avail ?pcp z1 = avail pcp z" using r(4) by (simp add: avail_def)
    ultimately show ?thesis using t(1) r(3) by (auto simp: got_def)
  qed
qed

lemma buffered_high:
  assumes z: "cache_ok c pcp z" and m: "m < MIGRATE_PCPTYPES" and prep: "\<And>p k. \<not> prep p k"
    and "order \<noteq> 0" "order < MAX_ORDER c"
  shows "(buffered_rmqueue c prep order cold m pcp z = Some (None, pcp, z) \<and> alloc_failed order m pcp z) \<or>
    (\<exists>p pcp' z'. buffered_rmqueue c prep order cold m pcp z = Some (Some p, pcp', z') \<and> got c order pcp z p pcp' z')"
proof -
  note d = cache_okD [OF z]
  have m': "m < MIGRATE_RESERVE" using m by simp
  consider "do_rmqueue c order m z = Some (None, z)" "\<forall>j n. order \<le> j \<longrightarrow> j < MAX_ORDER c \<longrightarrow> zn_list z j n = []"
    | p z1 where "do_rmqueue c order m z = Some (Some p, z1)" "alloc_done c order z p z1"
    using do_rmqueue_ok [OF d(2) m', of order] by blast
  then show ?thesis
  proof cases
    case 1
    have "alloc_failed order m pcp z"
      using no_free_run [OF d(2) assms(5) 1(2)] assms(4) by (simp add: alloc_failed_def)
    then show ?thesis using 1(1) assms(4) by (subst buffered_rmqueue.simps) simp
  next
    case 2
    let ?z = "mod_free_pages (- (2 ^ order)) z1"
    have a: "bd_ok c z1" "zone_frame z z1" "2 ^ order dvd p" "blk p order \<subseteq> free_set z"
      "free_set z1 = free_set z - blk p order" using 2(2) by (simp_all add: alloc_done_def)
    have sp: "zspan ?z = zspan z" using zspan_frame [OF a(2)] by (simp add: zone_fields)
    have "p \<in> zspan z" using subsetD [OF a(4) blk_first] free_set_finite(2) [OF d(2)] by blast
    then have nb: "\<not> bad_range ?z p"
      using bad_range_iff [of c ?z p] bd_okD(1) [of c ?z] a(1) sp by (simp add: bd_ok_fields)
    have "card (free_set z1) = card (free_set z) - 2 ^ order" "2 ^ order \<le> card (free_set z)"
      using a(4,5) card_mono [OF free_set_finite(1) [OF d(2)] a(4)] by (simp_all add: card_Diff_subset)
    then have "zn_free_pages ?z = int (card (free_set ?z))"
      using d(7) a(2) by (simp add: zone_fields bd_ok_fields zone_frame_def)
    moreover have "pcp_lists_ok ?z (pcp_lists pcp)"
      using d(3) a(5) sp by (auto simp: pcp_lists_ok_def bd_ok_fields)
    ultimately have ok: "cache_ok c pcp ?z" using d a(1) by (simp add: cache_ok_def bd_ok_fields)
    have "blk p order \<inter> pcp_set (pcp_lists pcp) = {}" using a(4) d(3) by (auto simp: pcp_lists_ok_def)
    then have "got c order pcp z p pcp ?z"
      using ok sp a(3-5) by (auto simp: got_def avail_def bd_ok_fields)
    moreover have "buffered_rmqueue c prep order cold m pcp z = Some (Some p, pcp, ?z)"
      using 2(1) assms(4) nb prep by (subst buffered_rmqueue.simps) simp
    ultimately show ?thesis by blast
  qed
qed

lemma buffered_ok:
  assumes "cache_ok c pcp z" "m < MIGRATE_PCPTYPES" "\<And>p k. \<not> prep p k" "order < MAX_ORDER c"
  shows "(buffered_rmqueue c prep order cold m pcp z = Some (None, pcp, z) \<and> alloc_failed order m pcp z) \<or>
    (\<exists>p pcp' z'. buffered_rmqueue c prep order cold m pcp z = Some (Some p, pcp', z') \<and> got c order pcp z p pcp' z')"
  using buffered_zero [OF assms(1-3)] buffered_high [OF assms(1-3) _ assms(4)] by (cases "order = 0") auto

end
