(* ===== verification/Buddy_Main.thy ===== *)
theory Buddy_Main
  imports Buddy_Cache Interfaces
begin

text \<open>
  The page allocator as a heap of blocks, the remaining operations on the lists of a processor, and the
  properties of the component.
\<close>

section \<open>Clients\<close>

text \<open>
  The owner of a block remembers its first page and its order.  Pages pass the checks of
  \<^verbatim>\<open>prep_new_page\<close> and \<^verbatim>\<open>free_pages_prepare\<close>, and an owner holds the last reference to its pages.
\<close>

type_synonym 'k pages_state = "zone \<times> per_cpu_pages \<times> ('k \<rightharpoonup> nat \<times> nat)"

definition pages_alloc :: "bd_config \<Rightarrow> 'k \<Rightarrow> nat \<times> nat \<times> bool \<Rightarrow> 'k pages_state \<Rightarrow> (bool \<times> 'k pages_state) option" where
  "pages_alloc c k r s = (case (r, s) of ((order, m, cold), (z, pcp, own)) \<Rightarrow>
     do { (page, pcp', z') \<leftarrow> buffered_rmqueue c (\<lambda>_ _. False) order cold m pcp z;
          case page of None \<Rightarrow> Some (False, (z', pcp', own))
                     | Some p \<Rightarrow> Some (True, (z', pcp', own(k \<mapsto> (p, order)))) })"

definition pages_release :: "bd_config \<Rightarrow> 'k \<Rightarrow> 'k pages_state \<Rightarrow> 'k pages_state option" where
  "pages_release c k s = (case s of (z, pcp, own) \<Rightarrow>
     case own k of None \<Rightarrow> None
     | Some (p, order) \<Rightarrow>
         do { (pcp', z') \<leftarrow> do_free_pages c (\<lambda>_. True) (\<lambda>_ _. True) p order pcp z;
              Some (z', pcp', own(k := None)) })"

definition owned_ok :: "bd_config \<Rightarrow> nat set \<Rightarrow> ('k \<rightharpoonup> nat \<times> nat) \<Rightarrow> bool" where
  "owned_ok c S own \<longleftrightarrow>
     (\<forall>k p n. own k = Some (p, n) \<longrightarrow> n < MAX_ORDER c \<and> 2 ^ n dvd p \<and> blk p n \<subseteq> S) \<and>
     (\<forall>j k p n q i. own j = Some (p, n) \<longrightarrow> own k = Some (q, i) \<longrightarrow> j \<noteq> k \<longrightarrow> blk p n \<inter> blk q i = {})"

definition pages_inv :: "bd_config \<Rightarrow> 'k pages_state \<Rightarrow> bool" where
  "pages_inv c s = (case s of (z, pcp, own) \<Rightarrow> cache_ok c pcp z \<and> owned_ok c (zspan z - avail pcp z) own)"

definition pages_blocks :: "'k pages_state \<Rightarrow> 'k \<rightharpoonup> nat \<times> nat" where
  "pages_blocks s k = map_option (\<lambda>(p, n). (p, 2 ^ n)) (snd (snd s) k)"

definition pages_span :: "'k pages_state \<Rightarrow> nat \<times> nat" where
  "pages_span s = (Min (zspan (fst s)), Suc (Max (zspan (fst s))))"

definition pages_idle :: "'k pages_state \<Rightarrow> 'k \<Rightarrow> bool" where
  "pages_idle s k \<longleftrightarrow> snd (snd s) k = None"

definition pages_request :: "bd_config \<Rightarrow> nat \<times> nat \<times> bool \<Rightarrow> bool" where
  "pages_request c r = (case r of (order, m, cold) \<Rightarrow> order < MAX_ORDER c \<and> m < MIGRATE_PCPTYPES)"

definition pages_place :: "nat \<times> nat \<times> bool \<Rightarrow> nat \<Rightarrow> nat \<Rightarrow> bool" where
  "pages_place r a w = (case r of (order, m, cold) \<Rightarrow> 2 ^ order dvd a \<and> w = 2 ^ order)"

lemma blk_in_span:
  assumes "blk p n \<subseteq> zspan z"
  shows "Min (zspan z) \<le> p" "p + 2 ^ n \<le> Suc (Max (zspan z))"
proof -
  have fin: "finite (zspan z)" by (simp add: zspan_def)
  have "1 \<le> (2::nat) ^ n" by simp
  then have "p + 2 ^ n - 1 \<in> blk p n" unfolding blk_mem by linarith
  then have "p \<in> zspan z" "p + 2 ^ n - 1 \<in> zspan z" using assms blk_first [of p n] by blast+
  then show "Min (zspan z) \<le> p" "p + 2 ^ n \<le> Suc (Max (zspan z))"
    using Min_le [OF fin] Max_ge [OF fin, of "p + 2 ^ n - 1"] by auto
qed

lemma blk_apart: "blk p n \<inter> blk q i = {} \<Longrightarrow> p + 2 ^ n \<le> q \<or> q + 2 ^ i \<le> (p::nat)"
proof (rule ccontr)
  assume d: "blk p n \<inter> blk q i = {}" and "\<not> ?thesis"
  then have "max p q \<in> blk p n" "max p q \<in> blk q i" by (auto simp: blk_def)
  then show False using d by blast
qed

lemma pages_vacant:
  assumes "owned_ok c S own" "blk p n \<subseteq> zspan z" "\<And>j q i. own j = Some (q, i) \<Longrightarrow> blk p n \<inter> blk q i = {}"
  shows "vacant (pages_span (z, pcp, own')) (pages_blocks (z, pcp, own)) p (2 ^ n)"
  using blk_in_span [OF assms(2)] blk_apart [OF assms(3)]
  by (auto simp: vacant_def pages_span_def pages_blocks_def)

lemma pages_apart:
  assumes "pages_inv c s"
  shows "blocks_apart (pages_span s) (pages_blocks s)"
proof -
  obtain z pcp own where s: "s = (z, pcp, own)" by (cases s)
  have ok: "owned_ok c (zspan z - avail pcp z) own" using assms by (simp add: pages_inv_def s)
  have "vacant (pages_span s) ((pages_blocks s)(k := None)) p (2 ^ n)" if k: "own k = Some (p, n)" for k p n
  proof -
    have ok': "owned_ok c (zspan z - avail pcp z) (own(k := None))" using ok by (auto simp: owned_ok_def split: if_splits)
    have "vacant (pages_span (z, pcp, own)) (pages_blocks (z, pcp, own(k := None))) p (2 ^ n)"
      by (rule pages_vacant [OF ok']) (use ok k in \<open>auto simp: owned_ok_def split: if_splits\<close>)
    moreover have "pages_blocks (z, pcp, own(k := None)) = (pages_blocks s)(k := None)"
      by (rule ext) (simp add: pages_blocks_def s)
    ultimately show ?thesis by (simp add: s)
  qed
  then show ?thesis by (auto simp: blocks_apart_def pages_blocks_def s)
qed

lemma owned_add:
  assumes ok: "owned_ok c (U - A) own" and b: "n < MAX_ORDER c" "2 ^ n dvd p" "blk p n \<subseteq> U" "blk p n \<subseteq> A"
  shows "owned_ok c (U - (A - blk p n)) (own(k \<mapsto> (p, n)))"
proof -
  have old: "i < MAX_ORDER c" "2 ^ i dvd q" "blk q i \<subseteq> U" "blk q i \<inter> A = {}" "blk p n \<inter> blk q i = {}"
    "blk q i \<inter> blk p n = {}" if "own j = Some (q, i)" for j q i
    using ok that b(4) unfolding owned_ok_def by blast+
  have pair: "blk q i \<inter> blk q' i' = {}" if "own j = Some (q, i)" "own j' = Some (q', i')" "j \<noteq> j'" for j j' q q' i i'
    using ok that unfolding owned_ok_def by blast
  have "i < MAX_ORDER c \<and> 2 ^ i dvd q \<and> blk q i \<subseteq> U - (A - blk p n)" if "(own(k \<mapsto> (p, n))) j = Some (q, i)" for j q i
    using that b old(1-4) [of j q i] by (cases "j = k") auto
  moreover have "blk q i \<inter> blk q' i' = {}"
    if "(own(k \<mapsto> (p, n))) j = Some (q, i)" "(own(k \<mapsto> (p, n))) j' = Some (q', i')" "j \<noteq> j'" for j j' q q' i i'
    using that old(5,6) pair by (cases "j = k"; cases "j' = k") auto
  ultimately show ?thesis unfolding owned_ok_def by blast
qed

lemma owned_del:
  assumes ok: "owned_ok c (U - A) own" and k: "own k = Some (p, n)"
  shows "owned_ok c (U - (A \<union> blk p n)) (own(k := None))"
proof -
  have "i < MAX_ORDER c \<and> 2 ^ i dvd q \<and> blk q i \<subseteq> U - (A \<union> blk p n)" if "(own(k := None)) j = Some (q, i)" for j q i
  proof -
    have j: "own j = Some (q, i)" "j \<noteq> k" using that by (auto split: if_splits)
    then have "blk q i \<inter> blk p n = {}" "i < MAX_ORDER c" "2 ^ i dvd q" "blk q i \<subseteq> U - A"
      using ok k unfolding owned_ok_def by blast+
    then show ?thesis by blast
  qed
  moreover have "blk q i \<inter> blk q' i' = {}"
    if "(own(k := None)) j = Some (q, i)" "(own(k := None)) j' = Some (q', i')" "j \<noteq> j'" for j j' q q' i i'
    using that ok unfolding owned_ok_def by (auto split: if_splits)
  ultimately show ?thesis unfolding owned_ok_def by blast
qed

lemma pages_alloc_law:
  assumes "pages_inv c s" "pages_idle s k" "pages_request c r"
  shows "\<exists>b s'. pages_alloc c k r s = Some (b, s') \<and> pages_inv c s' \<and> pages_span s' = pages_span s \<and>
     (if b then \<exists>a w. pages_place r a w \<and> vacant (pages_span s) (pages_blocks s) a w \<and>
               pages_blocks s' = (pages_blocks s)(k \<mapsto> (a, w)) \<and> (\<forall>j. j \<noteq> k \<longrightarrow> pages_idle s j \<longrightarrow> pages_idle s' j)
      else s' = s)"
proof -
  obtain z pcp own where s: "s = (z, pcp, own)" by (cases s)
  obtain order m cold where r: "r = (order, m, cold)" by (cases r)
  have ok: "cache_ok c pcp z" "owned_ok c (zspan z - avail pcp z) own" "own k = None"
    "order < MAX_ORDER c" "m < MIGRATE_PCPTYPES"
    using assms by (simp_all add: pages_inv_def pages_idle_def pages_request_def s r)
  from buffered_ok [OF ok(1,5) _ ok(4), of "\<lambda>_ _. False" cold] consider
    "buffered_rmqueue c (\<lambda>_ _. False) order cold m pcp z = Some (None, pcp, z)"
    | p pcp' z' where "buffered_rmqueue c (\<lambda>_ _. False) order cold m pcp z = Some (Some p, pcp', z')"
      "got c order pcp z p pcp' z'" by blast
  then show ?thesis
  proof cases
    case 1
    then have "pages_alloc c k r s = Some (False, s)" by (simp add: pages_alloc_def s r)
    then show ?thesis using assms(1) by (intro exI [of _ False] exI [of _ s]) simp
  next
    case 2
    let ?s = "(z', pcp', own(k \<mapsto> (p, order)))"
    have run: "pages_alloc c k r s = Some (True, ?s)" using 2(1) by (simp add: pages_alloc_def s r)
    have g: "cache_ok c pcp' z'" "zspan z' = zspan z" "2 ^ order dvd p" "blk p order \<subseteq> avail pcp z"
      "avail pcp' z' = avail pcp z - blk p order" using 2(2) by (simp_all add: got_def)
    have "avail pcp z \<subseteq> zspan z"
      using free_set_finite(2) [OF cache_okD(2) [OF ok(1)]] cache_okD(3) [OF ok(1)] by (auto simp: avail_def pcp_lists_ok_def)
    then have pz: "blk p order \<subseteq> zspan z" using g(4) by blast
    have dj: "blk p order \<inter> blk q i = {}" if "own j = Some (q, i)" for j q i
      using ok(2) that g(4) unfolding owned_ok_def by blast
    have "owned_ok c (zspan z' - avail pcp' z') (own(k \<mapsto> (p, order)))"
      unfolding g(2,5) by (rule owned_add [OF ok(2,4) g(3) pz g(4)])
    then have "pages_inv c ?s" using g(1) by (simp add: pages_inv_def)
    moreover have "pages_blocks ?s = (pages_blocks s)(k \<mapsto> (p, 2 ^ order))"
      by (rule ext) (simp add: pages_blocks_def s)
    moreover have "vacant (pages_span s) (pages_blocks s) p (2 ^ order)"
      unfolding s by (rule pages_vacant [OF ok(2) pz dj])
    ultimately show ?thesis using run g(2,3)
      by (intro exI [of _ True] exI [of _ ?s]) (auto simp: pages_span_def pages_place_def pages_idle_def s r)
  qed
qed

lemma pages_release_law:
  assumes "pages_inv c s" "pages_blocks s k \<noteq> None"
  shows "\<exists>s'. pages_release c k s = Some s' \<and> pages_inv c s' \<and> pages_span s' = pages_span s \<and>
     pages_blocks s' = (pages_blocks s)(k := None) \<and> pages_idle s' k \<and> (\<forall>j. pages_idle s j \<longrightarrow> pages_idle s' j)"
proof -
  obtain z pcp own where s: "s = (z, pcp, own)" by (cases s)
  obtain p order where k: "own k = Some (p, order)" using assms(2) by (auto simp: pages_blocks_def s)
  have ok: "cache_ok c pcp z" "owned_ok c (zspan z - avail pcp z) own" using assms(1) by (simp_all add: pages_inv_def s)
  then have b: "order < MAX_ORDER c" "2 ^ order dvd p" "blk p order \<subseteq> zspan z" "blk p order \<inter> avail pcp z = {}"
    using k unfolding owned_ok_def by blast+
  from free_pages_spec [OF ok(1) b, of "\<lambda>_. True" "\<lambda>_ _. True"] obtain pcp' z' where
    r: "do_free_pages c (\<lambda>_. True) (\<lambda>_ _. True) p order pcp z = Some (pcp', z')" "freed_to c pcp z (blk p order) pcp' z'"
    by auto
  let ?s = "(z', pcp', own(k := None))"
  have f: "cache_ok c pcp' z'" "zspan z' = zspan z" "avail pcp' z' = avail pcp z \<union> blk p order"
    using r(2) by (simp_all add: freed_to_def)
  have "owned_ok c (zspan z' - avail pcp' z') (own(k := None))"
    unfolding f(2,3) by (rule owned_del [OF ok(2) k])
  then have "pages_inv c ?s" using f(1) by (simp add: pages_inv_def)
  moreover have "pages_release c k s = Some ?s" using r(1) k by (simp add: pages_release_def s)
  moreover have "pages_blocks ?s = (pages_blocks s)(k := None)" by (rule ext) (simp add: pages_blocks_def s)
  ultimately show ?thesis using f(2) by (auto simp: pages_span_def pages_idle_def s)
qed

interpretation pg: block_heap "pages_inv c" pages_blocks pages_span pages_idle "pages_request c" pages_place
  "pages_alloc c" "pages_release c" for c :: bd_config
proof (unfold_locales, goal_cases)
  case (1 s)
  then show ?case by (rule pages_apart)
next
  case (2 s k r)
  then show ?case by (rule pages_alloc_law)
next
  case (3 s k)
  then show ?case by (rule pages_release_law)
qed

section \<open>The other operations on pages\<close>

lemma setup_pageset_ok:
  assumes "0 < MAX_ORDER c" "bd_ok c z" "zn_free_pages z = int (card (free_set z))"
  shows "cache_ok c (setup_pageset b) z" "0 < w \<Longrightarrow> cache_ok c (setup_pagelist_highmark w h (setup_pageset b)) z"
  using assms by (auto simp: cache_ok_def setup_pageset_def setup_pagelist_highmark_def pcp_lists_ok_def
      pcp_set_def pcp_total_def Let_def)

lemma drain_ok:
  assumes z: "cache_ok c pcp z"
  shows "\<exists>pcp' z'. drain_pages c pcp z = Some (pcp', z') \<and> freed_to c pcp z {} pcp' z' \<and> pcp_set (pcp_lists pcp') = {}"
    "\<exists>pcp' z'. drain_zone_pages c pcp z = Some (pcp', z') \<and> freed_to c pcp z {} pcp' z'"
proof -
  note d = cache_okD [OF z]
  have refl: "freed_to c pcp z {} pcp z" using z by (simp add: freed_to_def)
  have empty: "pcp_set (pcp_lists q) = {}" if "cache_ok c q y" "pcp_count q = 0" for q y
  proof -
    have "pcp_total (pcp_lists q) = 0" using cache_okD(4) [OF that(1)] that(2) by simp
    then show ?thesis by (simp add: pcp_total_def pcp_set_def)
  qed
  show "\<exists>pcp' z'. drain_pages c pcp z = Some (pcp', z') \<and> freed_to c pcp z {} pcp' z' \<and> pcp_set (pcp_lists pcp') = {}"
  proof (cases "pcp_count pcp = 0")
    case True
    then show ?thesis using refl empty [OF z] by (simp add: drain_pages_def)
  next
    case False
    from bulk_cache [OF d order_refl] obtain pcp' z' where
      r: "free_pcppages_bulk c (pcp_total (pcp_lists pcp)) pcp z = Some (pcp', z')" "pcp_count pcp' = pcp_count pcp"
        "freed_to c pcp z {} (pcp'\<lparr>pcp_count := pcp_count pcp' - int (pcp_total (pcp_lists pcp))\<rparr>) z'" by blast
    then have f: "freed_to c pcp z {} (pcp'\<lparr>pcp_count := 0\<rparr>) z'" using d(4) by simp
    then have "pcp_set (pcp_lists (pcp'\<lparr>pcp_count := 0\<rparr>)) = {}" by (intro empty) (auto simp: freed_to_def)
    then show ?thesis using False r(1) f d(4) by (auto simp: drain_pages_def)
  qed
  let ?n = "if pcp_count pcp \<ge> int (pcp_batch pcp) then int (pcp_batch pcp) else pcp_count pcp"
  have n: "0 \<le> ?n" "nat ?n \<le> pcp_total (pcp_lists pcp)" using d(4) by auto
  show "\<exists>pcp' z'. drain_zone_pages c pcp z = Some (pcp', z') \<and> freed_to c pcp z {} pcp' z'"
    using bulk_cache [OF d n(2)] n(1) refl unfolding drain_zone_pages_def Let_def by fastforce
qed

lemma hot_cold_list_ok:
  assumes "cache_ok c pcp z" "distinct ps" "set ps \<subseteq> zspan z - avail pcp z" "\<And>p. prepare p 0"
  shows "\<exists>pcp' z'. free_hot_cold_page_list c prepare ps cold pcp z = Some (pcp', z') \<and>
     freed_to c pcp z (set ps) pcp' z'"
  using assms(1-3)
proof (induction ps arbitrary: pcp z)
  case (Cons p ps)
  from hot_cold_ok [of c pcp z p prepare cold] Cons.prems assms(4) obtain pcp1 z1 where
    r: "free_hot_cold_page c prepare p cold pcp z = Some (pcp1, z1)" "freed_to c pcp z {p} pcp1 z1" by auto
  have "cache_ok c pcp1 z1" "set ps \<subseteq> zspan z1 - avail pcp1 z1" using r(2) Cons.prems by (auto simp: freed_to_def)
  with Cons.IH [of pcp1 z1] Cons.prems(2) obtain pcp' z' where
    "free_hot_cold_page_list c prepare ps cold pcp1 z1 = Some (pcp', z')" "freed_to c pcp1 z1 (set ps) pcp' z'" by auto
  then show ?case using r by (auto simp: freed_to_def)
qed (simp add: freed_to_def)

lemma isolate_loop_ok:
  assumes "bd_zone_ok c z" "bd_lists_ok z"
  shows "regrouped c z (isolate_loop c p e z)"
  using assms
proof (induction c p e z rule: isolate_loop.induct)
  case (1 c p e z)
  have rg: "regrouped c z (set_pageblock_migratetype c p MIGRATE_MOVABLE z)"
    by (rule regrouped_block [OF 1(2,3)]) simp
  show ?case using regrouped_refl [OF 1(2,3)] regrouped_trans [OF rg] 1(1) regroupedD(1,2) [OF rg]
    by (subst isolate_loop.simps) auto
qed

text \<open>Isolating a free block takes it out of the zone, or changes nothing when the zone is short of pages.\<close>

lemma isolate_ok:
  assumes z: "bd_ok c z" "zn_free_pages z = int (card (free_set z))" and p: "(p, k) \<in> fblocks z"
  shows "split_free_page ps c p z = Some (0, z) \<or>
    (\<exists>z'. split_free_page ps c p z = Some (2 ^ k, z') \<and> bd_ok c z' \<and> free_set z' = free_set z - blk p k \<and>
       zn_free_pages z' = int (card (free_set z')))"
proof (cases "zone_watermark_ok ps c z 0 (zn_watermark_low z + push_bit k 1) 0 0")
  case True
  let ?y = "take_block p k (mod_free_pages (- (2 ^ k)) z)"
  let ?z = "if k \<ge> pageblock_order c - 1 then isolate_loop c p (p + 2 ^ k - 1) ?y else ?y"
  have p': "(p, k) \<in> fblocks (mod_free_pages (- (2 ^ k)) z)" using p by (simp add: fblocks_def mod_free_pages_def)
  have y: "bd_ok c ?y" "free_set ?y = free_set z - blk p k"
    using take_ok [OF _ p', of c] z(1) by (simp_all add: bd_ok_fields)
  have "regrouped c ?y ?z" using isolate_loop_ok regrouped_refl bd_okD(1,2) [OF y(1)] by simp
  then have "bd_ok c ?z" "free_set ?z = free_set ?y" "zone_frame ?y ?z"
    using regrouped_ok [OF y(1)] regroupedD(5) by blast+
  moreover have "card (free_set z - blk p k) = card (free_set z) - 2 ^ k" "2 ^ k \<le> card (free_set z)"
    using blk_cover [OF p] card_mono [OF free_set_finite(1) [OF z(1)], of "blk p k"]
    by (simp_all add: free_set_def card_Diff_subset)
  moreover have "zn_free_pages ?y = zn_free_pages z - 2 ^ k" by (simp add: take_block_def page_defs)
  moreover have "split_free_page ps c p z = Some (2 ^ k, ?z)"
    using True p by (auto simp: split_free_page_def isolate_free_page_def fblocks_def take_block_def Let_def)
  ultimately show ?thesis using y(2) z(2) by (auto simp: zone_frame_def)
next
  case False
  then show ?thesis using p by (auto simp: split_free_page_def isolate_free_page_def fblocks_def Let_def)
qed

section \<open>A sample zone\<close>

definition bd_sample :: bd_config where
  "bd_sample = \<lparr>MAX_ORDER = 4, pageblock_order = 3, page_group_by_mobility_disabled = False,
     min_free_order_shift = 1, ALLOC_HIGH = 32, ALLOC_HARDER = 16\<rparr>"

definition void_zone :: "nat \<Rightarrow> zone" where
  "void_zone n = \<lparr>zn_id = 0, zn_start = 0, zn_spanned = n, zn_list = (\<lambda>_ _. []), zn_nr_free = (\<lambda>_. 0),
     zn_free_pages = 0, zn_block = (\<lambda>_. 0), zn_all_unreclaimable = False, zn_pages_scanned = 0,
     zn_lowmem_reserve = (\<lambda>_. 0), zn_watermark_low = 0, zn_percpu_drift_mark = 0, pg_zone = (\<lambda>p. if p < n then 0 else 1),
     pg_buddy = (\<lambda>_. False), pg_private = (\<lambda>_. 0), pg_migratetype = (\<lambda>_. 0)\<rparr>"

lemma void_zone_ok: "bd_ok c (void_zone n)" "free_set (void_zone n) = {}" "zspan (void_zone n) = {..<n}"
  by (auto simp: bd_ok_def bd_zone_ok_def bd_lists_ok_def page_listed_def on_lists_def bd_counts_ok_def
      fblocks_def zspan_def free_set_def void_zone_def buddies_ok_def)

lemma sample_free:
  obtains z where "free_one_page bd_sample 0 3 0 (void_zone 8) = Some z" "bd_ok bd_sample z"
    "free_set z = {..<8}" "zn_free_pages z = 8" "zn_spanned z = 8"
proof -
  let ?z = "(void_zone 8)\<lparr>zn_all_unreclaimable := False, zn_pages_scanned := 0\<rparr>"
  have v: "bd_ok bd_sample ?z" "free_set ?z = {}" "zspan ?z = {..<8}" "zn_free_pages ?z = 0" "zn_spanned ?z = 8"
    using void_zone_ok(1) [of bd_sample 8] void_zone_ok(2,3) [of 8] by (simp_all add: bd_ok_fields zone_fields) (simp_all add: void_zone_def)
  have b: "blk 0 3 = {..<8}" by (auto simp: blk_def)
  have "\<exists>z'. do_free_one_page bd_sample 0 3 0 ?z = Some z' \<and> returned bd_sample ?z (blk 0 3) (mod_free_pages (2 ^ 3) z')"
    by (rule returned_block [OF v(1)]) (simp_all add: bd_sample_def v b)
  then obtain z' where z': "do_free_one_page bd_sample 0 3 0 ?z = Some z'"
    "returned bd_sample ?z (blk 0 3) (mod_free_pages (2 ^ 3) z')" by blast
  show thesis
    by (rule that [of "mod_free_pages (2 ^ 3) z'"])
      (use z' v b in \<open>simp_all add: free_one_page_def returned_def\<close>)
qed

section \<open>Properties\<close>

text \<open>C3: Allocation from a zone never fails while the zone has a free run of the asked size at an aligned address: the block returned is aligned and was free, exactly its pages leave the free pages, and freeing it again gives back the free blocks as they were.\<close>

theorem buddy_alloc:
  assumes "bd_ok c z" "order < MAX_ORDER c" "m < MIGRATE_RESERVE"
  shows "\<exists>r z'. do_rmqueue c order m z = Some (r, z') \<and> bd_ok c z' \<and>
    (case r of
       None \<Rightarrow> z' = z \<and> (\<forall>q. 2 ^ order dvd q \<longrightarrow> \<not> blk q order \<subseteq> free_set z)
     | Some p \<Rightarrow> 2 ^ order dvd p \<and> blk p order \<subseteq> free_set z \<and> free_set z' = free_set z - blk p order \<and>
         (\<exists>z''. do_free_one_page c p order m z' = Some z'' \<and> bd_ok c z'' \<and> fblocks z'' = fblocks z))"
proof -
  consider "do_rmqueue c order m z = Some (None, z)" "\<forall>j n. order \<le> j \<longrightarrow> j < MAX_ORDER c \<longrightarrow> zn_list z j n = []"
    | p z' where "do_rmqueue c order m z = Some (Some p, z')" "alloc_done c order z p z'"
    using do_rmqueue_ok [OF assms(1,3), of order] by blast
  then show ?thesis
  proof cases
    case 1
    then show ?thesis using assms(1) no_free_run [OF assms(1,2) 1(2)] by auto
  next
    case 2
    have a: "bd_ok c z'" "zspan z' = zspan z" "2 ^ order dvd p" "blk p order \<subseteq> free_set z"
      "free_set z' = free_set z - blk p order"
      using 2(2) zspan_frame by (auto simp: alloc_done_def)
    have "blk p order \<subseteq> zspan z'" "blk p order \<inter> free_set z' = {}" "m < MIGRATE_TYPES"
      using a free_set_finite(2) [OF assms(1)] assms(3) by auto
    from do_free_ok [OF a(1) assms(2) a(3) this] obtain z'' where
      f: "do_free_one_page c p order m z' = Some z''" "bd_ok c z''" "free_set z'' = free_set z"
      using a(4,5) by (auto simp: free_done_def)
    then have "fblocks z'' = fblocks z"
      using blocks_determined [OF bd_okD(4) [OF f(2)] bd_okD(4) [OF assms(1)]] by (simp add: free_set_def)
    then show ?thesis using 2(1) a f by auto
  qed
qed

theorem buddy_alloc_witness:
  "\<exists>z p z'. free_one_page bd_sample 0 3 0 (void_zone 8) = Some z \<and>
     do_rmqueue bd_sample 1 MIGRATE_MOVABLE z = Some (Some p, z') \<and> 2 dvd p \<and> free_set z' = {..<8} - blk p 1"
proof -
  obtain z where z: "free_one_page bd_sample 0 3 0 (void_zone 8) = Some z" "bd_ok bd_sample z" "free_set z = {..<8}"
    using sample_free by blast
  have "blk 0 1 \<subseteq> free_set z" by (auto simp: z(3) blk_def)
  moreover have "1 < MAX_ORDER bd_sample" "MIGRATE_MOVABLE < MIGRATE_RESERVE" by (simp_all add: bd_sample_def)
  ultimately show ?thesis using buddy_alloc [OF z(2), of 1 MIGRATE_MOVABLE] z(1,3)
    by (auto split: option.splits)
qed

text \<open>C38: Freeing a block merges it as far as it can be merged: afterwards the free blocks are exactly the maximal aligned runs of free pages, whatever the order in which the pages were freed, and the lists, the page flags and the counters agree.\<close>

theorem buddy_free:
  assumes "bd_ok c z" "order < MAX_ORDER c" "2 ^ order dvd p" "blk p order \<subseteq> zspan z" "blk p order \<inter> free_set z = {}"
    "m < MIGRATE_TYPES"
  shows "\<exists>z'. do_free_one_page c p order m z = Some z' \<and> bd_ok c z' \<and> free_set z' = free_set z \<union> blk p order \<and>
    (\<forall>q j. (q, j) \<in> fblocks z' \<longleftrightarrow> j < MAX_ORDER c \<and> 2 ^ j dvd q \<and> blk q j \<subseteq> free_set z' \<and>
       (Suc j < MAX_ORDER c \<longrightarrow> \<not> blk (par q j) (Suc j) \<subseteq> free_set z'))"
proof -
  obtain z' where z': "do_free_one_page c p order m z = Some z'" "bd_ok c z'" "free_set z' = blk p order \<union> free_set z"
    using do_free_ok [OF assms] by (auto simp: free_done_def)
  show ?thesis using z' block_iff [OF bd_okD(4) [OF z'(2)]] by (auto simp: free_set_def)
qed

theorem buddy_free_witness:
  "\<exists>z'. do_free_one_page bd_sample 4 2 0 (void_zone 8) = Some z' \<and> (4, 2) \<in> fblocks z'"
proof -
  have b: "blk 4 2 = {4..<8}" "blk 0 3 = {0..<8}" "par 4 2 = 0" by (simp_all add: blk_def par_def)
  have "\<exists>z'. do_free_one_page bd_sample 4 2 0 (void_zone 8) = Some z' \<and> bd_ok bd_sample z' \<and>
      free_set z' = free_set (void_zone 8) \<union> blk 4 2 \<and>
      (\<forall>q j. (q, j) \<in> fblocks z' \<longleftrightarrow> j < MAX_ORDER bd_sample \<and> 2 ^ j dvd q \<and> blk q j \<subseteq> free_set z' \<and>
         (Suc j < MAX_ORDER bd_sample \<longrightarrow> \<not> blk (par q j) (Suc j) \<subseteq> free_set z'))"
    by (rule buddy_free [OF void_zone_ok(1)]) (auto simp: bd_sample_def void_zone_ok b)
  then show ?thesis using b by (auto simp: void_zone_ok bd_sample_def)
qed

text \<open>
  C39: The watermark tests keep their promise: when a zone passes one of them for an order, an allocation of that order from
  the zone returns a block.  The mark and the reserve together are below \<^verbatim>\<open>2 ^ 63\<close>, so that the sum is not negative as a
  \<^verbatim>\<open>long\<close>.  The counter may have drifted: it suffices that what is read of it is not negative and exceeds the number
  of free pages by less than \<^verbatim>\<open>2 ^ order\<close> plus what is left of the mark in the last round of the loop, and so in particular
  that it is exact.
\<close>

theorem buddy_watermark:
  assumes "bd_ok c z" "zn_spanned z < 2 ^ 62" "order < MAX_ORDER c" "MAX_ORDER c \<le> 31" "m < MIGRATE_RESERVE"
    "uint mark + uint (zn_lowmem_reserve z ci) < 2 ^ 63"
    "\<forall>v\<in>{ps z, snapshot z}. 0 \<le> sint v \<and> sint v \<le> int (card (free_set z)) + drift"
    "drift < 2 ^ order + flagged_mark c flags (uint mark) div 2 ^ (min_free_order_shift c * order)"
    "zone_watermark_ok ps c z order mark ci flags \<or> zone_watermark_ok_safe ps snapshot c z order mark ci flags"
  shows "\<exists>p z'. do_rmqueue c order m z = Some (Some p, z') \<and> blk p order \<subseteq> free_set z"
proof -
  obtain v where v: "v \<in> {ps z, snapshot z}" "do_zone_watermark_ok c z order mark ci flags v"
    using assms(9) by (auto simp: zone_watermark_ok_def zone_watermark_ok_safe_def Let_def split: if_splits)
  obtain j p where j: "order \<le> j" "j < MAX_ORDER c" "(p, j) \<in> fblocks z"
    using watermark_high_blocks [OF assms(1-4) _ _ assms(8) v(2) assms(6)] assms(7) v(1) by blast
  obtain n where "p \<in> set (zn_list z j n)" by (rule block_listed [OF bd_okD(2) [OF assms(1)] j(3)])
  then have "\<not> (\<forall>j n. order \<le> j \<longrightarrow> j < MAX_ORDER c \<longrightarrow> zn_list z j n = [])" using j(1,2) by force
  then show ?thesis using do_rmqueue_ok [OF assms(1,5), of order] by (auto simp: alloc_done_def)
qed

text \<open>A counter that reads two pages too many.\<close>

theorem buddy_watermark_witness:
  "\<exists>z p z'. free_one_page bd_sample 0 3 0 (void_zone 8) = Some z \<and> zone_watermark_ok (\<lambda>_. 10) bd_sample z 2 3 0 0 \<and>
     do_rmqueue bd_sample 2 MIGRATE_MOVABLE z = Some (Some p, z')"
proof -
  obtain z where z: "free_one_page bd_sample 0 3 0 (void_zone 8) = Some z" "bd_ok bd_sample z" "free_set z = {..<8}"
    "zn_free_pages z = 8" "zn_spanned z = 8" using sample_free by blast
  have "map_option (\<lambda>z. zone_watermark_ok (\<lambda>_. 10) bd_sample z 2 3 0 0 \<and> zn_lowmem_reserve z 0 = 0)
      (free_one_page bd_sample 0 3 0 (void_zone 8)) = Some True" by code_simp
  then have w: "zone_watermark_ok (\<lambda>_. 10) bd_sample z 2 3 0 0" "zn_lowmem_reserve z 0 = 0" using z(1) by simp_all
  have f: "flagged_mark bd_sample 0 3 = 3" by (simp add: flagged_mark_def)
  have "\<exists>p z'. do_rmqueue bd_sample 2 MIGRATE_MOVABLE z = Some (Some p, z') \<and> blk p 2 \<subseteq> free_set z"
    by (rule buddy_watermark [where ps = "\<lambda>_. 10" and snapshot = "\<lambda>_. 8" and drift = 2 and mark = 3 and ci = 0 and flags = 0,
          OF z(2) _ _ _ _ _ _ _ disjI1 [OF w(1)]]) (simp_all add: z(3,5) w(2) f, simp_all add: bd_sample_def)
  then show ?thesis using z(1) w(1) by blast
qed

text \<open>Neither condition can be dropped: a zone without free pages passes with a counter that drifted by more, or with a mark that is negative as a \<^verbatim>\<open>long\<close>.\<close>

lemma watermark_breached:
  "zone_watermark_ok (\<lambda>_. 5) bd_sample (void_zone 8) 0 3 0 0 \<and> zone_watermark_ok (\<lambda>_. 0) bd_sample (void_zone 8) 0 (2 ^ 63) 0 0 \<and>
   map_option fst (do_rmqueue bd_sample 0 MIGRATE_MOVABLE (void_zone 8)) = Some None"
  by code_simp

text \<open>C40: Returning pages from the lists of a processor ends exactly when the lists hold as many pages as are asked for; then that many pages go back to the zone, and the rest stay on the lists.  With fewer pages the search for a list that is not empty never ends.\<close>

theorem pcp_bulk_returns:
  assumes "0 < MAX_ORDER c" "bd_ok c z" "pcp_lists_ok z (pcp_lists pcp)"
  shows "if n \<le> pcp_total (pcp_lists pcp)
    then \<exists>pcp' z'. free_pcppages_bulk c n pcp z = Some (pcp', z') \<and> bd_ok c z' \<and> pcp_lists_ok z' (pcp_lists pcp') \<and>
      pcp_total (pcp_lists pcp') = pcp_total (pcp_lists pcp) - n \<and>
      pcp_set (pcp_lists pcp') \<subseteq> pcp_set (pcp_lists pcp) \<and>
      free_set z' = free_set z \<union> (pcp_set (pcp_lists pcp) - pcp_set (pcp_lists pcp')) \<and>
      zn_free_pages z' = zn_free_pages z + int n
    else free_pcppages_bulk c n pcp z = None"
proof (cases "n \<le> pcp_total (pcp_lists pcp)")
  case True
  from bulk_ok [OF assms True] obtain pls' z' where
    r: "free_pcppages_bulk c n pcp z = Some (pcp\<lparr>pcp_lists := pls'\<rparr>, z')"
      "pcp_total pls' = pcp_total (pcp_lists pcp) - n" "pcp_set pls' \<subseteq> pcp_set (pcp_lists pcp)"
      "pcp_lists_ok z' pls'" "returned c z (pcp_set (pcp_lists pcp) - pcp_set pls') z'" by blast
  have card: "card (pcp_set pls) = pcp_total pls" if "pcp_lists_ok y pls" for y pls
    using that distinct_card [of "pls 0 @ pls 1 @ pls 2"] by (simp add: pcp_lists_ok_def pcp_set_def pcp_total_def Un_assoc)
  have fin: "finite (pcp_set pls')" by (simp add: pcp_set_def)
  have "card (pcp_set (pcp_lists pcp) - pcp_set pls') = n"
    using card [OF assms(3)] card [OF r(4)] r(2) True by (simp add: card_Diff_subset [OF fin r(3)])
  then show ?thesis using True r by (auto simp: returned_def)
qed (simp add: bulk_hangs [OF assms])

theorem pcp_bulk_returns_witness:
  "\<exists>pcp' z'. free_pcppages_bulk bd_sample 2
      \<lparr>pcp_count = 3, pcp_high = 3, pcp_batch = 2, pcp_lists = (\<lambda>m. if m = 0 then [6] else if m = 2 then [2, 3] else [])\<rparr>
      (void_zone 8) = Some (pcp', z') \<and> pcp_total (pcp_lists pcp') = 1 \<and> zn_free_pages z' = 2"
proof -
  define pcp where "pcp = \<lparr>pcp_count = 3, pcp_high = 3, pcp_batch = 2,
    pcp_lists = (\<lambda>m. if m = 0 then [6] else if m = 2 then [2, 3] else ([] :: nat list))\<rparr>"
  have ok: "pcp_lists_ok (void_zone 8) (pcp_lists pcp)" "pcp_total (pcp_lists pcp) = 3"
    by (auto simp: pcp_def pcp_lists_ok_def pcp_set_def pcp_total_def void_zone_ok)
  have "0 < MAX_ORDER bd_sample" "zn_free_pages (void_zone 8) = 0" by (simp_all add: bd_sample_def void_zone_def)
  then show ?thesis using pcp_bulk_returns [OF _ void_zone_ok(1) ok(1), of bd_sample 2] ok(2)
    unfolding pcp_def [symmetric] by auto
qed

text \<open>C2: Any sequence of allocations of blocks of valid orders and of releases of what was allocated runs to its end: no check fires and no loop is endless.  At the end the blocks in use are aligned, apart from each other, inside the zone and not on any free list, and the zone, the lists of the processor and the counters are consistent.\<close>

theorem buddy_sequences:
  assumes "pages_inv c s" "\<forall>op \<in> set ops. case op of Alloc k r \<Rightarrow> pages_request c r | Release k \<Rightarrow> True"
  shows "\<exists>z pcp own. run_ranges pages_blocks (pages_alloc c) (pages_release c) ops s = Some (z, pcp, own) \<and>
    cache_ok c pcp z \<and> owned_ok c (zspan z - avail pcp z) own \<and>
    blocks_apart (pages_span s) (pages_blocks (z, pcp, own))"
proof -
  have ow: "pg.owners_ok UNIV s" by (auto simp: pg.owners_ok_def pages_idle_def pages_blocks_def)
  have "\<forall>op \<in> set ops. pg.op_ok c UNIV op" using assms(2) by (auto simp: pg.op_ok_def split: range_op.splits)
  from pg.run_keeps [OF assms(1) ow this] obtain z pcp own where
    r: "run_ranges pages_blocks (pages_alloc c) (pages_release c) ops s = Some (z, pcp, own)"
      "pages_inv c (z, pcp, own)" "pages_span (z, pcp, own) = pages_span s" by (metis prod_cases3)
  then show ?thesis using pg.apart_law [OF r(2)] by (auto simp: pages_inv_def)
qed

theorem buddy_sequences_witness:
  "\<exists>z pcp own. run_ranges pages_blocks (pages_alloc bd_sample) (pages_release bd_sample)
      [Release 0, Alloc 1 (0, 2, False), Alloc 2 (1, 0, False), Release 1, Alloc (3::nat) (0, 1, True)]
      (void_zone 8, setup_pageset 1, [0 \<mapsto> (0, 3)]) = Some (z, pcp, own) \<and> cache_ok bd_sample pcp z"
proof -
  have "cache_ok bd_sample (setup_pageset 1) (void_zone 8)"
    by (rule setup_pageset_ok) (simp_all add: void_zone_ok, simp_all add: bd_sample_def void_zone_def)
  moreover have "avail (setup_pageset 1) (void_zone 8) = {}"
    by (simp add: avail_def void_zone_ok setup_pageset_def pcp_set_def)
  ultimately have inv: "pages_inv bd_sample (void_zone 8, setup_pageset 1, [0 \<mapsto> (0, 3)])"
    by (auto simp: pages_inv_def owned_ok_def void_zone_ok bd_sample_def blk_def)
  have "\<exists>z pcp own. run_ranges pages_blocks (pages_alloc bd_sample) (pages_release bd_sample)
      [Release 0, Alloc 1 (0, 2, False), Alloc 2 (1, 0, False), Release 1, Alloc (3::nat) (0, 1, True)]
      (void_zone 8, setup_pageset 1, [0 \<mapsto> (0, 3)]) = Some (z, pcp, own) \<and>
    cache_ok bd_sample pcp z \<and> owned_ok bd_sample (zspan z - avail pcp z) own \<and>
    blocks_apart (pages_span (void_zone 8, setup_pageset 1, [0::nat \<mapsto> (0, 3)])) (pages_blocks (z, pcp, own))"
    by (rule buddy_sequences [OF inv]) (simp add: pages_request_def bd_sample_def)
  then show ?thesis by blast
qed

end
