(* ===== verification/Spec2Isabelle.thy ===== *)
theory Spec2Isabelle
  imports GHash_Iter GemEvict_Props Highmem_Sys KmapAtomic_Props Slob_Heap PthreadMutex_Main Buddy_Main
begin

text \<open>
  \<^bold>\<open>What this library is about.\<close>
  The repository is a collection of articles about systems programming with the C and C++ sources they
  discuss: parts of the Linux kernel, of GLib and of the Android C library.  The library models the
  self-contained algorithms among those sources and proves what their callers rely on.

  \<^bold>\<open>Conventions.\<close>
  A C function is a HOL function on an explicit state.  An outcome in which it does not return normally (a
  \<^verbatim>\<open>BUG_ON\<close>, an access outside an array, an undefined shift or overflow, an endless loop) is \<^verbatim>\<open>None\<close>, so
  a theorem of the form \<^verbatim>\<open>f s = Some r\<close> says that the function returns and that nothing of the kind happens.
  Machine words are words of their width where wrapping matters.  There is no fuel: loops are structural,
  have a termination proof, or are partial functions whose result \<^verbatim>\<open>None\<close> is non-termination.  Functions of
  files that are not in the repository are parameters, with named hypotheses on what the code expects of them.

  \<^bold>\<open>The components.\<close>

  \<^item> \<^verbatim>\<open>Prelude\<close>, \<^verbatim>\<open>Interfaces\<close>: machine types, checked arrays, shared lemmas; the locales
    \<^verbatim>\<open>assoc_table\<close> (a table behaves as a finite map), \<^verbatim>\<open>block_heap\<close> (blocks handed out are apart) and
    \<^verbatim>\<open>range_allocator\<close> (a heap that refuses only what does not fit).  They are interpreted on the hash
    table (\<^verbatim>\<open>gh\<close>), on the SLOB and the page allocator (\<^verbatim>\<open>sl\<close>, \<^verbatim>\<open>pg\<close>), and on the range allocator (\<^verbatim>\<open>dm\<close>).
  \<^item> \<^verbatim>\<open>GHash\<close> and \<^verbatim>\<open>GHash_*\<close>: the hash table of \<^verbatim>\<open>src/consolekit2_recursion_bug/ghash.c\<close>, one definition
    per function, with the shared key and value array, tombstones, resizing, iterators and the destroy
    notifications as a list.  \<^verbatim>\<open>GHash_Props\<close> has the probe sequence (it visits every slot) and the invariant,
    \<^verbatim>\<open>GHash_Resize\<close> the rehash, \<^verbatim>\<open>GHash_Ops\<close> the operations, \<^verbatim>\<open>GHash_Table\<close> and \<^verbatim>\<open>GHash_Iter\<close> the properties: lookup,
    insertion and removal implement a finite map for fewer than \<^verbatim>\<open>2 ^ 29\<close> entries,
    iteration meets every entry once, removal while iterating is safe.
  \<^item> \<^verbatim>\<open>DrmMM\<close> and \<^verbatim>\<open>DrmMM_*\<close>: the range allocator of \<^verbatim>\<open>src/gfx_drm_mm/drm_mm.c\<close>: node list, hole stack, searches,
    reservation, replacement, removal and the eviction scan.  The invariant orders the nodes and matches the hole
    stack with the gaps.  An insertion fails only if no aligned place exists; a scan that adds blocks and removes
    them in reverse order restores the allocator.  Addresses are at most \<^verbatim>\<open>2 ^ 62\<close>, so that the unsigned
    arithmetic of the code cannot wrap; blocks are not empty and the managed range has more than one address, and
    lemmas show what goes wrong otherwise.
  \<^item> \<^verbatim>\<open>GemEvict\<close>, \<^verbatim>\<open>GemEvict_Props\<close>: \<^verbatim>\<open>src/gfx_gem_mm/i915_gem_evict.c\<close>, the client of the scan: an
    eviction returns whichever buffers are pinned or on a list of the caller, keeps those lists, and, when it succeeds
    and no colour callback is set, leaves room for the block that was asked for.
  \<^item> \<^verbatim>\<open>Highmem\<close>, \<^verbatim>\<open>Highmem_Props\<close>, \<^verbatim>\<open>Highmem_Sys\<close>: the permanent mappings of \<^verbatim>\<open>src/ulk_pkmap/highmem.c\<close> with sleeping
    callers.  In every reachable state of any number of tasks no \<^verbatim>\<open>BUG_ON\<close> fires, a mapped page stays mapped and
    its address translates to it on every processor, and no wake-up is lost; fewer than \<^verbatim>\<open>2 ^ 31\<close> mappings
    are held at a time, as the counters are C integers.
  \<^item> \<^verbatim>\<open>KmapAtomic\<close>, \<^verbatim>\<open>KmapAtomic_Props\<close>: the temporary mappings and page helpers of \<^verbatim>\<open>src/ulk_tkmap\<close>.
  \<^item> \<^verbatim>\<open>Slob\<close> and \<^verbatim>\<open>Slob_*\<close>: the allocator of \<^verbatim>\<open>src/ulk_slob/slob.c\<close> with its free lists inside the
    2048 units of a page: the encoding of free blocks, splitting and joining, the page lists, \<^verbatim>\<open>kmalloc\<close> and
    \<^verbatim>\<open>kfree\<close>.  The pages come from a list of blocks that stands for the page allocator.
  \<^item> \<^verbatim>\<open>PthreadMutex\<close> and \<^verbatim>\<open>PthreadMutex_*\<close>: the mutex of \<^verbatim>\<open>src/android_pthread_mutex_bug/pthread_mutex.cpp\<close>.
    Every function is cut into its atomic accesses to the mutex word; \<^verbatim>\<open>mreach\<close> is reachability under all
    interleavings of any number of threads.  \<^verbatim>\<open>PthreadMutex_Words\<close> has the bit fields, \<^verbatim>\<open>PthreadMutex_Props\<close> and
    \<^verbatim>\<open>PthreadMutex_Wake\<close> the single steps, \<^verbatim>\<open>PthreadMutex_Sys\<close> the invariants, \<^verbatim>\<open>PthreadMutex_Main\<close> the properties: mutual
    exclusion, well-formed words, no lost wake-up without timed locks on recursive and error-checking mutexes, how a timed lock that expires
    after it lost the race for the mutex loses one, the error checks and the attributes.  Thread identifiers have 16 bits, as in the code.
  \<^item> \<^verbatim>\<open>Buddy\<close> and \<^verbatim>\<open>Buddy_*\<close>: the page allocator of one zone in \<^verbatim>\<open>src/ulk_pf/page_alloc.c\<close>: free lists per order and
    type, merging, splitting, fallback types, watermarks, isolation, and the lists of a processor.  \<^verbatim>\<open>Buddy_Sets\<close> has the
    theory of buddy systems as sets (an aligned free run lies in one free block; the free pages determine the
    free blocks), \<^verbatim>\<open>Buddy_Props\<close> and \<^verbatim>\<open>Buddy_Alloc\<close> the operations on the lists, \<^verbatim>\<open>Buddy_Pcp\<close> and \<^verbatim>\<open>Buddy_Cache\<close> the
    watermarks and the processor lists, \<^verbatim>\<open>Buddy_Main\<close> the properties.  The watermark tests compute on 64-bit words, as
    the code does with \<^verbatim>\<open>long\<close>, and read the counter of free pages through a parameter, as it may have drifted.

  \<^bold>\<open>Parameters and hypotheses.\<close>
  \<^verbatim>\<open>key_funcs_ok\<close>: equality of keys is an equivalence that respects the hash function.  \<^verbatim>\<open>color_narrows\<close>: the
  colour callback of a driver only narrows a hole.  \<^verbatim>\<open>unbind_ok\<close>: unbinding a buffer removes its node.
  \<^verbatim>\<open>bionic_ok\<close>: the atomic operations and futex calls behave as the comments in the source say.  In the page
  allocator, \<^verbatim>\<open>prepare\<close>, \<^verbatim>\<open>prep\<close> and \<^verbatim>\<open>testzero\<close> are the outcomes of the checks of page structures and reference counts;
  \<^verbatim>\<open>bd_zone_ok\<close> includes that a zone has no holes.  Every property with a hypothesis is followed by a witness, an
  application to concrete data.

  \<^bold>\<open>Not modelled.\<close>
  The other sources have no model: the SLUB and SLAB allocators, the trace ring buffer and the \<^verbatim>\<open>vmalloc\<close> areas, whose
  algorithms are lock-free or rest on trees, RCU and page tables that the repository does not contain; the page fault code, the
  buffer manager and \<^verbatim>\<open>execbuffer\<close>, which consist of calls into such code; device drivers (LCD, touch screen, input, platform bus), which
  program registers and register objects with the driver core; boot code in assembly; thread creation and process information, which
  are system calls.  The copies \<^verbatim>\<open>src/ulk_pcp/page_alloc.c\<close> and \<^verbatim>\<open>src/gfx_gem_mm/drm_mm.c\<close> repeat modelled files.  Inside the
  modelled files, the following is left out: callbacks that change the hash table they are called from; objects
  freed through RCU in SLOB; in the page allocator the choice of a zone, reclaim, start-up, hotplug,
  statistics, contiguous areas, isolated blocks, guard pages and compound pages.
\<close>

end
